(* ===== verification/Prelude.thy ===== *)
theory Prelude
  imports Main "HOL-Library.Word"
begin

text \<open>
  Shared vocabulary of the development: the machine types of the C code, the collections of
  rewrite rules the component theories fill, and the generic facts on 64-bit words and on lists
  that several components use.

  The model fixes the LP64 data model: \<open>size_t\<close> and \<open>uint64_t\<close> are both 64 bits wide, so
  \<open>SIZE_MAX\<close> is \<open>2 ^ 64 - 1\<close>. C's unsigned arithmetic is arithmetic on \<open>64 word\<close>.
\<close>

unbundle bit_operations_syntax

type_synonym u8 = "8 word"
type_synonym u32 = "32 word"
type_synonym u64 = "64 word"
type_synonym size_t = "64 word"
type_synonym bytes = "u8 list"

text \<open>\<open>mem_ok\<close> says whether the one allocation an operation performs succeeds.\<close>

type_synonym mem_ok = bool

abbreviation UINT64_MAX :: u64 where
  "UINT64_MAX \<equiv> 18446744073709551615"

abbreviation SIZE_MAX :: size_t where
  "SIZE_MAX \<equiv> 18446744073709551615"

named_theorems u64_nat \<open>moving comparisons and overflow-free arithmetic on words to nat\<close>


subsection \<open>Words as natural numbers\<close>

lemma u64_le_nat [u64_nat]: "(a :: u64) \<le> b \<longleftrightarrow> unat a \<le> unat b"
  by (rule word_le_nat_alt)

lemma u64_less_nat [u64_nat]: "(a :: u64) < b \<longleftrightarrow> unat a < unat b"
  by (rule word_less_nat_alt)

lemma u64_eq_nat: "(a :: u64) = b \<longleftrightarrow> unat a = unat b"
  by (rule word_unat_eq_iff)

lemma unat_u64_bound: "unat (a :: u64) < 2 ^ 64"
  using unsigned_less [of a, where 'a = nat] by simp

lemma unat_u64_le_max: "unat (a :: u64) \<le> 18446744073709551615"
  using unat_u64_bound [of a] by simp

lemma UINT64_MAX_greatest [simp]: "(a :: u64) \<le> UINT64_MAX"
  using unat_u64_le_max [of a] by (simp add: u64_nat)

lemma unat_add_u64: "unat (a :: u64) + unat b < 2 ^ 64 \<Longrightarrow> unat (a + b) = unat a + unat b"
  by (simp add: unat_word_ariths)

lemma unat_sub_u64: "(b :: u64) \<le> a \<Longrightarrow> unat (a - b) = unat a - unat b"
  by (rule unat_sub)

lemma unat_mult_u64: "unat (a :: u64) * unat b < 2 ^ 64 \<Longrightarrow> unat (a * b) = unat a * unat b"
  by (simp add: unat_word_ariths)

text \<open>A value below another has a successor; a value above another has a predecessor.\<close>

lemma unat_of_nat_u64: "n < 2 ^ 64 \<Longrightarrow> unat (of_nat n :: u64) = n"
  by (simp add: unat_of_nat)

lemma unat_drop_bit_u64: "unat (drop_bit n (v :: u64)) = unat v div 2 ^ n"
  by (subst unat_drop_bit_eq) (simp add: drop_bit_eq_div)

lemma UINT64_MAX_not_less [simp]: "\<not> UINT64_MAX < a"
  using UINT64_MAX_greatest [of a] by order

lemma unat_succ_less: "(a :: u64) < b \<Longrightarrow> unat (a + 1) = unat a + 1"
  using unat_u64_bound [of b] by (subst unat_add_u64) (auto simp: u64_nat)

lemma unat_pred_greater: "(a :: u64) < b \<Longrightarrow> unat (b - 1) = unat b - 1"
proof -
  assume "a < b"
  then have "1 \<le> b" by (simp add: u64_nat)
  then show ?thesis by (simp add: unat_sub_u64)
qed

lemma u64_pred_eq_iff: "(b :: u64) - 1 = a \<longleftrightarrow> a + 1 = b"
  by (metis add_diff_cancel diff_add_cancel)

lemma succ_le_iff_less: "(a :: u64) < b \<Longrightarrow> (a + 1 \<le> c \<longleftrightarrow> a < c)"
  by (auto simp: u64_nat unat_succ_less)

lemma less_succ_iff_le: "(a :: u64) < b \<Longrightarrow> (c < a + 1 \<longleftrightarrow> c \<le> a)"
  by (auto simp: u64_nat unat_succ_less)

lemma le_pred_iff_less: "(a :: u64) < b \<Longrightarrow> (c \<le> b - 1 \<longleftrightarrow> c < b)"
  by (auto simp: u64_nat unat_pred_greater)


subsection \<open>Intervals of words\<close>

lemma u64_Icc_join:
  fixes a b c d :: u64
  assumes "a \<le> b" "b < c" "b + 1 = c" "c \<le> d"
  shows "{a..d} = {a..b} \<union> {c..d}"
proof -
  have "x \<le> b \<or> c \<le> x" for x
    using assms unat_succ_less [of b c] by (auto simp: u64_nat)
  with assms show ?thesis by fastforce
qed

lemma u64_Icc_overlap_Un:
  fixes a b c d :: u64
  assumes "a \<le> d" "c \<le> b" "a \<le> b" "c \<le> d"
  shows "{a..b} \<union> {c..d} = {min a c..max b d}"
  using assms by (auto simp: min_def max_def)


subsection \<open>Sums over a store\<close>

text \<open>Updating the store at one address of a finite set exchanges one summand.\<close>

lemma sum_fun_upd:
  fixes f :: "'v \<Rightarrow> nat"
  assumes "finite S" "s \<in> S"
  shows "(\<Sum>x\<in>S. f ((h(s := v)) x)) + f (h s) = (\<Sum>x\<in>S. f (h x)) + f v"
proof -
  have "(\<Sum>x\<in>S - {s}. f ((h(s := v)) x)) = (\<Sum>x\<in>S - {s}. f (h x))"
    by (rule sum.cong) auto
  then show ?thesis
    using sum.remove [OF assms, of "\<lambda>x. f ((h(s := v)) x)"] sum.remove [OF assms, of "\<lambda>x. f (h x)"]
    by simp
qed

lemma sum_fun_upd_other:
  "c \<notin> S \<Longrightarrow> (\<Sum>x\<in>S. f ((h(c := v)) x)) = (\<Sum>x\<in>S. f (h x))"
  by (rule sum.cong) auto

lemma sum_member_le: "finite S \<Longrightarrow> s \<in> S \<Longrightarrow> f s \<le> (\<Sum>x\<in>S. f x :: nat)"
  by (rule member_le_sum) auto

end
