(* ===== verification/Vlint.thy ===== *)
theory Vlint
  imports Prelude
begin

text \<open>
  QUIC variable-length integers (\<open>include/internal/quic_vlint.h\<close>, \<open>crypto/quic_vlint.c\<close>), and
  big-endian byte strings. An encoder is modelled by the bytes it stores from \<open>buf[0]\<close> on; a decoder
  by a function of the bytes at \<open>buf\<close>.

  The theory shows that decoding inverts every encoding long enough for the value, that
  \<open>ossl_quic_vlint_encode\<close> uses the shortest one, and that decoding accepts exactly the complete
  encodings.
\<close>

section \<open>Definitions\<close>

definition OSSL_QUIC_VLINT_2B_MIN :: u64 where "OSSL_QUIC_VLINT_2B_MIN = 64"
definition OSSL_QUIC_VLINT_4B_MIN :: u64 where "OSSL_QUIC_VLINT_4B_MIN = 16384"
definition OSSL_QUIC_VLINT_8B_MIN :: u64 where "OSSL_QUIC_VLINT_8B_MIN = 1073741824"
definition OSSL_QUIC_VLINT_MAX :: u64 where "OSSL_QUIC_VLINT_MAX = push_bit 62 1 - 1"

definition ossl_quic_vlint_encode_len :: "u64 \<Rightarrow> size_t" where
  "ossl_quic_vlint_encode_len v =
     (if v < OSSL_QUIC_VLINT_2B_MIN then 1
      else if v < OSSL_QUIC_VLINT_4B_MIN then 2
      else if v < OSSL_QUIC_VLINT_8B_MIN then 4
      else if v \<le> OSSL_QUIC_VLINT_MAX then 8
      else 0)"

text \<open>Conversion to \<open>uint8_t\<close>.\<close>

abbreviation to_u8 :: "u64 \<Rightarrow> u8" where "to_u8 v \<equiv> ucast v"
abbreviation from_u8 :: "u8 \<Rightarrow> u64" where "from_u8 b \<equiv> ucast b"

definition ossl_quic_vlint_encode_n :: "u64 \<Rightarrow> nat \<Rightarrow> bytes" where
  "ossl_quic_vlint_encode_n v n =
     (if n = 1 then [to_u8 v]
      else if n = 2 then
        [to_u8 (0x40 OR (drop_bit 8 v AND 0x3F)), to_u8 v]
      else if n = 4 then
        [to_u8 (0x80 OR (drop_bit 24 v AND 0x3F)), to_u8 (drop_bit 16 v), to_u8 (drop_bit 8 v), to_u8 v]
      else
        [to_u8 (0xC0 OR (drop_bit 56 v AND 0x3F)), to_u8 (drop_bit 48 v), to_u8 (drop_bit 40 v),
         to_u8 (drop_bit 32 v), to_u8 (drop_bit 24 v), to_u8 (drop_bit 16 v), to_u8 (drop_bit 8 v),
         to_u8 v])"

definition ossl_quic_vlint_encode :: "u64 \<Rightarrow> bytes" where
  "ossl_quic_vlint_encode v = ossl_quic_vlint_encode_n v (unat (ossl_quic_vlint_encode_len v))"

definition ossl_quic_vlint_decode_len :: "u8 \<Rightarrow> size_t" where
  "ossl_quic_vlint_decode_len first_byte = push_bit (unat (drop_bit 6 (first_byte AND 0xC0))) 1"

definition ossl_quic_vlint_decode_unchecked :: "bytes \<Rightarrow> u64" where
  "ossl_quic_vlint_decode_unchecked buf =
     (let first_byte = buf ! 0;
          sz = ossl_quic_vlint_decode_len first_byte
      in if sz = 1 then from_u8 (first_byte AND 0x3F)
         else if sz = 2 then push_bit 8 (from_u8 (first_byte AND 0x3F)) OR from_u8 (buf ! 1)
         else if sz = 4 then
           push_bit 24 (from_u8 (first_byte AND 0x3F)) OR push_bit 16 (from_u8 (buf ! 1)) OR
           push_bit 8 (from_u8 (buf ! 2)) OR from_u8 (buf ! 3)
         else
           push_bit 56 (from_u8 (first_byte AND 0x3F)) OR push_bit 48 (from_u8 (buf ! 1)) OR
           push_bit 40 (from_u8 (buf ! 2)) OR push_bit 32 (from_u8 (buf ! 3)) OR
           push_bit 24 (from_u8 (buf ! 4)) OR push_bit 16 (from_u8 (buf ! 5)) OR
           push_bit 8 (from_u8 (buf ! 6)) OR from_u8 (buf ! 7))"

text \<open>\<open>ossl_quic_vlint_decode\<close> returns the number of bytes used and the value, or 0 for a truncated
  integer.\<close>

definition ossl_quic_vlint_decode :: "bytes \<Rightarrow> (size_t \<times> u64) option" where
  "ossl_quic_vlint_decode buf =
     (if length buf < 1 then None
      else
        (let dec_len = ossl_quic_vlint_decode_len (buf ! 0) in
         if length buf < unat dec_len then None
         else Some (dec_len, ossl_quic_vlint_decode_unchecked buf)))"


section \<open>Big-endian byte strings\<close>

text \<open>The value of a big-endian byte string, and the low \<open>k\<close> bytes of a value.\<close>

definition be_value :: "bytes \<Rightarrow> u64" where
  "be_value bs = foldl (\<lambda>a b. push_bit 8 a OR from_u8 b) 0 bs"

fun be_bytes :: "nat \<Rightarrow> u64 \<Rightarrow> bytes" where
  "be_bytes 0 v = []"
| "be_bytes (Suc k) v = be_bytes k (drop_bit 8 v) @ [to_u8 v]"

lemma length_be_bytes [simp]: "length (be_bytes k v) = k"
  by (induction k arbitrary: v) simp_all

lemma be_value_Nil [simp]: "be_value [] = 0"
  by (simp add: be_value_def)

lemma be_value_snoc [simp]: "be_value (bs @ [b]) = push_bit 8 (be_value bs) OR from_u8 b"
  by (simp add: be_value_def)

lemma push_take_low_byte: "push_bit 8 (take_bit k (drop_bit 8 v)) OR from_u8 (to_u8 v) = take_bit (k + 8) v"
  by (rule bit_word_eqI) (auto simp: bit_simps)

lemma be_value_be_bytes: "be_value (be_bytes k v) = take_bit (8 * k) v"
  by (induction k arbitrary: v) (simp_all add: push_take_low_byte add.commute)

lemma be_value_upper:
  "be_value (b # bs) = push_bit (8 * length bs) (from_u8 b) OR be_value bs"
proof (induction bs rule: rev_induct)
  case Nil
  then show ?case by (simp add: be_value_def)
next
  case (snoc c bs)
  have "be_value (b # bs @ [c]) = push_bit 8 (be_value (b # bs)) OR from_u8 c"
    using be_value_snoc [of "b # bs" c] by simp
  then show ?case
    by (simp add: snoc push_bit_or or.assoc ac_simps)
qed

section \<open>The first byte\<close>

text \<open>Every encoding is a first byte that carries the two length bits \<open>k\<close> above six value bits,
  followed by a big-endian string.\<close>

definition vlint_first :: "u64 \<Rightarrow> u64 \<Rightarrow> u8" where
  "vlint_first k x = to_u8 (push_bit 6 k OR take_bit 6 x)"

lemma mask_3F: "x AND 0x3F = take_bit 6 (x :: 'a :: len word)"
proof -
  have "(0x3F :: 'a word) = mask 6" by (simp add: mask_eq_exp_minus_1)
  then show ?thesis by (simp only: take_bit_eq_mask)
qed

lemma decode_len_bits: "drop_bit 6 (b AND 0xC0) = drop_bit 6 (b :: u8)"
proof -
  have "bit (3 :: u8) n" if "bit b (6 + n)" for n
  proof -
    have "n < 2" using bit_imp_le_length [OF that] by simp
    then show ?thesis by (auto simp: less_2_cases_iff)
  qed
  moreover have "(0xC0 :: u8) = push_bit 6 3" by simp
  ultimately show ?thesis
    by (intro bit_word_eqI) (auto simp only: bit_drop_bit_eq bit_and_iff bit_push_bit_iff o_def
          diff_add_inverse possible_bit_word dest: bit_imp_le_length)
qed

lemma vlint_first_low: "take_bit 6 (vlint_first k x) = to_u8 (take_bit 6 x)"
  by (rule bit_word_eqI) (auto simp: vlint_first_def bit_simps)

lemma vlint_first_high: "drop_bit 6 (vlint_first k x) = to_u8 (take_bit 2 k)"
  by (rule bit_word_eqI) (auto simp: vlint_first_def bit_simps)

lemma take_bit_small: "unat v < 2 ^ n \<Longrightarrow> take_bit n v = (v :: u64)"
  by (simp add: word_unat_eq_iff unsigned_take_bit_eq take_bit_nat_eq_self)

lemma be_bytes_7:
  "be_bytes 7 v = [to_u8 (drop_bit 48 v), to_u8 (drop_bit 40 v), to_u8 (drop_bit 32 v),
     to_u8 (drop_bit 24 v), to_u8 (drop_bit 16 v), to_u8 (drop_bit 8 v), to_u8 v]"
  by (simp add: eval_nat_numeral)

lemma be_bytes_3: "be_bytes 3 v = [to_u8 (drop_bit 16 v), to_u8 (drop_bit 8 v), to_u8 v]"
  by (simp add: eval_nat_numeral)

lemma encode_n_shape:
  "v < 64 \<Longrightarrow> ossl_quic_vlint_encode_n v 1 = vlint_first 0 v # be_bytes 0 v"
  "ossl_quic_vlint_encode_n v 2 = vlint_first 1 (drop_bit 8 v) # be_bytes 1 v"
  "ossl_quic_vlint_encode_n v 4 = vlint_first 2 (drop_bit 24 v) # be_bytes 3 v"
  "ossl_quic_vlint_encode_n v 8 = vlint_first 3 (drop_bit 56 v) # be_bytes 7 v"
  by (simp_all add: ossl_quic_vlint_encode_n_def vlint_first_def mask_3F take_bit_small u64_less_nat
      be_bytes_3 be_bytes_7)

text \<open>Decoding in terms of the first byte and the big-endian rest.\<close>

lemma decode_len_first: "ossl_quic_vlint_decode_len b = 2 ^ unat (drop_bit 6 b)"
  unfolding ossl_quic_vlint_decode_len_def decode_len_bits by (simp add: push_bit_eq_mult)

lemma first_bits_cases:
  obtains "drop_bit 6 (b :: u8) = 0" | "drop_bit 6 b = 1" | "drop_bit 6 b = 2" | "drop_bit 6 b = 3"
proof -
  have "unat (drop_bit 6 b) < 4"
    using unsigned_less [of b, where 'a = nat]
    by (simp add: unat_drop_bit_eq) (simp add: drop_bit_eq_div)
  then have "drop_bit 6 b \<in> {0, 1, 2, 3}"
    by (auto simp: word_unat_eq_iff)
  then show thesis using that by blast
qed

lemma decode_unchecked_shape:
  assumes "unat (ossl_quic_vlint_decode_len b) = Suc (length bs)"
  shows "ossl_quic_vlint_decode_unchecked (b # bs @ rest) =
    push_bit (8 * length bs) (from_u8 (take_bit 6 b)) OR be_value bs"
proof (rule first_bits_cases [of b])
  assume b: "drop_bit 6 b = 0"
  then have "bs = []" using assms by (simp add: decode_len_first)
  with b show ?thesis
    by (simp add: ossl_quic_vlint_decode_unchecked_def decode_len_first mask_3F)
next
  assume b: "drop_bit 6 b = 1"
  then have "length bs = 1" using assms by (simp add: decode_len_first)
  then obtain b1 where "bs = [b1]"
    by (auto simp: length_Suc_conv eval_nat_numeral)
  with b show ?thesis
    by (simp add: ossl_quic_vlint_decode_unchecked_def decode_len_first mask_3F be_value_upper)
next
  assume b: "drop_bit 6 b = 2"
  then have "length bs = 3" using assms by (simp add: decode_len_first)
  then obtain b1 b2 b3 where "bs = [b1, b2, b3]"
    by (auto simp: length_Suc_conv eval_nat_numeral)
  with b show ?thesis
    by (simp add: ossl_quic_vlint_decode_unchecked_def decode_len_first mask_3F be_value_upper)
next
  assume b: "drop_bit 6 b = 3"
  then have "length bs = 7" using assms by (simp add: decode_len_first)
  then obtain b1 b2 b3 b4 b5 b6 b7 where "bs = [b1, b2, b3, b4, b5, b6, b7]"
    by (auto simp: length_Suc_conv eval_nat_numeral)
  with b show ?thesis
    by (simp add: ossl_quic_vlint_decode_unchecked_def decode_len_first mask_3F be_value_upper)
qed

section \<open>Encoding and decoding\<close>

text \<open>The encoding with length bits \<open>k\<close>, that is with \<open>2 ^ k\<close> bytes.\<close>

definition vlint_bytes :: "nat \<Rightarrow> u64 \<Rightarrow> bytes" where
  "vlint_bytes k v = vlint_first (of_nat k) (drop_bit (8 * (2 ^ k - 1)) v) # be_bytes (2 ^ k - 1) v"

definition vlint_fits :: "nat \<Rightarrow> u64 \<Rightarrow> bool" where
  "vlint_fits k v \<longleftrightarrow> unat v < 2 ^ (8 * (2 ^ k - 1) + 6)"

lemma length_vlint_bytes [simp]: "length (vlint_bytes k v) = 2 ^ k"
  by (simp add: vlint_bytes_def)

lemma less_4_cases: "k < 4 \<Longrightarrow> k = 0 \<or> k = 1 \<or> k = 2 \<or> k = (3 :: nat)"
  by auto

lemma vlint_fits_mono:
  assumes "vlint_fits k v" "k \<le> j"
  shows "vlint_fits j v"
proof -
  have "(2 :: nat) ^ k \<le> 2 ^ j" using assms(2) by (rule power_increasing) simp
  then have "(2 :: nat) ^ (8 * (2 ^ k - 1) + 6) \<le> 2 ^ (8 * (2 ^ j - 1) + 6)"
    by (intro power_increasing) (auto intro: diff_le_mono)
  then show ?thesis using assms(1) unfolding vlint_fits_def by (rule less_le_trans [rotated])
qed

lemma encode_n_vlint_bytes:
  "k < 4 \<Longrightarrow> vlint_fits k v \<Longrightarrow> ossl_quic_vlint_encode_n v (2 ^ k) = vlint_bytes k v"
  using encode_n_shape [of v]
  by (auto dest!: less_4_cases simp: vlint_bytes_def vlint_fits_def u64_less_nat)

lemma vlint_join:
  "push_bit j (from_u8 (to_u8 (take_bit 6 (drop_bit j v)))) OR take_bit j v = take_bit (j + 6) v"
  by (rule bit_word_eqI) (auto simp: bit_simps)

lemma decode_len_vlint_bytes:
  "k < 4 \<Longrightarrow> ossl_quic_vlint_decode_len (vlint_bytes k v ! 0) = 2 ^ k"
  by (auto dest!: less_4_cases simp: vlint_bytes_def decode_len_first vlint_first_high)

lemma decode_vlint_bytes:
  assumes k: "k < 4" and v: "vlint_fits k v"
  shows "ossl_quic_vlint_decode_unchecked (vlint_bytes k v @ rest) = v"
proof -
  let ?m = "2 ^ k - 1 :: nat"
  have "unat (2 ^ k :: size_t) = Suc ?m" using k by (auto dest!: less_4_cases)
  then have "ossl_quic_vlint_decode_unchecked (vlint_bytes k v @ rest) =
      push_bit (8 * ?m) (from_u8 (to_u8 (take_bit 6 (drop_bit (8 * ?m) v)))) OR take_bit (8 * ?m) v"
    using decode_unchecked_shape [of "vlint_bytes k v ! 0" "be_bytes ?m v" rest]
      decode_len_vlint_bytes [OF k, of v]
    by (simp add: vlint_bytes_def vlint_first_low be_value_be_bytes)
  also have "\<dots> = v"
    unfolding vlint_join using v by (simp add: vlint_fits_def take_bit_small)
  finally show ?thesis .
qed

lemma decode_encode_n:
  assumes "k < 4" "vlint_fits k v"
  shows "ossl_quic_vlint_decode (ossl_quic_vlint_encode_n v (2 ^ k) @ rest) = Some (2 ^ k, v)"
proof -
  have "unat (2 ^ k :: size_t) = 2 ^ k" using assms(1) by (auto dest!: less_4_cases)
  then show ?thesis
    using decode_vlint_bytes [OF assms] decode_len_vlint_bytes [OF assms(1), of v]
      encode_n_vlint_bytes [OF assms]
    by (simp add: ossl_quic_vlint_decode_def nth_append Let_def not_less)
qed

lemma encode_len_cases:
  assumes "v \<le> OSSL_QUIC_VLINT_MAX"
  obtains k where "k < 4" "vlint_fits k v" "ossl_quic_vlint_encode_len v = 2 ^ k"
    "\<And>j. vlint_fits j v \<Longrightarrow> k \<le> j"
proof -
  let ?k = "if unat v < 64 then 0 else if unat v < 16384 then 1 else if unat v < 1073741824 then 2 else 3 :: nat"
  have max: "unat v < 4611686018427387904"
    using assms by (simp add: OSSL_QUIC_VLINT_MAX_def u64_le_nat)
  have j: "\<not> vlint_fits j v" if "j < ?k" for j
  proof -
    have "j = 0 \<or> j = 1 \<or> j = 2" using that by (auto split: if_splits)
    then show ?thesis using that by (auto simp: vlint_fits_def split: if_splits)
  qed
  show thesis
  proof (rule that [of ?k])
    show "ossl_quic_vlint_encode_len v = 2 ^ ?k"
      using assms by (simp add: ossl_quic_vlint_encode_len_def OSSL_QUIC_VLINT_2B_MIN_def
          OSSL_QUIC_VLINT_4B_MIN_def OSSL_QUIC_VLINT_8B_MIN_def u64_less_nat)
    show "\<And>i. vlint_fits i v \<Longrightarrow> ?k \<le> i" using j leI by blast
  qed (use max in \<open>simp_all add: vlint_fits_def\<close>)
qed

lemma encode_shortest:
  assumes "v \<le> OSSL_QUIC_VLINT_MAX"
  obtains k where "k < 4" "vlint_fits k v" "unat (ossl_quic_vlint_encode_len v) = 2 ^ k"
    "ossl_quic_vlint_encode v = vlint_bytes k v"
proof -
  obtain k where k: "k < 4" "vlint_fits k v" "ossl_quic_vlint_encode_len v = 2 ^ k"
    using encode_len_cases [OF assms] .
  moreover from k have "unat (ossl_quic_vlint_encode_len v) = 2 ^ k" by (auto dest!: less_4_cases)
  ultimately show thesis
    using that [of k] encode_n_vlint_bytes [OF k(1,2)] by (simp add: ossl_quic_vlint_encode_def)
qed

lemma length_vlint_encode:
  "v \<le> OSSL_QUIC_VLINT_MAX \<Longrightarrow> length (ossl_quic_vlint_encode v) = unat (ossl_quic_vlint_encode_len v)"
  by (erule encode_shortest) simp

lemma vlint_encode_len_pos: "v \<le> OSSL_QUIC_VLINT_MAX \<Longrightarrow> ossl_quic_vlint_encode_len v \<noteq> 0"
  by (simp add: ossl_quic_vlint_encode_len_def)

lemma vlint_encode_len_le_8: "unat (ossl_quic_vlint_encode_len v) \<le> 8"
  by (simp add: ossl_quic_vlint_encode_len_def)

lemma decode_vlint_encode:
  assumes "v \<le> OSSL_QUIC_VLINT_MAX"
  shows "ossl_quic_vlint_decode_len (ossl_quic_vlint_encode v ! 0) = ossl_quic_vlint_encode_len v"
    and "ossl_quic_vlint_decode_unchecked (ossl_quic_vlint_encode v @ rest) = v"
proof -
  obtain k where k: "k < 4" "vlint_fits k v" "unat (ossl_quic_vlint_encode_len v) = 2 ^ k"
    "ossl_quic_vlint_encode v = vlint_bytes k v" using encode_shortest [OF assms] .
  have "unat (2 ^ k :: size_t) = 2 ^ k" using k(1) by (auto dest!: less_4_cases)
  then show "ossl_quic_vlint_decode_len (ossl_quic_vlint_encode v ! 0) = ossl_quic_vlint_encode_len v"
    using k by (simp add: decode_len_vlint_bytes u64_eq_nat)
  show "ossl_quic_vlint_decode_unchecked (ossl_quic_vlint_encode v @ rest) = v"
    using k by (simp add: decode_vlint_bytes)
qed

subsection \<open>Decoded values encode to the decoded bytes\<close>

lemma to_u8_take: "8 \<le> j \<Longrightarrow> to_u8 (take_bit j v) = to_u8 v"
  by (rule bit_word_eqI) (auto simp: bit_simps)

lemma drop_take_8: "8 \<le> j \<Longrightarrow> drop_bit 8 (take_bit j v) = take_bit (j - 8) (drop_bit 8 (v :: u64))"
  by (rule bit_word_eqI) (auto simp: bit_simps)

lemma be_bytes_take: "8 * m \<le> j \<Longrightarrow> be_bytes m (take_bit j v) = be_bytes m v"
  by (induction m arbitrary: j v) (simp_all add: to_u8_take drop_take_8)

lemma drop_push_8: "drop_bit 8 (push_bit 8 y OR from_u8 b) = take_bit 56 y"
  by (rule bit_word_eqI) (auto simp: bit_simps dest: bit_imp_le_length)

lemma to_u8_push_8: "to_u8 (push_bit 8 y OR from_u8 b) = b"
  by (rule bit_word_eqI) (auto simp: bit_simps)

lemma be_bytes_be_value: "length bs \<le> 8 \<Longrightarrow> be_bytes (length bs) (be_value bs) = bs"
  by (induction bs rule: rev_induct) (simp_all add: drop_push_8 to_u8_push_8 be_bytes_take del: drop_bit_or)

lemma take_be_value: "length bs \<le> 8 \<Longrightarrow> take_bit (8 * length bs) (be_value bs) = be_value bs"
  using be_value_be_bytes [of "length bs" "be_value bs"] by (simp add: be_bytes_be_value)

lemma take_push_or: "take_bit j (push_bit j x OR y) = take_bit j (y :: u64)"
  by (rule bit_word_eqI) (auto simp: bit_simps)

lemma drop_push_or:
  "j \<le> 56 \<Longrightarrow> drop_bit j (push_bit j (from_u8 (take_bit 6 b)) OR take_bit j y) = from_u8 (take_bit 6 b)"
  by (rule bit_word_eqI) (auto simp: bit_simps)

lemma take_push_fits:
  "j \<le> 56 \<Longrightarrow> take_bit (j + 6) (push_bit j (from_u8 (take_bit 6 b)) OR take_bit j y) =
     push_bit j (from_u8 (take_bit 6 b)) OR take_bit j y"
  by (rule bit_word_eqI) (auto simp: bit_simps)

lemma vlint_first_eq: "vlint_first (from_u8 (drop_bit 6 b)) (from_u8 (take_bit 6 b)) = b"
  by (rule bit_word_eqI) (auto simp: vlint_first_def bit_simps dest: bit_imp_le_length)

lemma vlint_bytes_decode:
  assumes k: "k = unat (drop_bit 6 b)" and bs: "length bs = 2 ^ k - 1"
    and v: "v = push_bit (8 * length bs) (from_u8 (take_bit 6 b)) OR be_value bs"
  shows "k < 4" "vlint_fits k v" "vlint_bytes k v = b # bs"
proof -
  show k4: "k < 4" unfolding k by (rule first_bits_cases [of b]) simp_all
  then have m: "length bs \<le> 7" using bs by (auto dest!: less_4_cases)
  let ?j = "8 * length bs"
  have low: "take_bit ?j (be_value bs) = be_value bs" using m by (simp add: take_be_value)
  have "take_bit (?j + 6) v = v"
    using take_push_fits [of ?j b "be_value bs"] m unfolding v low by simp
  moreover have "unat (take_bit (?j + 6) v) < 2 ^ (?j + 6)"
    by (simp add: unsigned_take_bit_eq take_bit_nat_less_exp)
  ultimately show "vlint_fits k v" by (simp add: vlint_fits_def bs)
  have "drop_bit ?j v = from_u8 (take_bit 6 b)"
    using drop_push_or [of ?j b "be_value bs"] m unfolding v low by simp
  moreover have "be_bytes (length bs) v = bs"
    using be_bytes_take [of "length bs" ?j v] be_bytes_be_value [of bs] m
    unfolding v take_push_or low by simp
  moreover have "of_nat k = from_u8 (drop_bit 6 b)"
    unfolding k by (simp add: of_nat_unat)
  ultimately show "vlint_bytes k v = b # bs"
    unfolding vlint_bytes_def bs [symmetric] by (simp add: vlint_first_eq)
qed

lemma vlint_decode_spec:
  "case ossl_quic_vlint_decode buf of
     None \<Rightarrow> buf = [] \<or> length buf < unat (ossl_quic_vlint_decode_len (hd buf))
   | Some (n, v) \<Rightarrow> v \<le> OSSL_QUIC_VLINT_MAX \<and> unat n \<le> length buf \<and> n = ossl_quic_vlint_decode_len (hd buf) \<and>
       ossl_quic_vlint_encode_n v (unat n) = take (unat n) buf"
proof (cases buf)
  case (Cons b rest)
  define k where "k = unat (drop_bit 6 b)"
  have k: "k < 4" unfolding k_def by (rule first_bits_cases [of b]) simp_all
  have n: "unat (ossl_quic_vlint_decode_len b) = 2 ^ k"
    using k unfolding decode_len_first k_def [symmetric] by (auto dest!: less_4_cases)
  show ?thesis
  proof (cases "length buf < unat (ossl_quic_vlint_decode_len b)")
    case True
    then show ?thesis by (simp add: ossl_quic_vlint_decode_def Cons)
  next
    case False
    define bs where "bs = take (2 ^ k - 1) rest"
    have "2 ^ k - 1 \<le> length rest" using False n by (simp add: Cons)
    then have bs: "length bs = 2 ^ k - 1" "Suc (length bs) = 2 ^ k" by (simp_all add: bs_def)
    have buf: "take (2 ^ k) buf = b # bs" "buf = b # bs @ drop (2 ^ k - 1) rest"
      by (simp_all add: Cons bs_def take_Cons')
    define v where "v = ossl_quic_vlint_decode_unchecked buf"
    have "v = push_bit (8 * length bs) (from_u8 (take_bit 6 b)) OR be_value bs"
      using decode_unchecked_shape [of b bs] n bs(2) buf(2) by (simp add: v_def)
    note vb = vlint_bytes_decode [OF k_def bs(1) this]
    have "unat v < 2 ^ 62"
      using vb(2) k by (auto dest!: less_4_cases simp: vlint_fits_def)
    then have "v \<le> OSSL_QUIC_VLINT_MAX" by (simp add: OSSL_QUIC_VLINT_MAX_def u64_le_nat)
    moreover have "ossl_quic_vlint_encode_n v (2 ^ k) = take (2 ^ k) buf"
      using encode_n_vlint_bytes [OF vb(1,2)] vb(3) buf(1) by simp
    ultimately show ?thesis
      using False n by (simp add: ossl_quic_vlint_decode_def Cons v_def Let_def)
  qed
qed (simp add: ossl_quic_vlint_decode_def)

section \<open>Properties\<close>

text \<open>C15. Every value up to the maximum survives encoding and decoding, whatever follows it in the
  buffer: with the encoding \<open>ossl_quic_vlint_encode\<close> chooses, whose length is the one
  \<open>ossl_quic_vlint_encode_len\<close> announces, and with any longer encoding of 1, 2, 4 or 8 bytes.\<close>

theorem vlint_roundtrip:
  assumes v: "v \<le> OSSL_QUIC_VLINT_MAX" and n: "n \<in> {1, 2, 4, 8}" "ossl_quic_vlint_encode_len v \<le> n"
  shows "ossl_quic_vlint_decode (ossl_quic_vlint_encode v @ rest) =
      Some (ossl_quic_vlint_encode_len v, v) \<and>
    length (ossl_quic_vlint_encode v) = unat (ossl_quic_vlint_encode_len v) \<and>
    ossl_quic_vlint_decode (ossl_quic_vlint_encode_n v (unat n) @ rest) = Some (n, v)"
proof -
  obtain k where k: "k < 4" "vlint_fits k v" "ossl_quic_vlint_encode_len v = 2 ^ k"
    using encode_len_cases [OF v] .
  obtain j where j: "j < 4" "n = 2 ^ j" "unat n = 2 ^ j"
  proof -
    have "n = 2 ^ 0 \<or> n = 2 ^ 1 \<or> n = 2 ^ 2 \<or> n = 2 ^ 3" using n(1) by auto
    then show thesis using that [of 0] that [of 1] that [of 2] that [of 3] by auto
  qed
  have "k \<le> j" using n(2) k(1,3) j by (auto dest!: less_4_cases simp: u64_le_nat)
  then have "vlint_fits j v" by (rule vlint_fits_mono [OF k(2)])
  moreover have "unat (2 ^ k :: size_t) = 2 ^ k" using k(1) by (auto dest!: less_4_cases)
  ultimately show ?thesis
    using decode_encode_n [OF k(1,2), of rest] decode_encode_n [OF j(1), of v rest] k j
      length_vlint_encode [OF v]
    by (simp add: ossl_quic_vlint_encode_def)
qed

theorem vlint_roundtrip_witness:
  "ossl_quic_vlint_decode (ossl_quic_vlint_encode_n 15293 (unat (4 :: size_t)) @ [7]) = Some (4, 15293)"
  using vlint_roundtrip [of 15293 4 "[7]"]
  by (simp add: OSSL_QUIC_VLINT_MAX_def ossl_quic_vlint_encode_len_def OSSL_QUIC_VLINT_2B_MIN_def
      OSSL_QUIC_VLINT_4B_MIN_def)

text \<open>C14. Decoding is the inverse of encoding: a decoded value is at most the maximum, the bytes that
  were consumed lie within the buffer, and they are exactly the encoding of the value with that
  many bytes; decoding fails only on a truncated integer.\<close>

theorem vlint_decode_canonical:
  "case ossl_quic_vlint_decode buf of
     None \<Rightarrow> buf = [] \<or> length buf < unat (ossl_quic_vlint_decode_len (hd buf))
   | Some (n, v) \<Rightarrow> v \<le> OSSL_QUIC_VLINT_MAX \<and> unat n \<le> length buf \<and> n = ossl_quic_vlint_decode_len (hd buf) \<and>
       ossl_quic_vlint_encode_n v (unat n) = take (unat n) buf"
  by (rule vlint_decode_spec)

end
