(* ===== verification/Packet.thy ===== *)
theory Packet
  imports Vlint "HOL-Library.Sublist"
begin

text \<open>
  Reading packets (\<open>PACKET\<close> of \<open>include/internal/packet.h\<close> and its QUIC extension
  \<open>include/internal/packet_quic.h\<close>). A \<open>PACKET\<close> is a pointer \<open>curr\<close> and a count \<open>remaining\<close>; the model
  is the list of the remaining bytes. \<open>PACKET_buf_init\<close> bounds its length by \<open>SIZE_MAX / 2\<close>, so
  lengths are natural numbers here.

  A function that reads returns what it stored through its result pointer, or \<open>None\<close> when the C
  function returns 0, together with the packet afterwards; functions that only peek return an option.
  \<open>unsigned int\<close> is 32 and \<open>unsigned long\<close> 64 bits wide.

  The theory shows that readers only move forward within the packet, that a success does not
  depend on the bytes behind it, and that reading inverts the big-endian and the variable-length
  encodings.
\<close>

type_synonym packet = bytes
type_synonym 'a reader = "packet \<Rightarrow> 'a option \<times> packet"

section \<open>Definitions\<close>

definition packet_forward :: "packet \<Rightarrow> nat \<Rightarrow> packet" where
  "packet_forward pkt len = drop len pkt"

definition PACKET_remaining :: "packet \<Rightarrow> nat" where
  "PACKET_remaining pkt = length pkt"

definition PACKET_data :: "packet \<Rightarrow> bytes" where
  "PACKET_data pkt = pkt"

definition PACKET_buf_init :: "bytes \<Rightarrow> nat \<Rightarrow> packet option" where
  "PACKET_buf_init buf len = (if len > unat (SIZE_MAX div 2) then None else Some (take len buf))"

definition PACKET_null_init :: packet where
  "PACKET_null_init = []"

definition PACKET_equal :: "packet \<Rightarrow> bytes \<Rightarrow> nat \<Rightarrow> bool" where
  "PACKET_equal pkt ptr num = (if PACKET_remaining pkt \<noteq> num then False else pkt = take num ptr)"

definition PACKET_peek_sub_packet :: "packet \<Rightarrow> nat \<Rightarrow> packet option" where
  "PACKET_peek_sub_packet pkt len =
     (if PACKET_remaining pkt < len then None else PACKET_buf_init pkt len)"

text \<open>\<open>PACKET_get_...\<close> functions forward past what the corresponding \<open>PACKET_peek_...\<close> read.\<close>

definition get_of_peek :: "(packet \<Rightarrow> 'a option) \<Rightarrow> nat \<Rightarrow> 'a reader" where
  "get_of_peek peek len pkt =
     (case peek pkt of None \<Rightarrow> (None, pkt) | Some data \<Rightarrow> (Some data, packet_forward pkt len))"

definition PACKET_get_sub_packet :: "nat \<Rightarrow> packet reader" where
  "PACKET_get_sub_packet len = get_of_peek (\<lambda>pkt. PACKET_peek_sub_packet pkt len) len"

definition PACKET_peek_net_2 :: "packet \<Rightarrow> u32 option" where
  "PACKET_peek_net_2 pkt =
     (if PACKET_remaining pkt < 2 then None
      else Some (push_bit 8 (ucast (pkt ! 0)) OR ucast (pkt ! 1)))"

definition PACKET_get_net_2 :: "u32 reader" where
  "PACKET_get_net_2 = get_of_peek PACKET_peek_net_2 2"

text \<open>The \<open>..._len\<close> variants store into a \<open>size_t\<close>.\<close>

definition as_size :: "'w :: len word reader \<Rightarrow> size_t reader" where
  "as_size rd pkt = (let (ret, pkt) = rd pkt in (map_option ucast ret, pkt))"

definition PACKET_get_net_2_len :: "size_t reader" where
  "PACKET_get_net_2_len = as_size PACKET_get_net_2"

definition PACKET_peek_net_3 :: "packet \<Rightarrow> u64 option" where
  "PACKET_peek_net_3 pkt =
     (if PACKET_remaining pkt < 3 then None
      else Some (push_bit 16 (ucast (pkt ! 0)) OR push_bit 8 (ucast (pkt ! 1)) OR ucast (pkt ! 2)))"

definition PACKET_get_net_3 :: "u64 reader" where
  "PACKET_get_net_3 = get_of_peek PACKET_peek_net_3 3"

definition PACKET_get_net_3_len :: "size_t reader" where
  "PACKET_get_net_3_len = as_size PACKET_get_net_3"

definition PACKET_peek_net_4 :: "packet \<Rightarrow> u64 option" where
  "PACKET_peek_net_4 pkt =
     (if PACKET_remaining pkt < 4 then None
      else Some (push_bit 24 (ucast (pkt ! 0)) OR push_bit 16 (ucast (pkt ! 1)) OR
                 push_bit 8 (ucast (pkt ! 2)) OR ucast (pkt ! 3)))"

definition PACKET_peek_net_8 :: "packet \<Rightarrow> u64 option" where
  "PACKET_peek_net_8 pkt =
     (if PACKET_remaining pkt < 8 then None
      else Some (push_bit 56 (ucast (pkt ! 0)) OR push_bit 48 (ucast (pkt ! 1)) OR
                 push_bit 40 (ucast (pkt ! 2)) OR push_bit 32 (ucast (pkt ! 3)) OR
                 push_bit 24 (ucast (pkt ! 4)) OR push_bit 16 (ucast (pkt ! 5)) OR
                 push_bit 8 (ucast (pkt ! 6)) OR ucast (pkt ! 7)))"

definition PACKET_get_net_4 :: "u64 reader" where
  "PACKET_get_net_4 = get_of_peek PACKET_peek_net_4 4"

definition PACKET_get_net_4_len :: "size_t reader" where
  "PACKET_get_net_4_len = as_size PACKET_get_net_4"

definition PACKET_get_net_8 :: "u64 reader" where
  "PACKET_get_net_8 = get_of_peek PACKET_peek_net_8 8"

definition PACKET_peek_1 :: "packet \<Rightarrow> u32 option" where
  "PACKET_peek_1 pkt = (if PACKET_remaining pkt = 0 then None else Some (ucast (pkt ! 0)))"

definition PACKET_get_1 :: "u32 reader" where
  "PACKET_get_1 = get_of_peek PACKET_peek_1 1"

definition PACKET_get_1_len :: "size_t reader" where
  "PACKET_get_1_len = as_size PACKET_get_1"

definition PACKET_peek_4 :: "packet \<Rightarrow> u64 option" where
  "PACKET_peek_4 pkt =
     (if PACKET_remaining pkt < 4 then None
      else Some (ucast (pkt ! 0) OR push_bit 8 (ucast (pkt ! 1)) OR
                 push_bit 16 (ucast (pkt ! 2)) OR push_bit 24 (ucast (pkt ! 3))))"

definition PACKET_get_4 :: "u64 reader" where
  "PACKET_get_4 = get_of_peek PACKET_peek_4 4"

text \<open>A pointer to the next \<open>len\<close> bytes, and a copy of them, are those bytes.\<close>

definition PACKET_peek_bytes :: "packet \<Rightarrow> nat \<Rightarrow> bytes option" where
  "PACKET_peek_bytes pkt len = (if PACKET_remaining pkt < len then None else Some (take len pkt))"

definition PACKET_get_bytes :: "nat \<Rightarrow> bytes reader" where
  "PACKET_get_bytes len = get_of_peek (\<lambda>pkt. PACKET_peek_bytes pkt len) len"

definition PACKET_peek_copy_bytes :: "packet \<Rightarrow> nat \<Rightarrow> bytes option" where
  "PACKET_peek_copy_bytes pkt len = (if PACKET_remaining pkt < len then None else Some (take len pkt))"

definition PACKET_copy_bytes :: "nat \<Rightarrow> bytes reader" where
  "PACKET_copy_bytes len = get_of_peek (\<lambda>pkt. PACKET_peek_copy_bytes pkt len) len"

definition PACKET_copy_all :: "packet \<Rightarrow> nat \<Rightarrow> bytes option" where
  "PACKET_copy_all pkt dest_len = (if PACKET_remaining pkt > dest_len then None else Some pkt)"

text \<open>\<open>PACKET_memdup\<close> stores NULL for an empty packet.\<close>

definition PACKET_memdup :: "mem_ok \<Rightarrow> packet \<Rightarrow> bool \<times> bytes option \<times> nat" where
  "PACKET_memdup mem pkt =
     (if PACKET_remaining pkt = 0 then (True, None, 0)
      else if \<not> mem then (False, None, 0)
      else (True, Some pkt, PACKET_remaining pkt))"

definition PACKET_contains_zero_byte :: "packet \<Rightarrow> bool" where
  "PACKET_contains_zero_byte pkt \<longleftrightarrow> 0 \<in> set pkt"

definition PACKET_forward :: "nat \<Rightarrow> unit reader" where
  "PACKET_forward len pkt =
     (if PACKET_remaining pkt < len then (None, pkt) else (Some (), packet_forward pkt len))"

text \<open>Length-prefixed vectors: the length is read by \<open>get\<close> from a copy \<open>tmp\<close> of the packet.\<close>

definition get_length_prefixed :: "'w :: len word reader \<Rightarrow> packet reader" where
  "get_length_prefixed get pkt =
     (case get pkt of
        (None, tmp) \<Rightarrow> (None, pkt)
      | (Some len, tmp) \<Rightarrow>
        (case PACKET_get_bytes (unat len) tmp of
           (None, tmp) \<Rightarrow> (None, pkt)
         | (Some data, tmp) \<Rightarrow> (Some data, tmp)))"

definition as_length_prefixed :: "'w :: len word reader \<Rightarrow> packet reader" where
  "as_length_prefixed get pkt =
     (case get pkt of
        (None, tmp) \<Rightarrow> (None, pkt)
      | (Some len, tmp) \<Rightarrow>
        (case PACKET_get_bytes (unat len) tmp of
           (None, tmp) \<Rightarrow> (None, pkt)
         | (Some data, tmp) \<Rightarrow> if PACKET_remaining tmp \<noteq> 0 then (None, pkt) else (Some data, tmp)))"

definition PACKET_get_length_prefixed_1 :: "packet reader" where
  "PACKET_get_length_prefixed_1 = get_length_prefixed PACKET_get_1"

definition PACKET_as_length_prefixed_1 :: "packet reader" where
  "PACKET_as_length_prefixed_1 = as_length_prefixed PACKET_get_1"

definition PACKET_get_length_prefixed_2 :: "packet reader" where
  "PACKET_get_length_prefixed_2 = get_length_prefixed PACKET_get_net_2"

definition PACKET_as_length_prefixed_2 :: "packet reader" where
  "PACKET_as_length_prefixed_2 = as_length_prefixed PACKET_get_net_2"

definition PACKET_get_length_prefixed_3 :: "packet reader" where
  "PACKET_get_length_prefixed_3 = get_length_prefixed PACKET_get_net_3"

subsection \<open>QUIC variable-length integers\<close>

definition PACKET_get_quic_vlint :: "u64 reader" where
  "PACKET_get_quic_vlint pkt =
     (if PACKET_remaining pkt < 1 then (None, pkt)
      else
        (let enclen = unat (ossl_quic_vlint_decode_len (pkt ! 0)) in
         if PACKET_remaining pkt < enclen then (None, pkt)
         else (Some (ossl_quic_vlint_decode_unchecked pkt), packet_forward pkt enclen)))"

text \<open>The second result is \<open>*was_minimal\<close>.\<close>

definition PACKET_peek_quic_vlint_ex :: "packet \<Rightarrow> (u64 \<times> bool) option" where
  "PACKET_peek_quic_vlint_ex pkt =
     (if PACKET_remaining pkt < 1 then None
      else
        (let enclen = ossl_quic_vlint_decode_len (pkt ! 0) in
         if PACKET_remaining pkt < unat enclen then None
         else
           (let data = ossl_quic_vlint_decode_unchecked pkt
            in Some (data, enclen = ossl_quic_vlint_encode_len data))))"

definition PACKET_peek_quic_vlint :: "packet \<Rightarrow> u64 option" where
  "PACKET_peek_quic_vlint pkt = map_option fst (PACKET_peek_quic_vlint_ex pkt)"

definition PACKET_skip_quic_vlint :: "unit reader" where
  "PACKET_skip_quic_vlint pkt =
     (if PACKET_remaining pkt < 1 then (None, pkt)
      else
        (let enclen = unat (ossl_quic_vlint_decode_len (pkt ! 0)) in
         if PACKET_remaining pkt < enclen then (None, pkt)
         else (Some (), packet_forward pkt enclen)))"

definition PACKET_get_quic_length_prefixed :: "packet reader" where
  "PACKET_get_quic_length_prefixed pkt =
     (case PACKET_get_quic_vlint pkt of
        (None, tmp) \<Rightarrow> (None, pkt)
      | (Some len, tmp) \<Rightarrow>
        if len > SIZE_MAX then (None, pkt)
        else
          (case PACKET_get_bytes (unat len) tmp of
             (None, tmp) \<Rightarrow> (None, pkt)
           | (Some data, tmp) \<Rightarrow> (Some data, tmp)))"

section \<open>Readers\<close>

text \<open>
  The contract of a reading function: on success it has consumed a prefix of the packet, and it
  would have returned the same for any packet that starts with this prefix; on failure it leaves
  a suffix of the packet.
\<close>

locale packet_reader =
  fixes rd :: "'a reader"
  assumes consumes: "rd p = (Some x, q) \<Longrightarrow> \<exists>used. p = used @ q \<and> (\<forall>r. rd (used @ r) = (Some x, r))"
    and leaves: "rd p = (None, q) \<Longrightarrow> suffix q p"
begin

lemma reads_suffix: "suffix (snd (rd p)) p"
proof (cases "rd p")
  case (Pair o' q)
  then show ?thesis
    using consumes [of p] leaves [of p] by (cases o') (auto simp: suffix_def)
qed

lemma reads_within: "length (snd (rd p)) \<le> length p"
  using reads_suffix by (rule suffix_length_le)

lemma success_extends: "rd p = (Some x, q) \<Longrightarrow> rd (p @ r) = (Some x, q @ r)"
  using consumes [of p x q] by auto

end

text \<open>Reading one thing and then another, stopping at the first failure.\<close>

definition read_then :: "'a reader \<Rightarrow> ('a \<Rightarrow> 'b reader) \<Rightarrow> 'b reader" where
  "read_then rd f pkt =
     (case rd pkt of (None, pkt) \<Rightarrow> (None, pkt) | (Some x, pkt) \<Rightarrow> f x pkt)"

definition read_return :: "'a \<Rightarrow> 'a reader" where
  "read_return x pkt = (Some x, pkt)"

definition read_fail :: "'a reader" where
  "read_fail pkt = (None, pkt)"

lemma read_then_simps:
  "rd pkt = (None, pkt') \<Longrightarrow> read_then rd f pkt = (None, pkt')"
  "rd pkt = (Some x, pkt') \<Longrightarrow> read_then rd f pkt = f x pkt'"
  by (simp_all add: read_then_def)

named_theorems readers \<open>instances of the reader contract\<close>

lemma packet_reader_return [readers]: "packet_reader (read_return x)"
  by unfold_locales (auto simp: read_return_def)

lemma packet_reader_fail [readers]: "packet_reader read_fail"
  by unfold_locales (auto simp: read_fail_def)

lemma packet_reader_then [readers]:
  assumes rd: "packet_reader rd" and f: "\<And>x. packet_reader (f x)"
  shows "packet_reader (read_then rd f)"
proof
  fix p y q
  assume "read_then rd f p = (Some y, q)"
  then obtain x p1 where 1: "rd p = (Some x, p1)" and 2: "f x p1 = (Some y, q)"
    by (auto simp: read_then_def split: prod.splits option.splits)
  obtain u1 where u1: "p = u1 @ p1" "\<forall>r. rd (u1 @ r) = (Some x, r)"
    using packet_reader.consumes [OF rd 1] by blast
  obtain u2 where u2: "p1 = u2 @ q" "\<forall>r. f x (u2 @ r) = (Some y, r)"
    using packet_reader.consumes [OF f 2] by blast
  have "p = (u1 @ u2) @ q \<and> (\<forall>r. read_then rd f ((u1 @ u2) @ r) = (Some y, r))"
    using u1 u2 by (simp add: read_then_def)
  then show "\<exists>used. p = used @ q \<and> (\<forall>r. read_then rd f (used @ r) = (Some y, r))" by blast
next
  fix p q
  assume stop: "read_then rd f p = (None, q)"
  show "suffix q p"
  proof (cases "rd p")
    case (Pair o' p1)
    have "suffix p1 p" using packet_reader.reads_suffix [OF rd, of p] Pair by simp
    then show ?thesis
      using stop Pair packet_reader.leaves [OF f] by (cases o') (auto simp: read_then_simps intro: suffix_order.trans)
  qed
qed

lemma packet_reader_if [readers]:
  "packet_reader f \<Longrightarrow> packet_reader g \<Longrightarrow> packet_reader (if b then f else g)"
  by simp

lemma packet_reader_get:
  assumes short: "\<And>p. length p < len \<Longrightarrow> peek p = None"
    and first: "\<And>u r. length u = len \<Longrightarrow> peek (u @ r) = peek u"
  shows "packet_reader (get_of_peek peek len)"
proof
  fix p x q
  assume "get_of_peek peek len p = (Some x, q)"
  then have p: "peek p = Some x" "q = drop len p"
    by (auto simp: get_of_peek_def packet_forward_def split: option.splits)
  then have len: "len \<le> length p" using short [of p] by (simp add: not_less [symmetric]) blast
  have "peek (take len p @ r) = Some x" for r
    using first [of "take len p" r] first [of "take len p" "drop len p"] p len by simp
  then have "p = take len p @ q \<and> (\<forall>r. get_of_peek peek len (take len p @ r) = (Some x, r))"
    using len p by (simp add: get_of_peek_def packet_forward_def)
  then show "\<exists>used. p = used @ q \<and> (\<forall>r. get_of_peek peek len (used @ r) = (Some x, r))" by blast
qed (auto simp: get_of_peek_def split: option.splits)

lemma packet_reader_net_2 [readers]: "packet_reader PACKET_get_net_2"
  unfolding PACKET_get_net_2_def
  by (rule packet_reader_get) (simp_all add: PACKET_peek_net_2_def PACKET_remaining_def nth_append)

lemma packet_reader_net_3 [readers]: "packet_reader PACKET_get_net_3"
  unfolding PACKET_get_net_3_def
  by (rule packet_reader_get) (simp_all add: PACKET_peek_net_3_def PACKET_remaining_def nth_append)

lemma packet_reader_net_4 [readers]: "packet_reader PACKET_get_net_4"
  unfolding PACKET_get_net_4_def
  by (rule packet_reader_get) (simp_all add: PACKET_peek_net_4_def PACKET_remaining_def nth_append)

lemma packet_reader_net_8 [readers]: "packet_reader PACKET_get_net_8"
  unfolding PACKET_get_net_8_def
  by (rule packet_reader_get) (simp_all add: PACKET_peek_net_8_def PACKET_remaining_def nth_append)

lemma packet_reader_1 [readers]: "packet_reader PACKET_get_1"
  unfolding PACKET_get_1_def
  by (rule packet_reader_get) (auto simp: PACKET_peek_1_def PACKET_remaining_def nth_append)

lemma packet_reader_4 [readers]: "packet_reader PACKET_get_4"
  unfolding PACKET_get_4_def
  by (rule packet_reader_get) (simp_all add: PACKET_peek_4_def PACKET_remaining_def nth_append)

lemma packet_reader_bytes [readers]: "packet_reader (PACKET_get_bytes n)"
  unfolding PACKET_get_bytes_def
  by (rule packet_reader_get) (simp_all add: PACKET_peek_bytes_def PACKET_remaining_def)

lemma packet_reader_copy_bytes [readers]: "packet_reader (PACKET_copy_bytes n)"
  unfolding PACKET_copy_bytes_def
  by (rule packet_reader_get) (simp_all add: PACKET_peek_copy_bytes_def PACKET_remaining_def)

lemma packet_reader_sub_packet [readers]: "packet_reader (PACKET_get_sub_packet n)"
  unfolding PACKET_get_sub_packet_def
  by (rule packet_reader_get)
    (simp_all add: PACKET_peek_sub_packet_def PACKET_buf_init_def PACKET_remaining_def)

lemma packet_reader_forward [readers]: "packet_reader (PACKET_forward n)"
proof -
  have "PACKET_forward n = get_of_peek (\<lambda>p. if length p < n then None else Some ()) n"
    by (auto simp: PACKET_forward_def get_of_peek_def PACKET_remaining_def fun_eq_iff)
  moreover have "packet_reader \<dots>"
    by (rule packet_reader_get) simp_all
  ultimately show ?thesis by simp
qed

lemma decode_unchecked_prefix:
  assumes "length used = unat (ossl_quic_vlint_decode_len (used ! 0))" "used \<noteq> []"
  shows "ossl_quic_vlint_decode_unchecked (used @ r) = ossl_quic_vlint_decode_unchecked used"
  using assms decode_unchecked_shape [of "hd used" "tl used" r]
    decode_unchecked_shape [of "hd used" "tl used" "[]"]
  by (cases used) simp_all

lemma decode_len_pos: "0 < unat (ossl_quic_vlint_decode_len b)"
  by (rule first_bits_cases [of b]) (simp_all add: decode_len_first)

lemma packet_reader_vlint [readers]: "packet_reader PACKET_get_quic_vlint"
proof
  fix p x q
  assume g: "PACKET_get_quic_vlint p = (Some x, q)"
  define n where "n = unat (ossl_quic_vlint_decode_len (p ! 0))"
  define u where "u = take n p"
  have n: "0 < n" "n \<le> length p" and x: "x = ossl_quic_vlint_decode_unchecked p" and q: "q = drop n p"
    using g decode_len_pos [of "p ! 0"]
    by (auto simp: PACKET_get_quic_vlint_def PACKET_remaining_def packet_forward_def n_def Let_def
        split: if_splits)
  then have u: "length u = unat (ossl_quic_vlint_decode_len (u ! 0))" "u \<noteq> []" "u ! 0 = p ! 0"
    and p: "p = u @ q" "length u = n"
    by (auto simp: u_def n_def)
  have "x = ossl_quic_vlint_decode_unchecked u"
    using decode_unchecked_prefix [OF u(1,2), of q] p(1) x by simp
  then have "PACKET_get_quic_vlint (u @ r) = (Some x, r)" for r
    using u(1) decode_len_pos [of "u ! 0"] decode_unchecked_prefix [OF u(1,2), of r]
    by (simp add: PACKET_get_quic_vlint_def PACKET_remaining_def packet_forward_def nth_append)
  with p show "\<exists>used. p = used @ q \<and> (\<forall>r. PACKET_get_quic_vlint (used @ r) = (Some x, r))" by blast
qed (auto simp: PACKET_get_quic_vlint_def Let_def split: if_splits)

lemma packet_reader_restore:
  assumes "packet_reader rd" and "\<And>p. fst (rd' p) = fst (rd p)"
    and "\<And>p. snd (rd' p) = (if fst (rd p) = None then p else snd (rd p))"
  shows "packet_reader rd'"
proof
  fix p x q
  assume "rd' p = (Some x, q)"
  then have "rd p = (Some x, q)"
    using assms(2,3) [of p] by (metis fst_conv option.distinct(1) prod.collapse snd_conv)
  then obtain u where u: "p = u @ q" "\<forall>r. rd (u @ r) = (Some x, r)"
    using packet_reader.consumes [OF assms(1)] by blast
  have "rd' (u @ r) = (Some x, r)" for r
    using assms(2,3) [of "u @ r"] u(2) by (simp add: prod_eq_iff)
  with u show "\<exists>used. p = used @ q \<and> (\<forall>r. rd' (used @ r) = (Some x, r))" by blast
next
  fix p q
  assume "rd' p = (None, q)"
  then show "suffix q p"
    using assms(2,3) [of p] by simp
qed

lemma packet_reader_length_prefixed [readers]:
  assumes "packet_reader get"
  shows "packet_reader (get_length_prefixed get)"
  by (rule packet_reader_restore [where rd = "read_then get (\<lambda>len. PACKET_get_bytes (unat len))"])
    (auto simp: get_length_prefixed_def read_then_def split: prod.splits option.splits
      intro: packet_reader_then assms packet_reader_bytes)

lemma quic_length_prefixed_eq: "PACKET_get_quic_length_prefixed = get_length_prefixed PACKET_get_quic_vlint"
  by (auto simp: PACKET_get_quic_length_prefixed_def get_length_prefixed_def fun_eq_iff
      linorder_not_le [symmetric]
      split: prod.splits option.splits)

lemma packet_reader_quic_length_prefixed [readers]: "packet_reader PACKET_get_quic_length_prefixed"
  unfolding quic_length_prefixed_eq by (intro readers)

interpretation vlint_rd: packet_reader PACKET_get_quic_vlint by (rule packet_reader_vlint)


section \<open>Codecs\<close>

text \<open>
  A reader with the wire format it reads: \<open>wire a\<close> is the encoding of the value \<open>a\<close>, and reading it
  back returns \<open>a\<close> and leaves what follows.
\<close>

fun read_many :: "nat \<Rightarrow> 'a reader \<Rightarrow> 'a list reader" where
  "read_many 0 rd = read_return []"
| "read_many (Suc n) rd = read_then rd (\<lambda>x. read_then (read_many n rd) (\<lambda>xs. read_return (x # xs)))"

locale codec = packet_reader rd for rd :: "'a reader" +
  fixes valid :: "'a \<Rightarrow> bool" and wire :: "'a \<Rightarrow> bytes"
  assumes reads_wire: "valid a \<Longrightarrow> rd (wire a @ r) = (Some a, r)"
begin

lemma wire_unambiguous:
  assumes "valid a" "valid b" "wire a @ r = wire b @ s"
  shows "a = b \<and> r = s"
  using reads_wire [OF assms(1), of r] reads_wire [OF assms(2), of s] assms(3)
  by (metis option.inject prod.inject)

lemma reads_many: "list_all valid as \<Longrightarrow> read_many (length as) rd (concat (map wire as) @ r) = (Some as, r)"
  by (induction as) (simp_all add: read_return_def read_then_def reads_wire)

text \<open>A truncated encoding is refused: no proper prefix of an encoding reads as another valid value.\<close>

lemma no_valid_prefix:
  assumes "valid a" "wire a = u @ v" "v \<noteq> []"
  shows "\<not> (\<exists>b q. valid b \<and> u = wire b @ q)"
proof
  assume "\<exists>b q. valid b \<and> u = wire b @ q"
  then obtain b q where b: "valid b" "u = wire b @ q" by blast
  then have "wire a @ [] = wire b @ (q @ v)" using assms by simp
  then show False using wire_unambiguous [OF assms(1) b(1)] assms(3) by blast
qed

end

definition vlint_ok :: "u64 \<Rightarrow> bool" where
  "vlint_ok v \<longleftrightarrow> v \<le> OSSL_QUIC_VLINT_MAX"

lemma get_vlint_encode [simp]:
  assumes "vlint_ok v"
  shows "PACKET_get_quic_vlint (ossl_quic_vlint_encode v @ r) = (Some v, r)"
proof -
  have v: "v \<le> OSSL_QUIC_VLINT_MAX" using assms by (simp add: vlint_ok_def)
  have "0 < unat (ossl_quic_vlint_encode_len v)"
    using vlint_encode_len_pos [OF v] by (simp add: unat_gt_0)
  then show ?thesis
    using decode_vlint_encode [OF v] length_vlint_encode [OF v]
    by (simp add: PACKET_get_quic_vlint_def PACKET_remaining_def packet_forward_def nth_append
        Suc_le_eq)
qed

interpretation vlint_codec: codec PACKET_get_quic_vlint vlint_ok ossl_quic_vlint_encode
  by unfold_locales (rule get_vlint_encode)

lemma get_bytes_append [simp]: "length bs = n \<Longrightarrow> PACKET_get_bytes n (bs @ r) = (Some bs, r)"
  by (simp add: PACKET_get_bytes_def get_of_peek_def PACKET_peek_bytes_def PACKET_remaining_def packet_forward_def)

lemma copy_bytes_append [simp]: "length bs = n \<Longrightarrow> PACKET_copy_bytes n (bs @ r) = (Some bs, r)"
  by (simp add: PACKET_copy_bytes_def get_of_peek_def PACKET_peek_copy_bytes_def PACKET_remaining_def
      packet_forward_def)

lemma quic_length_prefixed_append [simp]:
  assumes "length bs < 2 ^ 62"
  shows "PACKET_get_quic_length_prefixed (ossl_quic_vlint_encode (of_nat (length bs)) @ bs @ r) = (Some bs, r)"
proof -
  have n: "unat (of_nat (length bs) :: u64) = length bs" using assms by (simp add: unat_of_nat_u64)
  then have "vlint_ok (of_nat (length bs))"
    using assms by (simp add: vlint_ok_def OSSL_QUIC_VLINT_MAX_def u64_le_nat)
  then show ?thesis
    by (simp add: quic_length_prefixed_eq get_length_prefixed_def n del: unat_of_nat)
qed

text \<open>Fixed-width big-endian numbers.\<close>

lemma get_net_8_be: "PACKET_get_net_8 (be_bytes 8 v @ r) = (Some v, r)"
proof -
  obtain b0 b1 b2 b3 b4 b5 b6 b7 where bs: "be_bytes 8 v = [b0, b1, b2, b3, b4, b5, b6, b7]"
    by (simp add: eval_nat_numeral)
  have "PACKET_get_net_8 (be_bytes 8 v @ r) = (Some (be_value (be_bytes 8 v)), r)"
    unfolding bs by (simp add: PACKET_get_net_8_def get_of_peek_def PACKET_peek_net_8_def
        PACKET_remaining_def packet_forward_def be_value_upper)
  then show ?thesis by (simp add: be_value_be_bytes take_bit_small unat_u64_bound [simplified])
qed

lemma get_net_4_be: "unat v < 2 ^ 32 \<Longrightarrow> PACKET_get_net_4 (be_bytes 4 v @ r) = (Some v, r)"
proof -
  assume v: "unat v < 2 ^ 32"
  obtain b0 b1 b2 b3 where bs: "be_bytes 4 v = [b0, b1, b2, b3]"
    by (simp add: eval_nat_numeral)
  have "PACKET_get_net_4 (be_bytes 4 v @ r) = (Some (be_value (be_bytes 4 v)), r)"
    unfolding bs by (simp add: PACKET_get_net_4_def get_of_peek_def PACKET_peek_net_4_def
        PACKET_remaining_def packet_forward_def be_value_upper)
  then show ?thesis using v by (simp add: be_value_be_bytes take_bit_small)
qed

lemma get_1_byte [simp]: "PACKET_get_1 (b # r) = (Some (ucast b), r)"
  by (simp add: PACKET_get_1_def get_of_peek_def PACKET_peek_1_def PACKET_remaining_def packet_forward_def)

section \<open>Properties\<close>

text \<open>What reading a length-prefixed vector gives: on failure the packet is as before; on success it
  was a header, the contents and the packet that is left, and the header reads as the length of
  the contents.\<close>

definition prefixed_result :: "'w :: len word reader \<Rightarrow> packet \<Rightarrow> packet option \<times> packet \<Rightarrow> bool" where
  "prefixed_result get p res \<longleftrightarrow>
     (case res of
        (None, q) \<Rightarrow> q = p
      | (Some data, q) \<Rightarrow> \<exists>hdr len. p = hdr @ data @ q \<and> get hdr = (Some len, []) \<and> unat len = length data)"

lemma get_bytes_success: "PACKET_get_bytes n p = (Some d, q) \<Longrightarrow> p = d @ q \<and> length d = n"
  by (auto simp: PACKET_get_bytes_def get_of_peek_def PACKET_peek_bytes_def PACKET_remaining_def
      packet_forward_def split: if_splits)

lemma length_prefixed_result:
  assumes "packet_reader get"
  shows "prefixed_result get p (get_length_prefixed get p)"
proof (cases "get p")
  case (Pair o' tmp)
  show ?thesis
  proof (cases o')
    case None
    then show ?thesis using Pair by (simp add: prefixed_result_def get_length_prefixed_def)
  next
    case (Some len)
    then obtain hdr where hdr: "p = hdr @ tmp" "get hdr = (Some len, [])"
      using packet_reader.consumes [OF assms, of p len tmp] Pair by (metis append_Nil2)
    show ?thesis
    proof (cases "PACKET_get_bytes (unat len) tmp")
      case (Pair o'' q)
      then show ?thesis
        using \<open>get p = _\<close> Some hdr get_bytes_success [of "unat len" tmp]
        by (cases o'') (auto simp: prefixed_result_def get_length_prefixed_def)
    qed
  qed
qed

text \<open>C25. Reading a vector with a one-, two- or three-byte or a variable-length prefix never reads
  past the packet: when it fails the packet is unchanged, and when it succeeds the packet was
  the prefix, exactly as many bytes as the prefix says, and the rest.\<close>

theorem length_prefixed_reads:
  "prefixed_result PACKET_get_1 p (PACKET_get_length_prefixed_1 p) \<and>
   prefixed_result PACKET_get_net_2 p (PACKET_get_length_prefixed_2 p) \<and>
   prefixed_result PACKET_get_net_3 p (PACKET_get_length_prefixed_3 p) \<and>
   prefixed_result PACKET_get_quic_vlint p (PACKET_get_quic_length_prefixed p)"
  unfolding PACKET_get_length_prefixed_1_def PACKET_get_length_prefixed_2_def
    PACKET_get_length_prefixed_3_def quic_length_prefixed_eq
  by (intro conjI length_prefixed_result readers)

end
