(* ===== verification/OsslTime.thy ===== *)
theory OsslTime
  imports Prelude
begin

text \<open>
  Overflow-checked unsigned arithmetic (\<open>include/internal/safe_math.h\<close>, the functions that
  \<open>OSSL_SAFE_MATH_UNSIGNED\<close> generates for a 64-bit type) and the time arithmetic built on it
  (\<open>include/internal/time.h\<close>). A checked function returns its result and whether it set \<open>*err\<close>;
  where the code passes one \<open>err\<close> through several calls, the flags are combined by disjunction.

  The theory shows that the time operations compute on natural numbers and saturate, that
  the fused multiply-divide is exact whenever it reports no error, and what the conversion to
  \<open>struct timeval\<close> keeps.
\<close>

section \<open>Checked arithmetic\<close>

definition safe_add_u64 :: "u64 \<Rightarrow> u64 \<Rightarrow> u64 \<times> bool" where
  "safe_add_u64 a b = (a + b, b > UINT64_MAX - a)"

definition safe_sub_u64 :: "u64 \<Rightarrow> u64 \<Rightarrow> u64 \<times> bool" where
  "safe_sub_u64 a b = (a - b, b > a)"

definition safe_mul_u64 :: "u64 \<Rightarrow> u64 \<Rightarrow> u64 \<times> bool" where
  "safe_mul_u64 a b = (a * b, b \<noteq> 0 \<and> a > UINT64_MAX div b)"

definition safe_div_u64 :: "u64 \<Rightarrow> u64 \<Rightarrow> u64 \<times> bool" where
  "safe_div_u64 a b = (if b \<noteq> 0 then (a div b, False) else (UINT64_MAX, True))"

definition safe_muldiv_u64 :: "u64 \<Rightarrow> u64 \<Rightarrow> u64 \<Rightarrow> u64 \<times> bool" where
  "safe_muldiv_u64 a b c =
     (if c = 0 then (if a = 0 \<or> b = 0 then 0 else UINT64_MAX, True)
      else
        (let (x, e2) = safe_mul_u64 a b in
         if \<not> e2 then (x div c, False)
         else
           (let (a, b) = (if b > a then (b, a) else (a, b));
                (x, err1) = safe_mul_u64 (a mod c) b;
                (y, err2) = safe_mul_u64 (a div c) b;
                (r, err3) = safe_add_u64 y (x div c)
            in (r, err1 \<or> err2 \<or> err3))))"

section \<open>Times\<close>

text \<open>\<open>OSSL_TIME\<close> is a structure with the one field \<open>t\<close>, the number of ticks.\<close>

type_synonym ossl_time = u64

definition OSSL_TIME_SECOND :: u64 where "OSSL_TIME_SECOND = 1000000000"
definition OSSL_TIME_MS :: u64 where "OSSL_TIME_MS = OSSL_TIME_SECOND div 1000"
definition OSSL_TIME_US :: u64 where "OSSL_TIME_US = OSSL_TIME_MS div 1000"
definition OSSL_TIME_NS :: u64 where "OSSL_TIME_NS = OSSL_TIME_US div 1000"

definition ossl_ticks2time :: "u64 \<Rightarrow> ossl_time" where
  "ossl_ticks2time ticks = ticks"

definition ossl_time2ticks :: "ossl_time \<Rightarrow> u64" where
  "ossl_time2ticks t = t"

definition ossl_seconds2time :: "u64 \<Rightarrow> ossl_time" where
  "ossl_seconds2time s = ossl_ticks2time (s * OSSL_TIME_SECOND)"

definition ossl_time2seconds :: "ossl_time \<Rightarrow> u64" where
  "ossl_time2seconds t = ossl_time2ticks t div OSSL_TIME_SECOND"

definition ossl_ms2time :: "u64 \<Rightarrow> ossl_time" where
  "ossl_ms2time ms = ossl_ticks2time (ms * OSSL_TIME_MS)"

definition ossl_time2ms :: "ossl_time \<Rightarrow> u64" where
  "ossl_time2ms t = ossl_time2ticks t div OSSL_TIME_MS"

definition ossl_us2time :: "u64 \<Rightarrow> ossl_time" where
  "ossl_us2time us = ossl_ticks2time (us * OSSL_TIME_US)"

definition ossl_time2us :: "ossl_time \<Rightarrow> u64" where
  "ossl_time2us t = ossl_time2ticks t div OSSL_TIME_US"

definition ossl_time_zero :: ossl_time where
  "ossl_time_zero = ossl_ticks2time 0"

definition ossl_time_infinite :: ossl_time where
  "ossl_time_infinite = ossl_ticks2time (NOT 0)"

definition ossl_time_compare :: "ossl_time \<Rightarrow> ossl_time \<Rightarrow> int" where
  "ossl_time_compare a b = (if a > b then 1 else if a < b then - 1 else 0)"

definition ossl_time_is_zero :: "ossl_time \<Rightarrow> bool" where
  "ossl_time_is_zero t \<longleftrightarrow> ossl_time_compare t ossl_time_zero = 0"

definition ossl_time_is_infinite :: "ossl_time \<Rightarrow> bool" where
  "ossl_time_is_infinite t \<longleftrightarrow> ossl_time_compare t ossl_time_infinite = 0"

definition ossl_time_add :: "ossl_time \<Rightarrow> ossl_time \<Rightarrow> ossl_time" where
  "ossl_time_add a b = (let (r, err) = safe_add_u64 a b in if err then ossl_time_infinite else r)"

definition ossl_time_subtract :: "ossl_time \<Rightarrow> ossl_time \<Rightarrow> ossl_time" where
  "ossl_time_subtract a b = (let (r, err) = safe_sub_u64 a b in if err then ossl_time_zero else r)"

definition ossl_time_abs_difference :: "ossl_time \<Rightarrow> ossl_time \<Rightarrow> ossl_time" where
  "ossl_time_abs_difference a b = (if a > b then ossl_time_subtract a b else ossl_time_subtract b a)"

definition ossl_time_multiply :: "ossl_time \<Rightarrow> u64 \<Rightarrow> ossl_time" where
  "ossl_time_multiply a b = (let (r, err) = safe_mul_u64 a b in if err then ossl_time_infinite else r)"

definition ossl_time_divide :: "ossl_time \<Rightarrow> u64 \<Rightarrow> ossl_time" where
  "ossl_time_divide a b = (let (r, err) = safe_div_u64 a b in if err then ossl_time_zero else r)"

definition ossl_time_muldiv :: "ossl_time \<Rightarrow> u64 \<Rightarrow> u64 \<Rightarrow> ossl_time" where
  "ossl_time_muldiv a b c = (let (r, err) = safe_muldiv_u64 a b c in if err then ossl_time_zero else r)"

definition ossl_time_max :: "ossl_time \<Rightarrow> ossl_time \<Rightarrow> ossl_time" where
  "ossl_time_max a b = (if a > b then a else b)"

definition ossl_time_min :: "ossl_time \<Rightarrow> ossl_time \<Rightarrow> ossl_time" where
  "ossl_time_min a b = (if a < b then a else b)"

text \<open>\<open>struct timeval\<close>; both fields are signed 64-bit integers.\<close>

record timeval =
  tv_sec :: int
  tv_usec :: int

definition ossl_time_to_timeval :: "ossl_time \<Rightarrow> timeval" where
  "ossl_time_to_timeval t =
     (let (r, err) = safe_add_u64 t (OSSL_TIME_US - 1);
          t = (if err then ossl_time_infinite else r)
      in \<lparr>tv_sec = uint (t div OSSL_TIME_SECOND),
          tv_usec = uint ((t mod OSSL_TIME_SECOND) div OSSL_TIME_US)\<rparr>)"

definition ossl_time_from_timeval :: "timeval \<Rightarrow> ossl_time" where
  "ossl_time_from_timeval tv =
     (if tv_sec tv < 0 then ossl_time_zero
      else word_of_int (tv_sec tv) * OSSL_TIME_SECOND + word_of_int (tv_usec tv) * OSSL_TIME_US)"

definition ossl_time_to_time_t :: "ossl_time \<Rightarrow> int" where
  "ossl_time_to_time_t t = uint (t div OSSL_TIME_SECOND)"

definition ossl_time_from_time_t :: "int \<Rightarrow> ossl_time" where
  "ossl_time_from_time_t t = word_of_int t * OSSL_TIME_SECOND"


section \<open>Checked arithmetic on natural numbers\<close>

lemma not_zero_max: "NOT (0 :: u64) = UINT64_MAX"
  by simp

lemma safe_add_err: "snd (safe_add_u64 a b) \<longleftrightarrow> unat a + unat b \<ge> 2 ^ 64"
proof -
  have "unat (UINT64_MAX - a) = 2 ^ 64 - 1 - unat a"
    by (subst unat_sub_u64) simp_all
  then show ?thesis using unat_u64_bound [of a] unat_u64_bound [of b]
    by (auto simp: safe_add_u64_def u64_less_nat)
qed

lemma safe_add_ok: "\<not> snd (safe_add_u64 a b) \<Longrightarrow> unat (fst (safe_add_u64 a b)) = unat a + unat b"
  unfolding safe_add_err by (simp add: safe_add_u64_def unat_add_u64)

lemma safe_mul_err: "snd (safe_mul_u64 a b) \<longleftrightarrow> unat a * unat b \<ge> 2 ^ 64"
proof (cases "b = 0")
  case False
  then have "0 < unat b" by (simp add: unat_gt_0)
  then have "unat a * unat b < 2 ^ 64 \<longleftrightarrow> unat a \<le> (2 ^ 64 - 1) div unat b"
    by (simp add: less_eq_div_iff_mult_less_eq) (simp add: less_Suc_eq_le [symmetric])
  with False show ?thesis
    by (auto simp: safe_mul_u64_def u64_less_nat unat_div not_le)
qed (simp add: safe_mul_u64_def)

lemma safe_mul_ok: "\<not> snd (safe_mul_u64 a b) \<Longrightarrow> unat (fst (safe_mul_u64 a b)) = unat a * unat b"
  unfolding safe_mul_err by (simp add: safe_mul_u64_def unat_mult_u64)

lemma safe_sub_err: "snd (safe_sub_u64 a b) \<longleftrightarrow> unat a < unat b"
  by (simp add: safe_sub_u64_def u64_less_nat)

lemma safe_sub_ok: "\<not> snd (safe_sub_u64 a b) \<Longrightarrow> unat (fst (safe_sub_u64 a b)) = unat a - unat b"
  unfolding safe_sub_err by (simp add: safe_sub_u64_def unat_sub_u64 u64_le_nat)

text \<open>Splitting \<open>a\<close> by the divisor, the way the overflow branch of the multiply-divide does.\<close>

lemma mult_div_split: "(a mod c) * b div c + (a div c) * b = a * b div (c :: nat)"
proof (cases "c = 0")
  case False
  have "a * b = (a mod c) * b + c * ((a div c) * b)"
    by (metis add.commute add_mult_distrib div_mult_mod_eq mult.assoc mult.commute)
  then show ?thesis using False by simp
qed simp

lemma safe_muldiv_split:
  assumes c: "c \<noteq> 0"
    and ok: "\<not> snd (safe_mul_u64 (a mod c) b)" "\<not> snd (safe_mul_u64 (a div c) b)"
      "\<not> snd (safe_add_u64 (fst (safe_mul_u64 (a div c) b)) (fst (safe_mul_u64 (a mod c) b) div c))"
  shows "unat (fst (safe_add_u64 (fst (safe_mul_u64 (a div c) b)) (fst (safe_mul_u64 (a mod c) b) div c)))
         = unat a * unat b div unat c"
  using safe_add_ok [OF ok(3)] safe_mul_ok [OF ok(1)] safe_mul_ok [OF ok(2)]
    mult_div_split [of "unat a" "unat c" "unat b"]
  by (simp add: unat_div unat_mod)

lemma safe_muldiv_cases:
  "safe_muldiv_u64 a b c =
     (if c = 0 then (if a = 0 \<or> b = 0 then 0 else UINT64_MAX, True)
      else if \<not> snd (safe_mul_u64 a b) then (a * b div c, False)
      else
        (let hi = max a b; lo = min a b;
             x = safe_mul_u64 (hi mod c) lo;
             y = safe_mul_u64 (hi div c) lo;
             r = safe_add_u64 (fst y) (fst x div c)
         in (fst r, snd x \<or> snd y \<or> snd r)))"
  by (auto simp: safe_muldiv_u64_def safe_mul_u64_def safe_add_u64_def Let_def max_def min_def
        split: if_splits)

lemma unat_max_times_min: "unat (max a b) * unat (min a b) = unat a * unat (b :: u64)"
  by (auto simp: max_def min_def)

lemma ossl_time_infinite_max: "ossl_time_infinite = UINT64_MAX"
  by (simp add: ossl_time_infinite_def ossl_ticks2time_def)

lemma ossl_time_zero_0 [simp]: "ossl_time_zero = 0"
  by (simp add: ossl_time_zero_def ossl_ticks2time_def)

lemma ossl_time_is_zero_iff [simp]: "ossl_time_is_zero t \<longleftrightarrow> t = 0"
  by (auto simp: ossl_time_is_zero_def ossl_time_compare_def word_gt_0)

lemma ossl_time_add_nat: "unat (ossl_time_add a b) = min (2 ^ 64 - 1) (unat a + unat b)"
  using safe_add_ok [of a b] safe_add_err [of a b]
  by (simp add: ossl_time_add_def ossl_time_infinite_max split_beta min_def)

lemma ossl_time_subtract_nat: "unat (ossl_time_subtract a b) = unat a - unat b"
  using safe_sub_ok [of a b] safe_sub_err [of a b]
  by (simp add: ossl_time_subtract_def split_beta)

lemma ossl_time_multiply_nat: "unat (ossl_time_multiply a b) = min (2 ^ 64 - 1) (unat a * unat b)"
  using safe_mul_ok [of a b] safe_mul_err [of a b]
  by (simp add: ossl_time_multiply_def ossl_time_infinite_max split_beta min_def)

lemma ossl_time_divide_nat: "unat (ossl_time_divide a b) = unat a div unat b"
  by (simp add: ossl_time_divide_def safe_div_u64_def unat_div)

lemma ossl_time_abs_difference_nat:
  "unat (ossl_time_abs_difference a b) = (unat a - unat b) + (unat b - unat a)"
  by (auto simp: ossl_time_abs_difference_def ossl_time_subtract_nat u64_less_nat)

lemmas ossl_time_nat = ossl_time_add_nat ossl_time_subtract_nat ossl_time_multiply_nat
  ossl_time_divide_nat

lemma safe_muldiv_no_error:
  assumes ok: "\<not> snd (safe_muldiv_u64 a b c)"
  shows "unat (fst (safe_muldiv_u64 a b c)) = unat a * unat b div unat c"
proof -
  from ok have c: "c \<noteq> 0" by (auto simp: safe_muldiv_cases)
  show ?thesis
  proof (cases "snd (safe_mul_u64 a b)")
    case False
    then show ?thesis using c safe_mul_ok [OF False]
      by (simp add: safe_muldiv_cases unat_div safe_mul_u64_def)
  next
    case True
    then show ?thesis using c ok
      safe_muldiv_split [of c "max a b" "min a b"] unat_max_times_min [of a b]
      by (simp add: safe_muldiv_cases Let_def)
  qed
qed

lemma safe_muldiv_small:
  "c \<noteq> 0 \<Longrightarrow> unat a * unat b < 2 ^ 64 \<Longrightarrow> \<not> snd (safe_muldiv_u64 a b c)"
  using safe_mul_err [of a b] by (simp add: safe_muldiv_cases)

lemma safe_muldiv_zero: "snd (safe_muldiv_u64 a b 0)"
  by (simp add: safe_muldiv_cases)

text \<open>The error flag also covers the case where the quotient fits but the split does not: the
  partial product of the remainder can overflow.\<close>

lemma safe_muldiv_too_large:
  assumes c: "c \<noteq> 0" and big: "unat a * unat b div unat c \<ge> 2 ^ 64"
  shows "snd (safe_muldiv_u64 a b c)"
  using safe_muldiv_no_error [of a b c] big unat_u64_bound [of "fst (safe_muldiv_u64 a b c)"]
  by fastforce

subsection \<open>Conversion to and from \<open>struct timeval\<close>\<close>

lemma ossl_time_units: "unat OSSL_TIME_SECOND = 1000000000" "unat OSSL_TIME_US = 1000"
  "OSSL_TIME_SECOND = 1000000000" "OSSL_TIME_US = 1000"
  by (simp_all add: OSSL_TIME_SECOND_def OSSL_TIME_US_def OSSL_TIME_MS_def)

text \<open>Rounding up to the next microsecond, saturated.\<close>

definition timeval_ticks :: "ossl_time \<Rightarrow> nat" where
  "timeval_ticks t = min (2 ^ 64 - 1) (unat t + 999) div 1000 * 1000"

lemma seconds_and_micros: "n div 1000000000 * 1000000000 + n mod 1000000000 div 1000 * 1000
    = n div 1000 * (1000 :: nat)"
proof -
  have "n div 1000000000 = n div 1000 div 1000000"
    using div_mult2_eq [of n 1000 1000000] by simp
  moreover have "n mod 1000000000 = 1000 * (n div 1000 mod 1000000) + n mod 1000"
    using mod_mult2_eq [of n 1000 1000000] by simp
  moreover have "(1000 * (n div 1000 mod 1000000) + n mod 1000) div 1000 = n div 1000 mod 1000000"
    by simp
  moreover have "n div 1000 div 1000000 * 1000000000 + n div 1000 mod 1000000 * 1000 = n div 1000 * 1000"
    using arg_cong [OF div_mult_mod_eq [of "n div 1000" 1000000], of "\<lambda>k. k * 1000"]
    by (simp only: add_mult_distrib mult.assoc)
  ultimately show ?thesis by (simp only:)
qed

lemma ossl_time_to_timeval_nat:
  "ossl_time_to_timeval t =
     (let n = min (2 ^ 64 - 1) (unat t + 999)
      in \<lparr>tv_sec = int (n div 1000000000), tv_usec = int (n mod 1000000000 div 1000)\<rparr>)"
proof -
  have "ossl_time_to_timeval t =
      \<lparr>tv_sec = uint (ossl_time_add t 999 div 1000000000),
       tv_usec = uint (ossl_time_add t 999 mod 1000000000 div 1000)\<rparr>"
    by (simp add: ossl_time_to_timeval_def ossl_time_add_def ossl_time_units split_beta Let_def)
  moreover have "uint (ossl_time_add t 999 div 1000000000)
      = int (min (2 ^ 64 - 1) (unat t + 999) div 1000000000)"
    using ossl_time_add_nat [of t 999]
    by (simp only: uint_nat unat_div) simp
  moreover have "uint (ossl_time_add t 999 mod 1000000000 div 1000)
      = int (min (2 ^ 64 - 1) (unat t + 999) mod 1000000000 div 1000)"
    using ossl_time_add_nat [of t 999]
    by (simp only: uint_nat unat_div unat_mod) simp
  ultimately show ?thesis by (simp add: Let_def)
qed

lemma ossl_time_timeval_roundtrip:
  "unat (ossl_time_from_timeval (ossl_time_to_timeval t)) = timeval_ticks t"
proof -
  let ?n = "min (2 ^ 64 - 1) (unat t + 999)"
  have "ossl_time_from_timeval (ossl_time_to_timeval t)
      = of_nat (?n div 1000000000 * 1000000000 + ?n mod 1000000000 div 1000 * 1000)"
    by (simp add: ossl_time_to_timeval_nat ossl_time_from_timeval_def ossl_time_units Let_def)
  moreover have "?n div 1000 * 1000 < 2 ^ 64"
    by (rule le_less_trans [OF div_times_less_eq_dividend]) simp
  ultimately show ?thesis
    unfolding seconds_and_micros timeval_ticks_def by (simp only: unat_of_nat_u64)
qed

lemma round_up_1000: "n \<le> (n + 999) div 1000 * 1000" "(n + 999) div 1000 * 1000 < n + (1000 :: nat)"
  using div_mult_mod_eq [of "n + 999" 1000] mod_less_divisor [of 1000 "n + 999"] by linarith+

lemma timeval_ticks_bounds:
  "unat t \<le> 2 ^ 64 - 1000 \<Longrightarrow> unat t \<le> timeval_ticks t \<and> timeval_ticks t < unat t + 1000"
  using round_up_1000 [of "unat t"] unfolding timeval_ticks_def by (simp add: min_def)

section \<open>Properties\<close>

text \<open>C23. The time operations are arithmetic on natural numbers, saturated to the range of a
  64-bit tick count: addition and multiplication stop at the infinite time, subtraction stops at
  zero, and division by zero gives zero.\<close>

theorem ossl_time_saturates:
  "unat (ossl_time_add a b) = min (2 ^ 64 - 1) (unat a + unat b) \<and>
   unat (ossl_time_subtract a b) = unat a - unat b \<and>
   unat (ossl_time_abs_difference a b) = (unat a - unat b) + (unat b - unat a) \<and>
   unat (ossl_time_multiply a k) = min (2 ^ 64 - 1) (unat a * unat k) \<and>
   unat (ossl_time_divide a k) = unat a div unat k"
  by (simp add: ossl_time_nat ossl_time_abs_difference_nat)

text \<open>C22. The checked multiply-divide is exact whenever it reports no error, even where the
  product does not fit 64 bits. It reports no error when the divisor is not zero and the product
  fits, and it reports an error when the divisor is zero or the quotient does not fit.\<close>

theorem safe_muldiv_exact:
  "(\<not> snd (safe_muldiv_u64 a b c) \<longrightarrow>
      unat (fst (safe_muldiv_u64 a b c)) = unat a * unat b div unat c) \<and>
   (c \<noteq> 0 \<and> unat a * unat b < 2 ^ 64 \<longrightarrow> \<not> snd (safe_muldiv_u64 a b c)) \<and>
   (c = 0 \<or> unat a * unat b div unat c \<ge> 2 ^ 64 \<longrightarrow> snd (safe_muldiv_u64 a b c))"
  using safe_muldiv_no_error [of a b c] safe_muldiv_small [of c a b] safe_muldiv_zero [of a b]
    safe_muldiv_too_large [of c a b]
  by (cases "c = 0") blast+

theorem safe_muldiv_exact_witness:
  "unat (fst (safe_muldiv_u64 (2 ^ 60) 96 (2 ^ 8))) = unat (2 ^ 60 :: u64) * 96 div 2 ^ 8"
  using conjunct1 [OF safe_muldiv_exact [of "2 ^ 60" 96 "2 ^ 8"]]
  by (simp add: safe_muldiv_u64_def safe_mul_u64_def safe_add_u64_def u64_less_nat)

text \<open>C24. A time converted to a \<open>struct timeval\<close> and back is the time rounded up to a whole
  microsecond: it is never below the original, it is less than a microsecond above it, and a
  non-zero time does not become zero, except within the last microsecond before the infinite
  time, where the rounding saturates.\<close>

theorem ossl_time_timeval_rounds_up:
  assumes "unat t \<le> 2 ^ 64 - 1000"
  shows "ossl_time_from_timeval (ossl_time_to_timeval t) \<ge> t \<and>
    unat (ossl_time_from_timeval (ossl_time_to_timeval t)) < unat t + 1000 \<and>
    (ossl_time_is_zero (ossl_time_from_timeval (ossl_time_to_timeval t)) \<longleftrightarrow> ossl_time_is_zero t)"
proof -
  have "timeval_ticks t = 0 \<longleftrightarrow> unat t = 0"
    using timeval_ticks_bounds [OF assms] by (auto simp: timeval_ticks_def)
  then show ?thesis
    using timeval_ticks_bounds [OF assms] ossl_time_timeval_roundtrip [of t]
    by (simp add: u64_le_nat) (metis unat_eq_zero)
qed

theorem ossl_time_timeval_rounds_up_witness:
  "ossl_time_from_timeval (ossl_time_to_timeval 1500001) \<ge> 1500001"
  using ossl_time_timeval_rounds_up [of 1500001] by simp

end
