(* ===== verification/WireFrames.thy ===== *)
theory WireFrames
  imports WPacket Packet OsslTime
begin

unbundle bit_operations_syntax

text \<open>
  Model of \<open>ssl/quic/quic_wire.c\<close> and of the frame structures of \<open>include/internal/quic_wire.h\<close>: the
  encoders and decoders of QUIC frames and of transport parameters. Encoders are operations on a
  packet writer, decoders are readers of a packet; what a decoder has stored in its output before
  it fails is not part of the model. A pointer with a length is a list of bytes, and \<open>None\<close> where
  the pointer may be NULL.
\<close>

section \<open>Frame types\<close>

definition OSSL_QUIC_FRAME_TYPE_PADDING :: u64 where "OSSL_QUIC_FRAME_TYPE_PADDING = 0x00"
definition OSSL_QUIC_FRAME_TYPE_PING :: u64 where "OSSL_QUIC_FRAME_TYPE_PING = 0x01"
definition OSSL_QUIC_FRAME_TYPE_ACK_WITHOUT_ECN :: u64 where "OSSL_QUIC_FRAME_TYPE_ACK_WITHOUT_ECN = 0x02"
definition OSSL_QUIC_FRAME_TYPE_ACK_WITH_ECN :: u64 where "OSSL_QUIC_FRAME_TYPE_ACK_WITH_ECN = 0x03"
definition OSSL_QUIC_FRAME_TYPE_RESET_STREAM :: u64 where "OSSL_QUIC_FRAME_TYPE_RESET_STREAM = 0x04"
definition OSSL_QUIC_FRAME_TYPE_STOP_SENDING :: u64 where "OSSL_QUIC_FRAME_TYPE_STOP_SENDING = 0x05"
definition OSSL_QUIC_FRAME_TYPE_CRYPTO :: u64 where "OSSL_QUIC_FRAME_TYPE_CRYPTO = 0x06"
definition OSSL_QUIC_FRAME_TYPE_NEW_TOKEN :: u64 where "OSSL_QUIC_FRAME_TYPE_NEW_TOKEN = 0x07"
definition OSSL_QUIC_FRAME_TYPE_MAX_DATA :: u64 where "OSSL_QUIC_FRAME_TYPE_MAX_DATA = 0x10"
definition OSSL_QUIC_FRAME_TYPE_MAX_STREAM_DATA :: u64 where "OSSL_QUIC_FRAME_TYPE_MAX_STREAM_DATA = 0x11"
definition OSSL_QUIC_FRAME_TYPE_MAX_STREAMS_BIDI :: u64 where "OSSL_QUIC_FRAME_TYPE_MAX_STREAMS_BIDI = 0x12"
definition OSSL_QUIC_FRAME_TYPE_MAX_STREAMS_UNI :: u64 where "OSSL_QUIC_FRAME_TYPE_MAX_STREAMS_UNI = 0x13"
definition OSSL_QUIC_FRAME_TYPE_DATA_BLOCKED :: u64 where "OSSL_QUIC_FRAME_TYPE_DATA_BLOCKED = 0x14"
definition OSSL_QUIC_FRAME_TYPE_STREAM_DATA_BLOCKED :: u64 where "OSSL_QUIC_FRAME_TYPE_STREAM_DATA_BLOCKED = 0x15"
definition OSSL_QUIC_FRAME_TYPE_STREAMS_BLOCKED_BIDI :: u64 where "OSSL_QUIC_FRAME_TYPE_STREAMS_BLOCKED_BIDI = 0x16"
definition OSSL_QUIC_FRAME_TYPE_STREAMS_BLOCKED_UNI :: u64 where "OSSL_QUIC_FRAME_TYPE_STREAMS_BLOCKED_UNI = 0x17"
definition OSSL_QUIC_FRAME_TYPE_NEW_CONN_ID :: u64 where "OSSL_QUIC_FRAME_TYPE_NEW_CONN_ID = 0x18"
definition OSSL_QUIC_FRAME_TYPE_RETIRE_CONN_ID :: u64 where "OSSL_QUIC_FRAME_TYPE_RETIRE_CONN_ID = 0x19"
definition OSSL_QUIC_FRAME_TYPE_PATH_CHALLENGE :: u64 where "OSSL_QUIC_FRAME_TYPE_PATH_CHALLENGE = 0x1A"
definition OSSL_QUIC_FRAME_TYPE_PATH_RESPONSE :: u64 where "OSSL_QUIC_FRAME_TYPE_PATH_RESPONSE = 0x1B"
definition OSSL_QUIC_FRAME_TYPE_CONN_CLOSE_TRANSPORT :: u64 where "OSSL_QUIC_FRAME_TYPE_CONN_CLOSE_TRANSPORT = 0x1C"
definition OSSL_QUIC_FRAME_TYPE_CONN_CLOSE_APP :: u64 where "OSSL_QUIC_FRAME_TYPE_CONN_CLOSE_APP = 0x1D"
definition OSSL_QUIC_FRAME_TYPE_HANDSHAKE_DONE :: u64 where "OSSL_QUIC_FRAME_TYPE_HANDSHAKE_DONE = 0x1E"

definition OSSL_QUIC_FRAME_FLAG_STREAM_FIN :: u64 where "OSSL_QUIC_FRAME_FLAG_STREAM_FIN = 0x01"
definition OSSL_QUIC_FRAME_FLAG_STREAM_LEN :: u64 where "OSSL_QUIC_FRAME_FLAG_STREAM_LEN = 0x02"
definition OSSL_QUIC_FRAME_FLAG_STREAM_OFF :: u64 where "OSSL_QUIC_FRAME_FLAG_STREAM_OFF = 0x04"
definition OSSL_QUIC_FRAME_FLAG_STREAM_MASK :: u64 where "OSSL_QUIC_FRAME_FLAG_STREAM_MASK = 0x07"
definition OSSL_QUIC_FRAME_TYPE_STREAM :: u64 where "OSSL_QUIC_FRAME_TYPE_STREAM = 0x08"

definition OSSL_QUIC_FRAME_TYPE_STREAM_FIN :: u64 where
  "OSSL_QUIC_FRAME_TYPE_STREAM_FIN = OSSL_QUIC_FRAME_TYPE_STREAM OR OSSL_QUIC_FRAME_FLAG_STREAM_FIN"
definition OSSL_QUIC_FRAME_TYPE_STREAM_LEN :: u64 where
  "OSSL_QUIC_FRAME_TYPE_STREAM_LEN = OSSL_QUIC_FRAME_TYPE_STREAM OR OSSL_QUIC_FRAME_FLAG_STREAM_LEN"
definition OSSL_QUIC_FRAME_TYPE_STREAM_LEN_FIN :: u64 where
  "OSSL_QUIC_FRAME_TYPE_STREAM_LEN_FIN =
     OSSL_QUIC_FRAME_TYPE_STREAM OR OSSL_QUIC_FRAME_FLAG_STREAM_LEN OR OSSL_QUIC_FRAME_FLAG_STREAM_FIN"
definition OSSL_QUIC_FRAME_TYPE_STREAM_OFF :: u64 where
  "OSSL_QUIC_FRAME_TYPE_STREAM_OFF = OSSL_QUIC_FRAME_TYPE_STREAM OR OSSL_QUIC_FRAME_FLAG_STREAM_OFF"
definition OSSL_QUIC_FRAME_TYPE_STREAM_OFF_FIN :: u64 where
  "OSSL_QUIC_FRAME_TYPE_STREAM_OFF_FIN =
     OSSL_QUIC_FRAME_TYPE_STREAM OR OSSL_QUIC_FRAME_FLAG_STREAM_OFF OR OSSL_QUIC_FRAME_FLAG_STREAM_FIN"
definition OSSL_QUIC_FRAME_TYPE_STREAM_OFF_LEN :: u64 where
  "OSSL_QUIC_FRAME_TYPE_STREAM_OFF_LEN =
     OSSL_QUIC_FRAME_TYPE_STREAM OR OSSL_QUIC_FRAME_FLAG_STREAM_OFF OR OSSL_QUIC_FRAME_FLAG_STREAM_LEN"
definition OSSL_QUIC_FRAME_TYPE_STREAM_OFF_LEN_FIN :: u64 where
  "OSSL_QUIC_FRAME_TYPE_STREAM_OFF_LEN_FIN =
     OSSL_QUIC_FRAME_TYPE_STREAM OR OSSL_QUIC_FRAME_FLAG_STREAM_OFF OR OSSL_QUIC_FRAME_FLAG_STREAM_LEN OR
     OSSL_QUIC_FRAME_FLAG_STREAM_FIN"

lemmas frame_types =
  OSSL_QUIC_FRAME_TYPE_PADDING_def OSSL_QUIC_FRAME_TYPE_PING_def OSSL_QUIC_FRAME_TYPE_ACK_WITHOUT_ECN_def
  OSSL_QUIC_FRAME_TYPE_ACK_WITH_ECN_def OSSL_QUIC_FRAME_TYPE_RESET_STREAM_def OSSL_QUIC_FRAME_TYPE_STOP_SENDING_def
  OSSL_QUIC_FRAME_TYPE_CRYPTO_def OSSL_QUIC_FRAME_TYPE_NEW_TOKEN_def OSSL_QUIC_FRAME_TYPE_MAX_DATA_def
  OSSL_QUIC_FRAME_TYPE_MAX_STREAM_DATA_def OSSL_QUIC_FRAME_TYPE_MAX_STREAMS_BIDI_def
  OSSL_QUIC_FRAME_TYPE_MAX_STREAMS_UNI_def OSSL_QUIC_FRAME_TYPE_DATA_BLOCKED_def
  OSSL_QUIC_FRAME_TYPE_STREAM_DATA_BLOCKED_def OSSL_QUIC_FRAME_TYPE_STREAMS_BLOCKED_BIDI_def
  OSSL_QUIC_FRAME_TYPE_STREAMS_BLOCKED_UNI_def OSSL_QUIC_FRAME_TYPE_NEW_CONN_ID_def
  OSSL_QUIC_FRAME_TYPE_RETIRE_CONN_ID_def OSSL_QUIC_FRAME_TYPE_PATH_CHALLENGE_def
  OSSL_QUIC_FRAME_TYPE_PATH_RESPONSE_def OSSL_QUIC_FRAME_TYPE_CONN_CLOSE_TRANSPORT_def
  OSSL_QUIC_FRAME_TYPE_CONN_CLOSE_APP_def OSSL_QUIC_FRAME_TYPE_HANDSHAKE_DONE_def OSSL_QUIC_FRAME_TYPE_STREAM_def

lemmas stream_flags =
  OSSL_QUIC_FRAME_FLAG_STREAM_FIN_def OSSL_QUIC_FRAME_FLAG_STREAM_LEN_def OSSL_QUIC_FRAME_FLAG_STREAM_OFF_def
  OSSL_QUIC_FRAME_FLAG_STREAM_MASK_def

definition ossl_quic_frame_type_is_ack_eliciting :: "u64 \<Rightarrow> bool" where
  "ossl_quic_frame_type_is_ack_eliciting frame_type \<longleftrightarrow>
     frame_type \<notin> {OSSL_QUIC_FRAME_TYPE_PADDING, OSSL_QUIC_FRAME_TYPE_ACK_WITHOUT_ECN,
       OSSL_QUIC_FRAME_TYPE_ACK_WITH_ECN, OSSL_QUIC_FRAME_TYPE_CONN_CLOSE_TRANSPORT,
       OSSL_QUIC_FRAME_TYPE_CONN_CLOSE_APP}"

section \<open>Frame structures\<close>

record ack_range =
  ar_start :: u64
  ar_end :: u64

text \<open>The list \<open>ack_ranges\<close> holds the \<open>num_ack_ranges\<close> elements of the array.\<close>

record frame_ack =
  ack_ranges :: "ack_range list"
  delay_time :: ossl_time
  ect0 :: u64
  ect1 :: u64
  ecnce :: u64
  ecn_present :: bool

record frame_stream =
  fs_stream_id :: u64
  fs_offset :: u64
  fs_len :: u64
  fs_data :: "bytes option"
  has_explicit_len :: bool
  is_fin :: bool

record frame_crypto =
  fc_offset :: u64
  fc_len :: u64
  fc_data :: "bytes option"

record frame_reset_stream =
  rs_stream_id :: u64
  rs_app_error_code :: u64
  final_size :: u64

record frame_stop_sending =
  ss_stream_id :: u64
  ss_app_error_code :: u64

definition QUIC_MAX_CONN_ID_LEN :: nat where "QUIC_MAX_CONN_ID_LEN = 20"
definition QUIC_STATELESS_RESET_TOKEN_LEN :: nat where "QUIC_STATELESS_RESET_TOKEN_LEN = 16"

text \<open>\<open>QUIC_CONN_ID\<close>; the array \<open>id\<close> has \<open>QUIC_MAX_CONN_ID_LEN\<close> elements.\<close>

record conn_id =
  id_len :: u8
  cid_id :: bytes

record frame_new_conn_id =
  nc_seq_num :: u64
  nc_retire_prior_to :: u64
  nc_conn_id :: conn_id
  nc_stateless_reset :: bytes

record frame_conn_close =
  is_app :: bool
  error_code :: u64
  cc_frame_type :: u64
  reason :: bytes

record preferred_addr =
  ipv4_port :: "16 word"
  ipv6_port :: "16 word"
  ipv4 :: bytes
  ipv6 :: bytes
  pa_stateless_reset :: bytes
  pa_cid :: conn_id

definition ossl_quic_conn_id_eq :: "conn_id \<Rightarrow> conn_id \<Rightarrow> bool" where
  "ossl_quic_conn_id_eq a b =
     (if id_len a \<noteq> id_len b \<or> unat (id_len a) > QUIC_MAX_CONN_ID_LEN then False
      else take (unat (id_len a)) (cid_id a) = take (unat (id_len a)) (cid_id b))"

definition ossl_quic_frame_ack_contains_pn :: "frame_ack \<Rightarrow> u64 \<Rightarrow> bool" where
  "ossl_quic_frame_ack_contains_pn ack pn \<longleftrightarrow>
     list_ex (\<lambda>r. pn \<ge> ar_start r \<and> pn \<le> ar_end r) (ack_ranges ack)"

section \<open>Encoding\<close>

definition ossl_quic_wire_encode_padding :: "size_t \<Rightarrow> unit wop" where
  "ossl_quic_wire_encode_padding num_bytes = WPACKET_memset 0 num_bytes"

definition encode_frame_hdr :: "u64 \<Rightarrow> unit wop" where
  "encode_frame_hdr frame_type = WPACKET_quic_write_vlint frame_type"

definition ossl_quic_wire_encode_frame_ping :: "unit wop" where
  "ossl_quic_wire_encode_frame_ping = encode_frame_hdr OSSL_QUIC_FRAME_TYPE_PING"

text \<open>The loop over \<open>i\<close>: \<open>prev\<close> is \<open>ack_ranges[i - 1]\<close>.\<close>

fun encode_ack_ranges :: "ack_range \<Rightarrow> ack_range list \<Rightarrow> unit wop" where
  "encode_ack_ranges prev [] = wret ()"
| "encode_ack_ranges prev (r # rs) =
     (let gap = ar_start prev - ar_end r - 2;
          range_len = ar_end r - ar_start r
      in all_ok [WPACKET_quic_write_vlint gap, WPACKET_quic_write_vlint range_len, encode_ack_ranges r rs])"

text \<open>Shifting by the width of the type or more is undefined.\<close>

definition ossl_quic_wire_encode_frame_ack :: "u32 \<Rightarrow> frame_ack \<Rightarrow> unit wop" where
  "ossl_quic_wire_encode_frame_ack ack_delay_exponent ack =
     (let frame_type = (if ecn_present ack then OSSL_QUIC_FRAME_TYPE_ACK_WITH_ECN
                        else OSSL_QUIC_FRAME_TYPE_ACK_WITHOUT_ECN);
          num_ack_ranges = of_nat (length (ack_ranges ack))
      in case ack_ranges ack of
           [] \<Rightarrow> wfail
         | r # rs \<Rightarrow>
           if unat ack_delay_exponent \<ge> 64 then (\<lambda>_. None)
           else
             (let delay = ossl_time_divide (ossl_time_divide (delay_time ack) OSSL_TIME_US)
                            (push_bit (unat ack_delay_exponent) 1);
                  ack_delay_enc = ossl_time2ticks delay;
                  largest_ackd = ar_end r;
                  first_ack_range = ar_end r - ar_start r
              in all_ok
                   [encode_frame_hdr frame_type,
                    WPACKET_quic_write_vlint largest_ackd,
                    WPACKET_quic_write_vlint ack_delay_enc,
                    WPACKET_quic_write_vlint (num_ack_ranges - 1),
                    WPACKET_quic_write_vlint first_ack_range,
                    encode_ack_ranges r rs,
                    if ecn_present ack
                    then all_ok [WPACKET_quic_write_vlint (ect0 ack), WPACKET_quic_write_vlint (ect1 ack),
                                 WPACKET_quic_write_vlint (ecnce ack)]
                    else wret ()]))"

definition ossl_quic_wire_encode_frame_reset_stream :: "frame_reset_stream \<Rightarrow> unit wop" where
  "ossl_quic_wire_encode_frame_reset_stream f =
     all_ok [encode_frame_hdr OSSL_QUIC_FRAME_TYPE_RESET_STREAM,
             WPACKET_quic_write_vlint (rs_stream_id f),
             WPACKET_quic_write_vlint (rs_app_error_code f),
             WPACKET_quic_write_vlint (final_size f)]"

definition ossl_quic_wire_encode_frame_stop_sending :: "frame_stop_sending \<Rightarrow> unit wop" where
  "ossl_quic_wire_encode_frame_stop_sending f =
     all_ok [encode_frame_hdr OSSL_QUIC_FRAME_TYPE_STOP_SENDING,
             WPACKET_quic_write_vlint (ss_stream_id f),
             WPACKET_quic_write_vlint (ss_app_error_code f)]"

definition ossl_quic_wire_encode_frame_crypto_hdr :: "frame_crypto \<Rightarrow> unit wop" where
  "ossl_quic_wire_encode_frame_crypto_hdr f =
     all_ok [encode_frame_hdr OSSL_QUIC_FRAME_TYPE_CRYPTO,
             WPACKET_quic_write_vlint (fc_offset f),
             WPACKET_quic_write_vlint (fc_len f)]"

definition ossl_quic_wire_get_encoded_frame_len_crypto_hdr :: "frame_crypto \<Rightarrow> size_t" where
  "ossl_quic_wire_get_encoded_frame_len_crypto_hdr f =
     (let a = ossl_quic_vlint_encode_len OSSL_QUIC_FRAME_TYPE_CRYPTO;
          b = ossl_quic_vlint_encode_len (fc_offset f);
          c = ossl_quic_vlint_encode_len (fc_len f)
      in if a = 0 \<or> b = 0 \<or> c = 0 then 0 else a + b + c)"

text \<open>\<open>if (src != NULL) memcpy(p, src, len);\<close>, and \<open>return p\<close> where NULL means failure.\<close>

definition copy_to :: "nat option \<Rightarrow> bytes option \<Rightarrow> size_t \<Rightarrow> unit wop" where
  "copy_to p src len =
     (case src of
        None \<Rightarrow> wret ()
      | Some bs \<Rightarrow> if length bs < unat len then (\<lambda>_. None) else store p (take (unat len) bs))"

definition return_ptr :: "nat option \<Rightarrow> nat wop" where
  "return_ptr p = (case p of None \<Rightarrow> wfail | Some off \<Rightarrow> wret off)"

definition ossl_quic_wire_encode_frame_crypto :: "frame_crypto \<Rightarrow> nat wop" where
  "ossl_quic_wire_encode_frame_crypto f =
     wbind (ossl_quic_wire_encode_frame_crypto_hdr f) (\<lambda>_.
       if fc_len f > SIZE_MAX then wfail
       else
         wbind (WPACKET_allocate_bytes (fc_len f)) (\<lambda>p.
         wbind (copy_to p (fc_data f) (fc_len f)) (\<lambda>_. return_ptr p)))"

definition ossl_quic_wire_encode_frame_new_token :: "bytes \<Rightarrow> unit wop" where
  "ossl_quic_wire_encode_frame_new_token token =
     all_ok [encode_frame_hdr OSSL_QUIC_FRAME_TYPE_NEW_TOKEN,
             WPACKET_quic_write_vlint (of_nat (length token)),
             WPACKET_memcpy token]"

definition stream_frame_type :: "frame_stream \<Rightarrow> u64" where
  "stream_frame_type f =
     (let frame_type = OSSL_QUIC_FRAME_TYPE_STREAM;
          frame_type = (if fs_offset f \<noteq> 0 then frame_type OR OSSL_QUIC_FRAME_FLAG_STREAM_OFF else frame_type);
          frame_type = (if has_explicit_len f then frame_type OR OSSL_QUIC_FRAME_FLAG_STREAM_LEN else frame_type)
      in if is_fin f then frame_type OR OSSL_QUIC_FRAME_FLAG_STREAM_FIN else frame_type)"

definition ossl_quic_wire_encode_frame_stream_hdr :: "frame_stream \<Rightarrow> unit wop" where
  "ossl_quic_wire_encode_frame_stream_hdr f =
     all_ok [encode_frame_hdr (stream_frame_type f),
             WPACKET_quic_write_vlint (fs_stream_id f),
             if fs_offset f \<noteq> 0 then WPACKET_quic_write_vlint (fs_offset f) else wret (),
             if has_explicit_len f then WPACKET_quic_write_vlint (fs_len f) else wret ()]"

definition ossl_quic_wire_get_encoded_frame_len_stream_hdr :: "frame_stream \<Rightarrow> size_t" where
  "ossl_quic_wire_get_encoded_frame_len_stream_hdr f =
     (let a = ossl_quic_vlint_encode_len OSSL_QUIC_FRAME_TYPE_STREAM;
          b = ossl_quic_vlint_encode_len (fs_stream_id f);
          c = (if fs_offset f > 0 then ossl_quic_vlint_encode_len (fs_offset f) else 0);
          d = (if has_explicit_len f then ossl_quic_vlint_encode_len (fs_len f) else 0)
      in if a = 0 \<or> b = 0 then 0
         else if fs_offset f > 0 \<and> c = 0 then 0
         else if has_explicit_len f \<and> d = 0 then 0
         else a + b + c + d)"

definition ossl_quic_wire_encode_frame_stream :: "frame_stream \<Rightarrow> nat wop" where
  "ossl_quic_wire_encode_frame_stream f =
     wbind (ossl_quic_wire_encode_frame_stream_hdr f) (\<lambda>_.
       if fs_len f > SIZE_MAX then wfail
       else
         wbind (WPACKET_allocate_bytes (fs_len f)) (\<lambda>p.
         wbind (copy_to p (fs_data f) (fs_len f)) (\<lambda>_. return_ptr p)))"

definition ossl_quic_wire_encode_frame_max_data :: "u64 \<Rightarrow> unit wop" where
  "ossl_quic_wire_encode_frame_max_data max_data =
     all_ok [encode_frame_hdr OSSL_QUIC_FRAME_TYPE_MAX_DATA, WPACKET_quic_write_vlint max_data]"

definition ossl_quic_wire_encode_frame_max_stream_data :: "u64 \<Rightarrow> u64 \<Rightarrow> unit wop" where
  "ossl_quic_wire_encode_frame_max_stream_data stream_id max_data =
     all_ok [encode_frame_hdr OSSL_QUIC_FRAME_TYPE_MAX_STREAM_DATA,
             WPACKET_quic_write_vlint stream_id,
             WPACKET_quic_write_vlint max_data]"

definition ossl_quic_wire_encode_frame_max_streams :: "bool \<Rightarrow> u64 \<Rightarrow> unit wop" where
  "ossl_quic_wire_encode_frame_max_streams is_uni max_streams =
     all_ok [encode_frame_hdr (if is_uni then OSSL_QUIC_FRAME_TYPE_MAX_STREAMS_UNI
                               else OSSL_QUIC_FRAME_TYPE_MAX_STREAMS_BIDI),
             WPACKET_quic_write_vlint max_streams]"

definition ossl_quic_wire_encode_frame_data_blocked :: "u64 \<Rightarrow> unit wop" where
  "ossl_quic_wire_encode_frame_data_blocked max_data =
     all_ok [encode_frame_hdr OSSL_QUIC_FRAME_TYPE_DATA_BLOCKED, WPACKET_quic_write_vlint max_data]"

definition ossl_quic_wire_encode_frame_stream_data_blocked :: "u64 \<Rightarrow> u64 \<Rightarrow> unit wop" where
  "ossl_quic_wire_encode_frame_stream_data_blocked stream_id max_stream_data =
     all_ok [encode_frame_hdr OSSL_QUIC_FRAME_TYPE_STREAM_DATA_BLOCKED,
             WPACKET_quic_write_vlint stream_id,
             WPACKET_quic_write_vlint max_stream_data]"

definition ossl_quic_wire_encode_frame_streams_blocked :: "bool \<Rightarrow> u64 \<Rightarrow> unit wop" where
  "ossl_quic_wire_encode_frame_streams_blocked is_uni max_streams =
     all_ok [encode_frame_hdr (if is_uni then OSSL_QUIC_FRAME_TYPE_STREAMS_BLOCKED_UNI
                               else OSSL_QUIC_FRAME_TYPE_STREAMS_BLOCKED_BIDI),
             WPACKET_quic_write_vlint max_streams]"

definition ossl_quic_wire_encode_frame_new_conn_id :: "frame_new_conn_id \<Rightarrow> unit wop" where
  "ossl_quic_wire_encode_frame_new_conn_id f =
     (let len = unat (id_len (nc_conn_id f)) in
      if len < 1 \<or> len > QUIC_MAX_CONN_ID_LEN then wfail
      else
        all_ok [encode_frame_hdr OSSL_QUIC_FRAME_TYPE_NEW_CONN_ID,
                WPACKET_quic_write_vlint (nc_seq_num f),
                WPACKET_quic_write_vlint (nc_retire_prior_to f),
                WPACKET_put_bytes_n (ucast (id_len (nc_conn_id f))) 1,
                WPACKET_memcpy (take len (cid_id (nc_conn_id f))),
                WPACKET_memcpy (take QUIC_STATELESS_RESET_TOKEN_LEN (nc_stateless_reset f))])"

definition ossl_quic_wire_encode_frame_retire_conn_id :: "u64 \<Rightarrow> unit wop" where
  "ossl_quic_wire_encode_frame_retire_conn_id seq_num =
     all_ok [encode_frame_hdr OSSL_QUIC_FRAME_TYPE_RETIRE_CONN_ID, WPACKET_quic_write_vlint seq_num]"

definition ossl_quic_wire_encode_frame_path_challenge :: "u64 \<Rightarrow> unit wop" where
  "ossl_quic_wire_encode_frame_path_challenge data =
     all_ok [encode_frame_hdr OSSL_QUIC_FRAME_TYPE_PATH_CHALLENGE, WPACKET_put_bytes_n data 8]"

definition ossl_quic_wire_encode_frame_path_response :: "u64 \<Rightarrow> unit wop" where
  "ossl_quic_wire_encode_frame_path_response data =
     all_ok [encode_frame_hdr OSSL_QUIC_FRAME_TYPE_PATH_RESPONSE, WPACKET_put_bytes_n data 8]"

definition ossl_quic_wire_encode_frame_conn_close :: "frame_conn_close \<Rightarrow> unit wop" where
  "ossl_quic_wire_encode_frame_conn_close f =
     all_ok [encode_frame_hdr (if is_app f then OSSL_QUIC_FRAME_TYPE_CONN_CLOSE_APP
                               else OSSL_QUIC_FRAME_TYPE_CONN_CLOSE_TRANSPORT),
             WPACKET_quic_write_vlint (error_code f),
             if \<not> is_app f then WPACKET_quic_write_vlint (cc_frame_type f) else wret (),
             WPACKET_quic_write_vlint (of_nat (length (reason f))),
             WPACKET_memcpy (reason f)]"

definition ossl_quic_wire_encode_frame_handshake_done :: "unit wop" where
  "ossl_quic_wire_encode_frame_handshake_done = encode_frame_hdr OSSL_QUIC_FRAME_TYPE_HANDSHAKE_DONE"

definition ossl_quic_wire_encode_transport_param_bytes :: "u64 \<Rightarrow> bytes option \<Rightarrow> size_t \<Rightarrow> nat wop" where
  "ossl_quic_wire_encode_transport_param_bytes pid val value_len =
     wbind (all_ok [WPACKET_quic_write_vlint pid, WPACKET_quic_write_vlint value_len]) (\<lambda>_.
     wbind (if value_len = 0 then (\<lambda>pkt. wret (WPACKET_get_curr pkt) pkt)
            else WPACKET_allocate_bytes value_len) (\<lambda>b.
     wbind (copy_to b val value_len) (\<lambda>_. return_ptr b)))"

definition ossl_quic_wire_encode_transport_param_int :: "u64 \<Rightarrow> u64 \<Rightarrow> unit wop" where
  "ossl_quic_wire_encode_transport_param_int pid val =
     all_ok [WPACKET_quic_write_vlint pid,
             WPACKET_quic_write_vlint (ossl_quic_vlint_encode_len val),
             WPACKET_quic_write_vlint val]"

definition ossl_quic_wire_encode_transport_param_cid :: "u64 \<Rightarrow> conn_id \<Rightarrow> unit wop" where
  "ossl_quic_wire_encode_transport_param_cid pid cid =
     (if unat (id_len cid) > QUIC_MAX_CONN_ID_LEN then wfail
      else wbind (ossl_quic_wire_encode_transport_param_bytes pid (Some (cid_id cid)) (ucast (id_len cid)))
             (\<lambda>_. wret ()))"

section \<open>Decoding\<close>

definition ossl_quic_wire_peek_frame_header :: "packet \<Rightarrow> (u64 \<times> bool) option" where
  "ossl_quic_wire_peek_frame_header pkt = PACKET_peek_quic_vlint_ex pkt"

definition ossl_quic_wire_skip_frame_header :: "u64 reader" where
  "ossl_quic_wire_skip_frame_header = PACKET_get_quic_vlint"

definition expect_frame_header_mask :: "u64 \<Rightarrow> u64 \<Rightarrow> u64 reader" where
  "expect_frame_header_mask expected_frame_type mask_bits =
     read_then ossl_quic_wire_skip_frame_header (\<lambda>actual_frame_type.
       if actual_frame_type AND NOT mask_bits \<noteq> expected_frame_type then read_fail
       else read_return actual_frame_type)"

definition expect_frame_header :: "u64 \<Rightarrow> unit reader" where
  "expect_frame_header expected_frame_type =
     read_then ossl_quic_wire_skip_frame_header (\<lambda>actual_frame_type.
       if actual_frame_type \<noteq> expected_frame_type then read_fail else read_return ())"

text \<open>The loop that skips the \<open>n\<close> gaps and lengths.\<close>

fun skip_ack_ranges :: "nat \<Rightarrow> unit reader" where
  "skip_ack_ranges 0 = read_return ()"
| "skip_ack_ranges (Suc n) =
     read_then PACKET_skip_quic_vlint (\<lambda>_.
     read_then PACKET_skip_quic_vlint (\<lambda>_. skip_ack_ranges n))"

text \<open>This works on a copy of the packet.\<close>

definition ossl_quic_wire_peek_frame_ack_num_ranges :: "packet \<Rightarrow> u64 option" where
  "ossl_quic_wire_peek_frame_ack_num_ranges orig_pkt =
     fst (read_then (expect_frame_header_mask OSSL_QUIC_FRAME_TYPE_ACK_WITHOUT_ECN 1) (\<lambda>_.
          read_then PACKET_skip_quic_vlint (\<lambda>_.
          read_then PACKET_skip_quic_vlint (\<lambda>_.
          read_then PACKET_get_quic_vlint (\<lambda>ack_range_count.
          read_then (skip_ack_ranges (unat ack_range_count)) (\<lambda>_.
            read_return (ack_range_count + 1)))))) orig_pkt)"

text \<open>The parts of \<open>ossl_quic_wire_decode_frame_ack\<close>: the fixed fields; the delay and the first range,
  where the shift may be undefined; and the loop, in which \<open>start\<close> changes only when the range is
  stored.\<close>

definition decode_ack_fields :: "(u64 \<times> u64 \<times> u64 \<times> u64 \<times> u64) reader" where
  "decode_ack_fields =
     read_then (expect_frame_header_mask OSSL_QUIC_FRAME_TYPE_ACK_WITHOUT_ECN 1) (\<lambda>frame_type.
     read_then PACKET_get_quic_vlint (\<lambda>largest_ackd.
     read_then PACKET_get_quic_vlint (\<lambda>ack_delay_raw.
     read_then PACKET_get_quic_vlint (\<lambda>ack_range_count.
     read_then PACKET_get_quic_vlint (\<lambda>first_ack_range.
       if first_ack_range > largest_ackd then read_fail
       else if ack_range_count > SIZE_MAX then read_fail
       else read_return (frame_type, largest_ackd, ack_delay_raw, ack_range_count, first_ack_range))))))"

definition decode_ack_delay :: "u32 \<Rightarrow> u64 \<Rightarrow> ossl_time" where
  "decode_ack_delay ack_delay_exponent ack_delay_raw =
     (let (prod, err) = safe_mul_u64 ack_delay_raw (push_bit (unat ack_delay_exponent) 1);
          delay_time = ossl_time_multiply (ossl_ticks2time OSSL_TIME_US) prod
      in if err then ossl_time_infinite else delay_time)"

definition store_range :: "nat \<Rightarrow> ack_range \<Rightarrow> frame_ack \<Rightarrow> frame_ack" where
  "store_range i r ack = ack\<lparr>ack_ranges := (ack_ranges ack)[i := r]\<rparr>"

fun decode_ack_ranges :: "nat \<Rightarrow> nat \<Rightarrow> u64 \<Rightarrow> frame_ack option \<Rightarrow> frame_ack option reader" where
  "decode_ack_ranges i 0 start ack = read_return ack"
| "decode_ack_ranges i (Suc n) start ack =
     read_then PACKET_get_quic_vlint (\<lambda>gap.
     read_then PACKET_get_quic_vlint (\<lambda>len.
       let end = start - gap - 2 in
       if start < gap + 2 \<or> len > end then read_fail
       else
         (case ack of
            Some a \<Rightarrow>
              if i + 1 < length (ack_ranges a)
              then decode_ack_ranges (i + 1) n (end - len)
                     (Some (store_range (i + 1) \<lparr>ar_start = end - len, ar_end = end\<rparr> a))
              else decode_ack_ranges (i + 1) n start ack
          | None \<Rightarrow> decode_ack_ranges (i + 1) n start ack)))"

definition decode_ack_ecn :: "u64 \<Rightarrow> frame_ack option \<Rightarrow> frame_ack option reader" where
  "decode_ack_ecn frame_type ack =
     (if frame_type = OSSL_QUIC_FRAME_TYPE_ACK_WITH_ECN then
        read_then PACKET_get_quic_vlint (\<lambda>e0.
        read_then PACKET_get_quic_vlint (\<lambda>e1.
        read_then PACKET_get_quic_vlint (\<lambda>ce.
          read_return (map_option (\<lambda>a. a\<lparr>ect0 := e0, ect1 := e1, ecnce := ce, ecn_present := True\<rparr>) ack))))
      else read_return (map_option (\<lambda>a. a\<lparr>ecn_present := False\<rparr>) ack))"

text \<open>The argument \<open>ack\<close> is \<open>None\<close> when a NULL pointer is passed; its array of ranges is overwritten and
  cut to the number of ranges received. The second result is \<open>*total_ranges\<close>.\<close>

definition ossl_quic_wire_decode_frame_ack ::
    "u32 \<Rightarrow> frame_ack option \<Rightarrow> packet \<Rightarrow> ((frame_ack option \<times> u64) option \<times> packet) option" where
  "ossl_quic_wire_decode_frame_ack ack_delay_exponent ack pkt =
     (case decode_ack_fields pkt of
        (None, pkt) \<Rightarrow> Some (None, pkt)
      | (Some (frame_type, largest_ackd, ack_delay_raw, ack_range_count, first_ack_range), pkt) \<Rightarrow>
        if ack \<noteq> None \<and> unat ack_delay_exponent \<ge> 64 then None
        else
          (let start = largest_ackd - first_ack_range;
               ack = map_option (\<lambda>a.
                 let a = a\<lparr>delay_time := decode_ack_delay ack_delay_exponent ack_delay_raw\<rparr> in
                 if length (ack_ranges a) > 0
                 then store_range 0 \<lparr>ar_start = start, ar_end = largest_ackd\<rparr> a else a) ack
           in Some
             (read_then (decode_ack_ranges 0 (unat ack_range_count) start ack) (\<lambda>ack.
              let ack = map_option (\<lambda>a. a\<lparr>ack_ranges := take (unat ack_range_count + 1) (ack_ranges a)\<rparr>) ack
              in read_then (decode_ack_ecn frame_type ack) (\<lambda>ack.
                   read_return (ack, ack_range_count + 1))) pkt)))"

definition ossl_quic_wire_decode_frame_reset_stream :: "frame_reset_stream reader" where
  "ossl_quic_wire_decode_frame_reset_stream =
     read_then (expect_frame_header OSSL_QUIC_FRAME_TYPE_RESET_STREAM) (\<lambda>_.
     read_then PACKET_get_quic_vlint (\<lambda>sid.
     read_then PACKET_get_quic_vlint (\<lambda>aec.
     read_then PACKET_get_quic_vlint (\<lambda>fsz.
       read_return \<lparr>rs_stream_id = sid, rs_app_error_code = aec, final_size = fsz\<rparr>))))"

definition ossl_quic_wire_decode_frame_stop_sending :: "frame_stop_sending reader" where
  "ossl_quic_wire_decode_frame_stop_sending =
     read_then (expect_frame_header OSSL_QUIC_FRAME_TYPE_STOP_SENDING) (\<lambda>_.
     read_then PACKET_get_quic_vlint (\<lambda>sid.
     read_then PACKET_get_quic_vlint (\<lambda>aec.
       read_return \<lparr>ss_stream_id = sid, ss_app_error_code = aec\<rparr>)))"

text \<open>\<open>data = PACKET_data(pkt)\<close> followed by \<open>PACKET_forward(pkt, n)\<close>: the \<open>n\<close> bytes \<open>data\<close> points to.\<close>

definition data_forward :: "nat \<Rightarrow> bytes reader" where
  "data_forward n pkt = read_then (PACKET_forward n) (\<lambda>_. read_return (take n (PACKET_data pkt))) pkt"

definition MAX_OFFSET_62 :: u64 where "MAX_OFFSET_62 = push_bit 62 1 - 1"

definition ossl_quic_wire_decode_frame_crypto :: "bool \<Rightarrow> frame_crypto reader" where
  "ossl_quic_wire_decode_frame_crypto nodata =
     read_then (expect_frame_header OSSL_QUIC_FRAME_TYPE_CRYPTO) (\<lambda>_.
     read_then PACKET_get_quic_vlint (\<lambda>off.
     read_then PACKET_get_quic_vlint (\<lambda>len.
       if len > SIZE_MAX then read_fail
       else if off + len > MAX_OFFSET_62 then read_fail
       else if nodata then read_return \<lparr>fc_offset = off, fc_len = len, fc_data = None\<rparr>
       else (\<lambda>pkt.
         if PACKET_remaining pkt < unat len then read_fail pkt
         else
           read_then (data_forward (unat len)) (\<lambda>d.
             read_return \<lparr>fc_offset = off, fc_len = len, fc_data = Some d\<rparr>) pkt))))"

definition ossl_quic_wire_decode_frame_new_token :: "bytes reader" where
  "ossl_quic_wire_decode_frame_new_token =
     read_then (expect_frame_header OSSL_QUIC_FRAME_TYPE_NEW_TOKEN) (\<lambda>_.
     read_then PACKET_get_quic_vlint (\<lambda>token_len.
       if token_len > SIZE_MAX then read_fail else data_forward (unat token_len)))"

definition ossl_quic_wire_decode_frame_stream :: "bool \<Rightarrow> frame_stream reader" where
  "ossl_quic_wire_decode_frame_stream nodata =
     read_then (expect_frame_header_mask OSSL_QUIC_FRAME_TYPE_STREAM OSSL_QUIC_FRAME_FLAG_STREAM_MASK) (\<lambda>frame_type.
     read_then PACKET_get_quic_vlint (\<lambda>sid.
     read_then (if frame_type AND OSSL_QUIC_FRAME_FLAG_STREAM_OFF \<noteq> 0 then PACKET_get_quic_vlint
                else read_return 0) (\<lambda>off.
     let explicit = (frame_type AND OSSL_QUIC_FRAME_FLAG_STREAM_LEN \<noteq> 0);
         fin = (frame_type AND OSSL_QUIC_FRAME_FLAG_STREAM_FIN \<noteq> 0)
     in
     read_then (if explicit then PACKET_get_quic_vlint
                else if nodata then read_return 0
                else (\<lambda>pkt. read_return (of_nat (PACKET_remaining pkt)) pkt)) (\<lambda>len.
       if off + len > MAX_OFFSET_62 then read_fail
       else if nodata
       then read_return \<lparr>fs_stream_id = sid, fs_offset = off, fs_len = len, fs_data = None,
                         has_explicit_len = explicit, is_fin = fin\<rparr>
       else if len > SIZE_MAX then read_fail
       else
         read_then (data_forward (unat len)) (\<lambda>d.
           read_return \<lparr>fs_stream_id = sid, fs_offset = off, fs_len = len, fs_data = Some d,
                        has_explicit_len = explicit, is_fin = fin\<rparr>)))))"

definition ossl_quic_wire_decode_frame_max_data :: "u64 reader" where
  "ossl_quic_wire_decode_frame_max_data =
     read_then (expect_frame_header OSSL_QUIC_FRAME_TYPE_MAX_DATA) (\<lambda>_. PACKET_get_quic_vlint)"

definition ossl_quic_wire_decode_frame_max_stream_data :: "(u64 \<times> u64) reader" where
  "ossl_quic_wire_decode_frame_max_stream_data =
     read_then (expect_frame_header OSSL_QUIC_FRAME_TYPE_MAX_STREAM_DATA) (\<lambda>_.
     read_then PACKET_get_quic_vlint (\<lambda>stream_id.
     read_then PACKET_get_quic_vlint (\<lambda>max_stream_data.
       read_return (stream_id, max_stream_data))))"

definition ossl_quic_wire_decode_frame_max_streams :: "u64 reader" where
  "ossl_quic_wire_decode_frame_max_streams =
     read_then (expect_frame_header_mask OSSL_QUIC_FRAME_TYPE_MAX_STREAMS_BIDI 1) (\<lambda>_. PACKET_get_quic_vlint)"

definition ossl_quic_wire_decode_frame_data_blocked :: "u64 reader" where
  "ossl_quic_wire_decode_frame_data_blocked =
     read_then (expect_frame_header OSSL_QUIC_FRAME_TYPE_DATA_BLOCKED) (\<lambda>_. PACKET_get_quic_vlint)"

definition ossl_quic_wire_decode_frame_stream_data_blocked :: "(u64 \<times> u64) reader" where
  "ossl_quic_wire_decode_frame_stream_data_blocked =
     read_then (expect_frame_header OSSL_QUIC_FRAME_TYPE_STREAM_DATA_BLOCKED) (\<lambda>_.
     read_then PACKET_get_quic_vlint (\<lambda>stream_id.
     read_then PACKET_get_quic_vlint (\<lambda>max_stream_data.
       read_return (stream_id, max_stream_data))))"

definition ossl_quic_wire_decode_frame_streams_blocked :: "u64 reader" where
  "ossl_quic_wire_decode_frame_streams_blocked =
     read_then (expect_frame_header_mask OSSL_QUIC_FRAME_TYPE_STREAMS_BLOCKED_BIDI 1) (\<lambda>_. PACKET_get_quic_vlint)"

text \<open>The bytes of the array after the connection ID are set to zero.\<close>

definition ossl_quic_wire_decode_frame_new_conn_id :: "frame_new_conn_id reader" where
  "ossl_quic_wire_decode_frame_new_conn_id =
     read_then (expect_frame_header OSSL_QUIC_FRAME_TYPE_NEW_CONN_ID) (\<lambda>_.
     read_then PACKET_get_quic_vlint (\<lambda>seq.
     read_then PACKET_get_quic_vlint (\<lambda>retire.
       if seq < retire then read_fail
       else
         read_then PACKET_get_1 (\<lambda>len.
           if unat len < 1 then read_fail
           else if unat len > QUIC_MAX_CONN_ID_LEN then read_fail
           else
             read_then (PACKET_copy_bytes (unat len)) (\<lambda>cid.
             read_then (PACKET_copy_bytes QUIC_STATELESS_RESET_TOKEN_LEN) (\<lambda>token.
               read_return
                 \<lparr>nc_seq_num = seq, nc_retire_prior_to = retire,
                  nc_conn_id = \<lparr>id_len = ucast len,
                                cid_id = cid @ replicate (QUIC_MAX_CONN_ID_LEN - unat len) 0\<rparr>,
                  nc_stateless_reset = token\<rparr>))))))"

definition ossl_quic_wire_decode_frame_retire_conn_id :: "u64 reader" where
  "ossl_quic_wire_decode_frame_retire_conn_id =
     read_then (expect_frame_header OSSL_QUIC_FRAME_TYPE_RETIRE_CONN_ID) (\<lambda>_. PACKET_get_quic_vlint)"

definition ossl_quic_wire_decode_frame_path_challenge :: "u64 reader" where
  "ossl_quic_wire_decode_frame_path_challenge =
     read_then (expect_frame_header OSSL_QUIC_FRAME_TYPE_PATH_CHALLENGE) (\<lambda>_. PACKET_get_net_8)"

definition ossl_quic_wire_decode_frame_path_response :: "u64 reader" where
  "ossl_quic_wire_decode_frame_path_response =
     read_then (expect_frame_header OSSL_QUIC_FRAME_TYPE_PATH_RESPONSE) (\<lambda>_. PACKET_get_net_8)"

definition ossl_quic_wire_decode_frame_conn_close :: "frame_conn_close reader" where
  "ossl_quic_wire_decode_frame_conn_close =
     read_then (expect_frame_header_mask OSSL_QUIC_FRAME_TYPE_CONN_CLOSE_TRANSPORT 1) (\<lambda>frame_type.
     read_then PACKET_get_quic_vlint (\<lambda>ec.
     let app = (frame_type AND 1 \<noteq> 0) in
     read_then (if \<not> app then PACKET_get_quic_vlint else read_return 0) (\<lambda>ft.
     read_then PACKET_get_quic_vlint (\<lambda>reason_len.
       if reason_len > SIZE_MAX then read_fail
       else
         read_then (PACKET_get_bytes (unat reason_len)) (\<lambda>bs.
           read_return \<lparr>is_app = app, error_code = ec, cc_frame_type = ft, reason = bs\<rparr>)))))"

definition ossl_quic_wire_decode_padding :: "packet \<Rightarrow> nat \<times> packet" where
  "ossl_quic_wire_decode_padding pkt =
     (let n = length (takeWhile (\<lambda>b. b = 0) (PACKET_data pkt)) in
      case PACKET_forward n pkt of (None, pkt) \<Rightarrow> (0, pkt) | (Some _, pkt) \<Rightarrow> (n, pkt))"

definition ossl_quic_wire_decode_frame_ping :: "unit reader" where
  "ossl_quic_wire_decode_frame_ping = expect_frame_header OSSL_QUIC_FRAME_TYPE_PING"

definition ossl_quic_wire_decode_frame_handshake_done :: "unit reader" where
  "ossl_quic_wire_decode_frame_handshake_done = expect_frame_header OSSL_QUIC_FRAME_TYPE_HANDSHAKE_DONE"

section \<open>Decoding transport parameters\<close>

definition ossl_quic_wire_peek_transport_param :: "packet \<Rightarrow> u64 option" where
  "ossl_quic_wire_peek_transport_param pkt = PACKET_peek_quic_vlint pkt"

text \<open>The results are \<open>*id\<close> and the \<open>*len\<close> bytes at the pointer that is returned.\<close>

definition ossl_quic_wire_decode_transport_param_bytes :: "(u64 \<times> bytes) reader" where
  "ossl_quic_wire_decode_transport_param_bytes =
     read_then PACKET_get_quic_vlint (\<lambda>pid.
     read_then PACKET_get_quic_vlint (\<lambda>len.
       if len > SIZE_MAX then read_fail
       else
         read_then (PACKET_get_bytes (unat len)) (\<lambda>b.
           read_return (pid, b))))"

definition ossl_quic_wire_decode_transport_param_int :: "(u64 \<times> u64) reader" where
  "ossl_quic_wire_decode_transport_param_int =
     read_then ossl_quic_wire_decode_transport_param_bytes (\<lambda>(pid, sub).
       case PACKET_get_quic_vlint sub of
         (None, sub) \<Rightarrow> read_fail
       | (Some val, sub) \<Rightarrow> if PACKET_remaining sub > 0 then read_fail else read_return (pid, val))"

text \<open>The bytes of the array \<open>cid->id\<close> that are not received keep their values.\<close>

definition set_prefix :: "bytes \<Rightarrow> bytes \<Rightarrow> bytes" where
  "set_prefix bs old = bs @ drop (length bs) old"

definition ossl_quic_wire_decode_transport_param_cid :: "conn_id \<Rightarrow> (u64 \<times> conn_id) reader" where
  "ossl_quic_wire_decode_transport_param_cid cid =
     read_then ossl_quic_wire_decode_transport_param_bytes (\<lambda>(pid, body).
       if length body > QUIC_MAX_CONN_ID_LEN then read_fail
       else read_return
         (pid, \<lparr>id_len = of_nat (length body), cid_id = set_prefix body (cid_id cid)\<rparr>))"

definition QUIC_MIN_ENCODED_PREFERRED_ADDR_LEN :: nat where "QUIC_MIN_ENCODED_PREFERRED_ADDR_LEN = 41"
definition QUIC_MAX_ENCODED_PREFERRED_ADDR_LEN :: nat where "QUIC_MAX_ENCODED_PREFERRED_ADDR_LEN = 61"
definition QUIC_TPARAM_PREFERRED_ADDR :: u64 where "QUIC_TPARAM_PREFERRED_ADDR = 0x0D"

text \<open>The reads from \<open>pkt2\<close>, the body of the parameter.\<close>

definition decode_preferred_addr_body :: "preferred_addr \<Rightarrow> preferred_addr reader" where
  "decode_preferred_addr_body p =
     read_then (PACKET_copy_bytes 4) (\<lambda>v4.
     read_then PACKET_get_net_2 (\<lambda>port4.
     read_then (PACKET_copy_bytes 16) (\<lambda>v6.
     read_then PACKET_get_net_2 (\<lambda>port6.
     read_then PACKET_get_1 (\<lambda>cidl.
       if unat cidl > QUIC_MAX_CONN_ID_LEN then read_fail
       else
         read_then (PACKET_copy_bytes (unat cidl)) (\<lambda>cid.
         read_then (PACKET_copy_bytes QUIC_STATELESS_RESET_TOKEN_LEN) (\<lambda>token.
           read_return
             \<lparr>ipv4_port = ucast port4, ipv6_port = ucast port6, ipv4 = v4, ipv6 = v6,
              pa_stateless_reset = token,
              pa_cid = \<lparr>id_len = ucast cidl, cid_id = set_prefix cid (cid_id (pa_cid p))\<rparr>\<rparr>)))))))"

definition ossl_quic_wire_decode_transport_param_preferred_addr :: "preferred_addr \<Rightarrow> preferred_addr reader" where
  "ossl_quic_wire_decode_transport_param_preferred_addr p =
     read_then ossl_quic_wire_decode_transport_param_bytes (\<lambda>(pid, body).
       if length body < QUIC_MIN_ENCODED_PREFERRED_ADDR_LEN \<or>
          length body > QUIC_MAX_ENCODED_PREFERRED_ADDR_LEN \<or>
          pid \<noteq> QUIC_TPARAM_PREFERRED_ADDR then read_fail
       else
         (case PACKET_buf_init body (length body) of
            None \<Rightarrow> read_fail
          | Some pkt2 \<Rightarrow>
            (case decode_preferred_addr_body p pkt2 of
               (None, pkt2) \<Rightarrow> read_fail
             | (Some p, pkt2) \<Rightarrow> read_return p)))"

section \<open>Names\<close>

definition frame_type_names :: "(u64 \<times> string) list" where
  "frame_type_names =
     [(OSSL_QUIC_FRAME_TYPE_PADDING, ''PADDING''),
      (OSSL_QUIC_FRAME_TYPE_PING, ''PING''),
      (OSSL_QUIC_FRAME_TYPE_ACK_WITHOUT_ECN, ''ACK_WITHOUT_ECN''),
      (OSSL_QUIC_FRAME_TYPE_ACK_WITH_ECN, ''ACK_WITH_ECN''),
      (OSSL_QUIC_FRAME_TYPE_RESET_STREAM, ''RESET_STREAM''),
      (OSSL_QUIC_FRAME_TYPE_STOP_SENDING, ''STOP_SENDING''),
      (OSSL_QUIC_FRAME_TYPE_CRYPTO, ''CRYPTO''),
      (OSSL_QUIC_FRAME_TYPE_NEW_TOKEN, ''NEW_TOKEN''),
      (OSSL_QUIC_FRAME_TYPE_MAX_DATA, ''MAX_DATA''),
      (OSSL_QUIC_FRAME_TYPE_MAX_STREAM_DATA, ''MAX_STREAM_DATA''),
      (OSSL_QUIC_FRAME_TYPE_MAX_STREAMS_BIDI, ''MAX_STREAMS_BIDI''),
      (OSSL_QUIC_FRAME_TYPE_MAX_STREAMS_UNI, ''MAX_STREAMS_UNI''),
      (OSSL_QUIC_FRAME_TYPE_DATA_BLOCKED, ''DATA_BLOCKED''),
      (OSSL_QUIC_FRAME_TYPE_STREAM_DATA_BLOCKED, ''STREAM_DATA_BLOCKED''),
      (OSSL_QUIC_FRAME_TYPE_STREAMS_BLOCKED_BIDI, ''STREAMS_BLOCKED_BIDI''),
      (OSSL_QUIC_FRAME_TYPE_STREAMS_BLOCKED_UNI, ''STREAMS_BLOCKED_UNI''),
      (OSSL_QUIC_FRAME_TYPE_NEW_CONN_ID, ''NEW_CONN_ID''),
      (OSSL_QUIC_FRAME_TYPE_RETIRE_CONN_ID, ''RETIRE_CONN_ID''),
      (OSSL_QUIC_FRAME_TYPE_PATH_CHALLENGE, ''PATH_CHALLENGE''),
      (OSSL_QUIC_FRAME_TYPE_PATH_RESPONSE, ''PATH_RESPONSE''),
      (OSSL_QUIC_FRAME_TYPE_CONN_CLOSE_TRANSPORT, ''CONN_CLOSE_TRANSPORT''),
      (OSSL_QUIC_FRAME_TYPE_CONN_CLOSE_APP, ''CONN_CLOSE_APP''),
      (OSSL_QUIC_FRAME_TYPE_HANDSHAKE_DONE, ''HANDSHAKE_DONE''),
      (OSSL_QUIC_FRAME_TYPE_STREAM, ''STREAM''),
      (OSSL_QUIC_FRAME_TYPE_STREAM_FIN, ''STREAM_FIN''),
      (OSSL_QUIC_FRAME_TYPE_STREAM_LEN, ''STREAM_LEN''),
      (OSSL_QUIC_FRAME_TYPE_STREAM_LEN_FIN, ''STREAM_LEN_FIN''),
      (OSSL_QUIC_FRAME_TYPE_STREAM_OFF, ''STREAM_OFF''),
      (OSSL_QUIC_FRAME_TYPE_STREAM_OFF_FIN, ''STREAM_OFF_FIN''),
      (OSSL_QUIC_FRAME_TYPE_STREAM_OFF_LEN, ''STREAM_OFF_LEN''),
      (OSSL_QUIC_FRAME_TYPE_STREAM_OFF_LEN_FIN, ''STREAM_OFF_LEN_FIN'')]"

definition ossl_quic_frame_type_to_string :: "u64 \<Rightarrow> string option" where
  "ossl_quic_frame_type_to_string frame_type = map_of frame_type_names frame_type"

end
