(* ===== verification/WPacketSafe.thy ===== *)
theory WPacketSafe
  imports WPacket
begin

text \<open>
  Memory safety of the packet writer: after any of its initialisation functions, no sequence of
  calls, each made after the previous one succeeded, writes outside the buffer or through a NULL
  pointer. The proof is a small program logic over the operations and an invariant of the writer.
\<close>

section \<open>A program logic\<close>

text \<open>\<open>hoare P f Q\<close>: started in \<open>P\<close>, the operation \<open>f\<close> has defined behaviour, and \<open>Q\<close> holds if it succeeds.\<close>

definition hoare :: "(wpacket \<Rightarrow> bool) \<Rightarrow> 'a wop \<Rightarrow> ('a \<Rightarrow> wpacket \<Rightarrow> bool) \<Rightarrow> bool" where
  "hoare P f Q \<longleftrightarrow>
     (\<forall>pkt. P pkt \<longrightarrow>
       (case f pkt of None \<Rightarrow> False | Some (None, _) \<Rightarrow> True | Some (Some x, pkt') \<Rightarrow> Q x pkt'))"

lemma hoareI:
  assumes "\<And>pkt. P pkt \<Longrightarrow> (case f pkt of None \<Rightarrow> False | Some (None, _) \<Rightarrow> True | Some (Some x, pkt') \<Rightarrow> Q x pkt')"
  shows "hoare P f Q"
  using assms by (simp add: hoare_def)

lemma hoareD:
  assumes "hoare P f Q" "P pkt"
  obtains pkt' where "f pkt = Some (None, pkt')"
    | x pkt' where "f pkt = Some (Some x, pkt')" "Q x pkt'"
proof -
  have "case f pkt of None \<Rightarrow> False | Some (None, _) \<Rightarrow> True | Some (Some x, pkt') \<Rightarrow> Q x pkt'"
    using assms by (simp add: hoare_def)
  then show thesis using that by (auto split: option.splits prod.splits)
qed

lemma hoare_bind:
  assumes f: "hoare P f Q" and g: "\<And>x. hoare (Q x) (g x) R"
  shows "hoare P (wbind f g) R"
proof (rule hoareI)
  fix pkt
  assume "P pkt"
  then show "case wbind f g pkt of None \<Rightarrow> False | Some (None, _) \<Rightarrow> True | Some (Some x, pkt') \<Rightarrow> R x pkt'"
    by (rule hoareD [OF f]) (auto simp: wbind_def elim: hoareD [OF g])
qed

lemma hoare_ret: "(\<And>pkt. P pkt \<Longrightarrow> Q x pkt) \<Longrightarrow> hoare P (wret x) Q"
  by (simp add: hoare_def wret_def)

lemma hoare_fail: "hoare P wfail Q"
  by (simp add: hoare_def wfail_def)

lemma hoare_weaken:
  "hoare P f Q \<Longrightarrow> (\<And>pkt. P' pkt \<Longrightarrow> P pkt) \<Longrightarrow> (\<And>x pkt. Q x pkt \<Longrightarrow> Q' x pkt) \<Longrightarrow> hoare P' f Q'"
  by (fastforce simp: hoare_def split: option.splits prod.splits)

lemma hoare_if: "hoare P f Q \<Longrightarrow> hoare P g Q \<Longrightarrow> hoare P (if b then f else g) Q"
  by simp

text \<open>Reasoning at one state.\<close>

lemma hoare_at: "(\<And>pkt. P pkt \<Longrightarrow> hoare (\<lambda>pkt'. pkt' = pkt) f Q) \<Longrightarrow> hoare P f Q"
  by (simp add: hoare_def)

lemma hoare_at_cong:
  "f pkt = g pkt \<Longrightarrow> hoare (\<lambda>pkt'. pkt' = pkt) g Q \<Longrightarrow> hoare (\<lambda>pkt'. pkt' = pkt) f Q"
  by (simp add: hoare_def)

lemma hoare_all_ok:
  assumes "\<And>f. f \<in> set fs \<Longrightarrow> hoare P f (\<lambda>_. P)"
  shows "hoare P (all_ok fs) (\<lambda>_. P)"
  using assms by (induction fs) (auto intro: hoare_bind hoare_ret)

section \<open>The invariant\<close>

text \<open>The bytes behind the pointers, and the capacity of a static buffer.\<close>

definition wp_data :: "wpacket \<Rightarrow> bytes" where
  "wp_data pkt = (case w_buf pkt of NullBuf \<Rightarrow> [] | StaticBuf d \<Rightarrow> d | GrowBuf b \<Rightarrow> bm_data b)"

definition buf_ok :: "nat \<Rightarrow> wpacket \<Rightarrow> bool" where
  "buf_ok cap pkt \<longleftrightarrow>
     (case w_buf pkt of NullBuf \<Rightarrow> False
      | StaticBuf d \<Rightarrow> length d = cap \<and> unat (w_maxsize pkt) \<le> cap
      | GrowBuf b \<Rightarrow> \<not> w_endfirst pkt \<and> unat (w_written pkt) \<le> length (bm_data b) \<and>
          length (bm_data b) \<le> bm_max b \<and> bm_max b < 2 ^ 31)"

definition sub_ok :: "wpacket_sub \<Rightarrow> bool" where
  "sub_ok sub \<longleftrightarrow> unat (lenbytes sub) \<le> unat (pwritten sub) \<and>
     (lenbytes sub \<noteq> 0 \<longrightarrow> unat (packet_len sub) + unat (lenbytes sub) = unat (pwritten sub)) \<and>
     (lenbytes sub \<noteq> 0 \<and> has_flag sub WPACKET_FLAGS_QUIC_VLINT \<longrightarrow> unat (lenbytes sub) \<in> {1, 2, 4, 8})"

text \<open>Each sub-packet starts behind what its parent had when it was opened.\<close>

fun subs_ok :: "nat \<Rightarrow> wpacket_sub list \<Rightarrow> bool" where
  "subs_ok n [] \<longleftrightarrow> True"
| "subs_ok n (sub # subs) \<longleftrightarrow> unat (pwritten sub) \<le> n \<and> sub_ok sub \<and>
     subs_ok (unat (pwritten sub) - unat (lenbytes sub)) subs"

definition wp_ok :: "nat \<Rightarrow> wpacket \<Rightarrow> bool" where
  "wp_ok cap pkt \<longleftrightarrow> w_curr pkt = w_written pkt \<and> w_written pkt \<le> w_maxsize pkt \<and> buf_ok cap pkt \<and>
     subs_ok (unat (w_written pkt)) (w_subs pkt) \<and>
     (w_endfirst pkt \<longrightarrow> (\<forall>sub\<in>set (w_subs pkt). lenbytes sub = 0))"

lemma subs_ok_mono: "subs_ok m subs \<Longrightarrow> m \<le> n \<Longrightarrow> subs_ok n subs"
  by (cases subs) auto

lemma subs_ok_member: "subs_ok n subs \<Longrightarrow> sub \<in> set subs \<Longrightarrow> sub_ok sub \<and> unat (pwritten sub) \<le> n"
  by (induction n subs rule: subs_ok.induct) fastforce+

lemma buf_ok_written: "wp_ok cap pkt \<Longrightarrow> unat (w_written pkt) \<le> length (wp_data pkt)"
  by (auto simp: wp_ok_def buf_ok_def wp_data_def u64_le_nat split: wbuf.splits)

section \<open>The operations\<close>

lemma BUF_MEM_grow_grows:
  assumes g: "BUF_MEM_grow allocs b len = (r, b', allocs')" and r: "r \<noteq> 0"
    and b: "length (bm_data b) \<le> unat len" "length (bm_data b) \<le> bm_max b" "bm_max b < 2 ^ 31"
  shows "bm_data b' = bm_data b @ replicate (unat len - length (bm_data b)) 0"
    and "unat len \<le> bm_max b'" "bm_max b' < 2 ^ 31"
proof -
  have max: "unat len \<le> unat ((len + 3) div 3 * 4) \<and> unat ((len + 3) div 3 * 4) < 2 ^ 31"
    if "\<not> len > LIMIT_BEFORE_EXPANSION"
  proof -
    have l: "unat len \<le> 1610612732"
      using that by (simp add: LIMIT_BEFORE_EXPANSION_def u64_less_nat)
    then have "unat (len + 3) = unat len + 3" by (simp add: unat_add_u64)
    then have "unat ((len + 3) div 3) = (unat len + 3) div 3" by (simp add: unat_div)
    moreover from this have "unat ((len + 3) div 3 * 4) = (unat len + 3) div 3 * 4"
      using l by (simp add: unat_mult_u64)
    moreover have "unat len \<le> (unat len + 3) div 3 * 4" by presburger
    ultimately show ?thesis using l by simp
  qed
  show "bm_data b' = bm_data b @ replicate (unat len - length (bm_data b)) 0"
    and "unat len \<le> bm_max b'" "bm_max b' < 2 ^ 31"
    using g r b max by (auto simp: BUF_MEM_grow_def Let_def split: if_splits)
qed

text \<open>The new length of a buffer that is too short doubles the larger of the old length and the
  request.\<close>

lemma reserve_newlen_bounds:
  fixes len blen :: size_t
  defines "newlen \<equiv> reserve_newlen len blen"
  shows "unat blen \<le> unat newlen" "w \<le> unat blen \<Longrightarrow> newlen \<noteq> SIZE_MAX \<Longrightarrow> w + unat len \<le> unat newlen"
    and "newlen \<noteq> 0"
proof -
  define reflen where "reflen = (if len > blen then len else blen)"
  have new: "newlen = (if reflen > SIZE_MAX div 2 then SIZE_MAX
      else if reflen * 2 < DEFAULT_BUF_SIZE then DEFAULT_BUF_SIZE else reflen * 2)"
    by (simp add: newlen_def reserve_newlen_def reflen_def Let_def)
  have r: "unat blen \<le> unat reflen" "unat len \<le> unat reflen"
    "unat len \<le> unat blen \<or> reflen = len" by (auto simp: reflen_def u64_less_nat)
  have half: "unat (SIZE_MAX div 2) = 9223372036854775807" by (simp add: unat_div)
  have *: "\<not> reflen > SIZE_MAX div 2 \<Longrightarrow> unat (reflen * 2) = unat reflen * 2"
    using half by (subst unat_mult_u64) (simp_all add: u64_less_nat)
  show "unat blen \<le> unat newlen"
    using * r unat_u64_le_max [of blen] by (auto simp: new u64_less_nat DEFAULT_BUF_SIZE_def)
  show "w + unat len \<le> unat newlen" if "w \<le> unat blen" "newlen \<noteq> SIZE_MAX"
    using * r that by (auto simp: new u64_less_nat DEFAULT_BUF_SIZE_def split: if_splits)
  show "newlen \<noteq> 0"
    using * by (auto simp: new u64_less_nat DEFAULT_BUF_SIZE_def split: if_splits)
qed

lemma BUF_MEM_grow_size_max: "bm_max b < 2 ^ 31 \<Longrightarrow> length (bm_data b) \<le> bm_max b \<Longrightarrow>
    fst (BUF_MEM_grow allocs b SIZE_MAX) = 0"
  by (simp add: BUF_MEM_grow_def LIMIT_BEFORE_EXPANSION_def)

lemma wp_room_nat:
  assumes "wp_ok cap pkt" "\<not> w_maxsize pkt - w_written pkt < len"
  shows "unat (w_written pkt) + unat len \<le> unat (w_maxsize pkt)"
proof -
  have le: "w_written pkt \<le> w_maxsize pkt" using assms(1) by (simp add: wp_ok_def)
  then show ?thesis using assms(2) unat_sub_u64 [OF le] by (simp add: u64_nat)
qed

text \<open>Growing keeps the contents and makes room for the request.\<close>

lemma wpacket_grow_room:
  assumes ok: "wp_ok cap pkt" and len: "len \<noteq> 0" "\<not> w_maxsize pkt - w_written pkt < len"
    and g: "wpacket_grow len pkt = Some (res, pkt')" and res: "res \<noteq> None"
  obtains buf as where "pkt' = pkt\<lparr>w_buf := buf, w_allocs := as\<rparr>"
    "wp_ok cap pkt'" "take (length (wp_data pkt)) (wp_data pkt') = wp_data pkt"
    "unat (w_written pkt) + unat len \<le> length (wp_data pkt')" "GETBUF pkt' \<noteq> None"
proof (cases "w_buf pkt")
  case NullBuf
  then show thesis using ok by (simp add: wp_ok_def buf_ok_def)
next
  case (StaticBuf d)
  have "pkt' = pkt" using g StaticBuf by (simp add: wpacket_grow_def wret_def)
  moreover have "unat (w_written pkt) + unat len \<le> unat (w_maxsize pkt)"
    using wp_room_nat [OF ok len(2)] .
  ultimately show thesis
    using that [where buf = "w_buf pkt" and as = "w_allocs pkt"] ok StaticBuf
    by (simp add: wp_ok_def buf_ok_def wp_data_def GETBUF_def)
next
  case (GrowBuf b)
  let ?blen = "of_nat (length (bm_data b)) :: size_t"
  have b: "unat (w_written pkt) \<le> length (bm_data b)" "length (bm_data b) \<le> bm_max b" "bm_max b < 2 ^ 31"
    using ok GrowBuf by (auto simp: wp_ok_def buf_ok_def)
  have pos: "0 < unat len" using len(1) by (simp add: unat_gt_0)
  have blen: "unat ?blen = length (bm_data b)" using b by (simp add: unat_of_nat_u64)
  have sub: "unat (?blen - w_written pkt) = length (bm_data b) - unat (w_written pkt)"
    using b blen by (subst unat_sub_u64) (simp_all add: u64_le_nat)
  show thesis
  proof (cases "?blen - w_written pkt < len")
    case False
    then have "pkt' = pkt" using g GrowBuf by (simp add: wpacket_grow_def wret_def)
    moreover have "unat (w_written pkt) + unat len \<le> length (bm_data b)"
      using False sub b by (simp add: u64_less_nat)
    moreover have "bm_max b \<noteq> 0" using calculation(2) pos b by linarith
    ultimately show thesis
      using that [where buf = "w_buf pkt" and as = "w_allocs pkt"] ok GrowBuf by (simp add: wp_data_def GETBUF_def)
  next
    case True
    let ?new = "reserve_newlen len ?blen"
    obtain r b' as where grow: "BUF_MEM_grow (w_allocs pkt) b ?new = (r, b', as)"
      by (cases "BUF_MEM_grow (w_allocs pkt) b ?new") auto
    have r: "r \<noteq> 0" and pkt': "pkt' = pkt\<lparr>w_buf := GrowBuf b', w_allocs := as\<rparr>"
      using g res True GrowBuf grow
      by (auto simp: wpacket_grow_def wret_def wfail_def Let_def split: if_splits)
    have "?new \<noteq> SIZE_MAX"
      using BUF_MEM_grow_size_max [OF b(3,2), of "w_allocs pkt"] grow r by auto
    then have new: "length (bm_data b) \<le> unat ?new" "unat (w_written pkt) + unat len \<le> unat ?new"
      using reserve_newlen_bounds [where blen = ?blen and len = len] blen b by auto
    note b' = BUF_MEM_grow_grows [OF grow r new(1) b(2,3)]
    have len': "length (bm_data b') = unat ?new" using b'(1) new(1) by simp
    have "bm_max b' \<noteq> 0" using b'(2) new(2) pos by linarith
    then show thesis
      using that [where buf = "GrowBuf b'" and as = as] ok GrowBuf b' new len' pkt'
      by (simp add: wp_ok_def buf_ok_def wp_data_def GETBUF_def)
  qed
qed

lemma wpacket_grow_defined: "wpacket_grow len pkt \<noteq> None"
  by (auto simp: wpacket_grow_def wret_def wfail_def Let_def split: wbuf.splits prod.splits)

text \<open>What a successful allocation gives: the packet with \<open>len\<close> more bytes, and a pointer to them.\<close>

definition allocated :: "size_t \<Rightarrow> wpacket \<Rightarrow> nat option \<Rightarrow> wpacket \<Rightarrow> bool" where
  "allocated len pkt p pkt' \<longleftrightarrow>
     (\<exists>buf as. pkt' = pkt\<lparr>w_buf := buf, w_allocs := as, w_written := w_written pkt + len,
        w_curr := w_written pkt + len\<rparr>) \<and>
     take (length (wp_data pkt)) (wp_data pkt') = wp_data pkt \<and>
     unat (w_written pkt') = unat (w_written pkt) + unat len \<and>
     p = Some (if w_endfirst pkt then unat (w_maxsize pkt) - unat (w_written pkt) - unat len
               else unat (w_written pkt)) \<and>
     the p + unat len \<le> length (wp_data pkt')"

lemma allocate_bytes_spec:
  assumes ok: "wp_ok cap pkt"
  obtains pkt' where "WPACKET_allocate_bytes len pkt = Some (None, pkt')"
  | p pkt' where "WPACKET_allocate_bytes len pkt = Some (Some p, pkt')" "wp_ok cap pkt'"
      "allocated len pkt p pkt'"
proof (cases "w_subs pkt \<noteq> [] \<and> len \<noteq> 0 \<and> \<not> w_maxsize pkt - w_written pkt < len")
  case False
  then have "WPACKET_allocate_bytes len pkt = Some (None, pkt)"
    by (auto simp: WPACKET_allocate_bytes_def WPACKET_reserve_bytes_def wbind_def wfail_def)
  then show thesis by (rule that(1))
next
  case True
  obtain res pkt1 where g: "wpacket_grow len pkt = Some (res, pkt1)"
    using wpacket_grow_defined [of len pkt] by auto
  show thesis
  proof (cases "res = None")
    case True
    then have "WPACKET_allocate_bytes len pkt = Some (None, pkt1)"
      using g \<open>w_subs pkt \<noteq> [] \<and> _\<close>
      by (simp add: WPACKET_allocate_bytes_def WPACKET_reserve_bytes_def wbind_def)
    then show thesis by (rule that(1))
  next
    case False
    have len: "len \<noteq> 0" "\<not> w_maxsize pkt - w_written pkt < len" using True by auto
    obtain buf as where pkt1: "pkt1 = pkt\<lparr>w_buf := buf, w_allocs := as\<rparr>" and ok1: "wp_ok cap pkt1"
      and data: "take (length (wp_data pkt)) (wp_data pkt1) = wp_data pkt"
      and room: "unat (w_written pkt) + unat len \<le> length (wp_data pkt1)" and b: "GETBUF pkt1 \<noteq> None"
      using wpacket_grow_room [OF ok len g False] .
    let ?pkt' = "pkt1\<lparr>w_written := w_written pkt + len, w_curr := w_written pkt + len\<rparr>"
    have max: "unat (w_written pkt) + unat len \<le> unat (w_maxsize pkt)"
      using wp_room_nat [OF ok len(2)] .
    then have written: "unat (w_written pkt + len) = unat (w_written pkt) + unat len"
      using unat_u64_bound [of "w_maxsize pkt"] by (simp add: unat_add_u64)
    have curr: "w_curr pkt = w_written pkt" and cap: "w_endfirst pkt \<Longrightarrow> unat (w_maxsize pkt) \<le> length (wp_data pkt1)"
      using ok ok1 pkt1 by (auto simp: wp_ok_def buf_ok_def wp_data_def split: wbuf.splits)
    define p where "p = Some (if w_endfirst pkt then unat (w_maxsize pkt) - unat (w_written pkt) - unat len
        else unat (w_written pkt))"
    have "unat (w_maxsize pkt - w_written pkt) = unat (w_maxsize pkt) - unat (w_written pkt)"
      using ok by (intro unat_sub_u64) (simp add: wp_ok_def)
    then have "WPACKET_allocate_bytes len pkt = Some (Some p, ?pkt')"
      using True False g b curr pkt1
      by (auto simp: WPACKET_allocate_bytes_def WPACKET_reserve_bytes_def wbind_def wret_def
          WPACKET_get_curr_def p_def split: option.splits)
    moreover have "wp_ok cap ?pkt'"
      using ok1 max written room pkt1 subs_ok_mono [of "unat (w_written pkt)" "w_subs pkt"]
      by (auto simp: wp_ok_def buf_ok_def u64_le_nat wp_data_def split: wbuf.splits)
    moreover have "allocated len pkt p ?pkt'"
      using data written room cap max
      by (auto simp: allocated_def pkt1 p_def wp_data_def split: wbuf.splits)
    ultimately show thesis using that(2) by blast
  qed
qed

lemma store_defined:
  assumes "wp_ok cap pkt" "off + length bs \<le> length (wp_data pkt)"
  obtains buf where "store (Some off) bs pkt = Some (Some (), pkt\<lparr>w_buf := buf\<rparr>)"
    "wp_ok cap (pkt\<lparr>w_buf := buf\<rparr>)"
    "wp_data (pkt\<lparr>w_buf := buf\<rparr>) = take off (wp_data pkt) @ bs @ drop (off + length bs) (wp_data pkt)"
  using assms
  by (cases "w_buf pkt")
    (auto simp: store_def store_at_def wp_ok_def buf_ok_def wp_data_def)

text \<open>The invariant with the stack of sub-packets fixed, and pointers to \<open>n\<close> writable bytes.\<close>

definition wpk :: "nat \<Rightarrow> wpacket_sub list \<Rightarrow> wpacket \<Rightarrow> bool" where
  "wpk cap subs pkt \<longleftrightarrow> wp_ok cap pkt \<and> w_subs pkt = subs"

definition ptr_ok :: "nat \<Rightarrow> nat option \<Rightarrow> wpacket \<Rightarrow> bool" where
  "ptr_ok n p pkt \<longleftrightarrow> (\<exists>off. p = Some off \<and> off + n \<le> length (wp_data pkt))"

named_theorems safe \<open>safety of the operations\<close>

lemma safe_allocate [safe]:
  "hoare (wpk cap subs) (WPACKET_allocate_bytes len) (\<lambda>p pkt. wpk cap subs pkt \<and> ptr_ok (unat len) p pkt)"
proof (rule hoareI)
  fix pkt
  assume pkt: "wpk cap subs pkt"
  then have "wp_ok cap pkt" by (simp add: wpk_def)
  then show "case WPACKET_allocate_bytes len pkt of None \<Rightarrow> False | Some (None, _) \<Rightarrow> True
      | Some (Some p, pkt') \<Rightarrow> wpk cap subs pkt' \<and> ptr_ok (unat len) p pkt'"
    by (rule allocate_bytes_spec [where len = len])
      (use pkt in \<open>auto simp: wpk_def ptr_ok_def allocated_def\<close>)
qed

lemma safe_store [safe]:
  "hoare (\<lambda>pkt. wpk cap subs pkt \<and> ptr_ok (length bs) p pkt) (store p bs) (\<lambda>_. wpk cap subs)"
proof (rule hoareI)
  fix pkt
  assume pkt: "wpk cap subs pkt \<and> ptr_ok (length bs) p pkt"
  then obtain off where p: "p = Some off" "off + length bs \<le> length (wp_data pkt)" and ok: "wp_ok cap pkt"
    by (auto simp: ptr_ok_def wpk_def)
  show "case store p bs pkt of None \<Rightarrow> False | Some (None, _) \<Rightarrow> True | Some (Some x, pkt') \<Rightarrow> wpk cap subs pkt'"
    by (rule store_defined [OF ok p(2)]) (use pkt p(1) in \<open>simp add: wpk_def\<close>)
qed

lemma put_value_loop_be: "put_value_loop v n = (be_bytes n v, drop_bit (8 * n) v)"
proof (induction n arbitrary: v)
  case (Suc n)
  have "to_u8 (v AND 0xff) = to_u8 v"
  proof -
    have "(0xff :: u64) = mask 8" by (simp add: mask_eq_exp_minus_1)
    then have "v AND 0xff = take_bit 8 v" by (simp only: take_bit_eq_mask)
    then show ?thesis using to_u8_take [of 8 v] by simp
  qed
  then show ?case by (simp add: Suc add.commute)
qed simp

lemma safe_put_value [safe]:
  "hoare (\<lambda>pkt. wpk cap subs pkt \<and> ptr_ok (unat len) p pkt) (put_value p v len) (\<lambda>_. wpk cap subs)"
  using safe_store [of cap subs "be_bytes (unat len) v" p]
  by (auto simp: put_value_def put_value_loop_be intro: hoare_ret hoare_bind hoare_if hoare_fail)

lemma length_encode_n: "n \<in> {1, 2, 4, 8} \<Longrightarrow> length (ossl_quic_vlint_encode_n v n) = n"
  by (auto simp: ossl_quic_vlint_encode_n_def)

lemma safe_put_quic_value [safe]:
  assumes "unat len \<in> {1, 2, 4, 8}"
  shows "hoare (\<lambda>pkt. wpk cap subs pkt \<and> ptr_ok (unat len) p pkt) (put_quic_value p v len) (\<lambda>_. wpk cap subs)"
  using safe_store [of cap subs "ossl_quic_vlint_encode_n v (unat len)" p] assms
  by (auto simp: put_quic_value_def length_encode_n intro: hoare_ret hoare_fail)

lemma safe_put_bytes [safe]: "hoare (wpk cap subs) (WPACKET_put_bytes_n v n) (\<lambda>_. wpk cap subs)"
  unfolding WPACKET_put_bytes_n_def
  by (intro hoare_if hoare_fail hoare_bind [OF safe_allocate] safe_put_value)

lemma safe_memset [safe]: "hoare (wpk cap subs) (WPACKET_memset ch len) (\<lambda>_. wpk cap subs)"
  using safe_store [of cap subs "replicate (unat len) ch"]
  by (auto simp: WPACKET_memset_def intro!: hoare_ret hoare_bind [OF safe_allocate] hoare_if)

lemma safe_memcpy [safe]:
  assumes "length src < 2 ^ 64"
  shows "hoare (wpk cap subs) (WPACKET_memcpy src) (\<lambda>_. wpk cap subs)"
  using safe_store [of cap subs src] assms unat_of_nat_u64 [OF assms]
  by (auto simp: WPACKET_memcpy_def Let_def intro!: hoare_ret hoare_bind [OF safe_allocate] hoare_if
      simp del: unat_of_nat)

lemma safe_write_vlint [safe]: "hoare (wpk cap subs) (WPACKET_quic_write_vlint v) (\<lambda>_. wpk cap subs)"
proof (cases "ossl_quic_vlint_encode_len v = 0")
  case True
  then show ?thesis by (simp add: WPACKET_quic_write_vlint_def hoare_fail)
next
  case False
  then have "v \<le> OSSL_QUIC_VLINT_MAX"
    by (auto simp: ossl_quic_vlint_encode_len_def OSSL_QUIC_VLINT_2B_MIN_def OSSL_QUIC_VLINT_4B_MIN_def
        OSSL_QUIC_VLINT_8B_MIN_def OSSL_QUIC_VLINT_MAX_def u64_nat split: if_splits)
  then show ?thesis
    using False safe_store [of cap subs "ossl_quic_vlint_encode v"]
    by (auto simp: WPACKET_quic_write_vlint_def length_vlint_encode intro: hoare_bind [OF safe_allocate])
qed

subsection \<open>Closing sub-packets\<close>

lemma safe_write_length:
  assumes sub: "sub_ok sub"
  shows "hoare (\<lambda>pkt. wpk cap subs pkt \<and> unat (pwritten sub) \<le> unat (w_written pkt))
    (write_length sub has_parent packlen) (\<lambda>_. wpk cap subs)"
proof (rule hoareI)
  fix pkt
  assume pkt: "wpk cap subs pkt \<and> unat (pwritten sub) \<le> unat (w_written pkt)"
  let ?p = "Some (unat (packet_len sub))"
  have post: "hoare (\<lambda>pkt'. pkt' = pkt) f (\<lambda>_. wpk cap subs)"
    if "hoare (\<lambda>pkt. wpk cap subs pkt \<and> ptr_ok (unat (lenbytes sub)) ?p pkt) f (\<lambda>_. wpk cap subs)"
      "lenbytes sub > 0" for f :: "unit wop"
  proof -
    have "unat (w_written pkt) \<le> length (wp_data pkt)"
      using pkt buf_ok_written [of cap pkt] by (simp add: wpk_def)
    then have "ptr_ok (unat (lenbytes sub)) ?p pkt"
      using sub pkt that(2) by (auto simp: ptr_ok_def sub_ok_def word_gt_0)
    then show ?thesis using that(1) pkt by (auto intro: hoare_weaken)
  qed
  have "hoare (\<lambda>pkt'. pkt' = pkt) (write_length sub has_parent packlen) (\<lambda>_. wpk cap subs)"
  proof (cases "lenbytes sub > 0")
    case True
    have quic: "has_flag sub WPACKET_FLAGS_QUIC_VLINT \<Longrightarrow> unat (lenbytes sub) \<in> {1, 2, 4, 8}"
      using sub True by (auto simp: sub_ok_def word_gt_0)
    have ret: "hoare (\<lambda>pkt'. pkt' = pkt) (wret ()) (\<lambda>_. wpk cap subs)"
      by (rule hoare_ret) (use pkt in auto)
    consider "write_length sub has_parent packlen pkt = wret () pkt"
      | "write_length sub has_parent packlen pkt = put_value ?p packlen (lenbytes sub) pkt"
      | "has_flag sub WPACKET_FLAGS_QUIC_VLINT"
        "write_length sub has_parent packlen pkt = put_quic_value ?p packlen (lenbytes sub) pkt"
      using True
      by (cases "GETBUF pkt"; cases "has_flag sub WPACKET_FLAGS_QUIC_VLINT") (auto simp: write_length_def)
    then show ?thesis
      using ret post [OF safe_put_value True] post [OF safe_put_quic_value [OF quic] True]
      by cases (metis hoare_at_cong)+
  next
    case False
    let ?put = "wbind (WPACKET_put_bytes_n packlen (num_len_bytes packlen)) (\<lambda>_.
        if packlen > 0x7f then WPACKET_put_bytes_n (num_len_bytes packlen OR 0x80) 1 else wret ())"
    have "hoare (wpk cap subs) ?put (\<lambda>_. wpk cap subs)"
      by (intro hoare_bind [OF safe_put_bytes] hoare_if safe_put_bytes hoare_ret)
    then have "hoare (\<lambda>pkt'. pkt' = pkt) ?put (\<lambda>_. wpk cap subs)"
      by (rule hoare_weaken) (use pkt in auto)
    moreover have "write_length sub has_parent packlen pkt = ?put pkt \<or>
        write_length sub has_parent packlen pkt = wret () pkt"
      using False by (simp add: write_length_def)
    moreover have "hoare (\<lambda>pkt'. pkt' = pkt) (wret ()) (\<lambda>_. wpk cap subs)"
      by (rule hoare_ret) (use pkt in auto)
    ultimately show ?thesis by (metis hoare_at_cong)
  qed
  then show "case write_length sub has_parent packlen pkt of None \<Rightarrow> False | Some (None, _) \<Rightarrow> True
      | Some (Some x, pkt') \<Rightarrow> wpk cap subs pkt'"
    by (simp add: hoare_def)
qed

lemma abandon_ok:
  assumes ok: "wp_ok cap pkt" and subs: "w_subs pkt = sub # subs" and w: "w_written pkt = pwritten sub"
  shows "wp_ok cap ((abandon_length sub pkt)\<lparr>w_subs := subs\<rparr>)"
proof -
  have sub: "unat (lenbytes sub) \<le> unat (pwritten sub)" and curr: "w_curr pkt = w_written pkt"
    and tl: "subs_ok (unat (pwritten sub) - unat (lenbytes sub)) subs"
    using ok subs by (auto simp: wp_ok_def sub_ok_def)
  have d: "unat (pwritten sub - lenbytes sub) = unat (pwritten sub) - unat (lenbytes sub)"
    using sub by (intro unat_sub_u64) (simp add: u64_le_nat)
  have "subs_ok (unat (pwritten sub)) subs"
    using tl by (rule subs_ok_mono) simp
  then show ?thesis
    using ok subs w curr tl d
    by (auto simp: abandon_length_def wp_ok_def buf_ok_def u64_le_nat split: wbuf.splits)
qed

lemma wp_ok_pop:
  assumes "wp_ok cap pkt" "w_subs pkt = sub # subs"
  shows "wp_ok cap (pkt\<lparr>w_subs := subs\<rparr>)"
proof -
  have "subs_ok (unat (w_written pkt)) subs"
    using assms by (auto simp: wp_ok_def elim: subs_ok_mono)
  then show ?thesis using assms by (auto simp: wp_ok_def buf_ok_def split: wbuf.splits)
qed

lemma safe_intern_close [safe]:
  "hoare (wpk cap (sub # subs)) (wpacket_intern_close sub has_parent True) (\<lambda>_. wpk cap subs)"
proof (rule hoareI)
  fix pkt
  assume pkt: "wpk cap (sub # subs) pkt"
  then have ok: "wp_ok cap pkt" "w_subs pkt = sub # subs" and sub: "sub_ok sub"
    and w: "unat (pwritten sub) \<le> unat (w_written pkt)"
    by (auto simp: wpk_def wp_ok_def)
  define n where "n = w_written pkt - pwritten sub"
  show "case wpacket_intern_close sub has_parent True pkt of None \<Rightarrow> False | Some (None, _) \<Rightarrow> True
      | Some (Some x, pkt') \<Rightarrow> wpk cap subs pkt'"
  proof (cases "n = 0 \<and> has_flag sub WPACKET_FLAGS_ABANDON_ON_ZERO_LENGTH")
    case True
    then have "w_written pkt = pwritten sub" by (simp add: n_def)
    note abandon_ok [OF ok this]
    moreover have "has_flag (sub\<lparr>packet_len := 0, lenbytes := 0\<rparr>) = has_flag sub"
      by (simp add: has_flag_def fun_eq_iff)
    moreover have "w_subs (abandon_length sub pkt) = w_subs pkt"
      by (simp add: abandon_length_def)
    ultimately show ?thesis
      using True ok(2)
      by (simp add: wpacket_intern_close_def Let_def n_def write_length_def wbind_def wret_def wfail_def wpk_def)
  next
    case False
    have "hoare (\<lambda>pkt'. pkt' = pkt) (write_length sub has_parent n) (\<lambda>_. wpk cap (sub # subs))"
      by (rule hoare_weaken [OF safe_write_length [OF sub, of cap "sub # subs"]]) (use pkt w in auto)
    moreover have "hoare (wpk cap (sub # subs)) (\<lambda>pkt. wret () (pkt\<lparr>w_subs := tl (w_subs pkt)\<rparr>)) (\<lambda>_. wpk cap subs)"
      using wp_ok_pop by (auto simp: hoare_def wret_def wpk_def)
    ultimately have "hoare (\<lambda>pkt'. pkt' = pkt) (wbind (write_length sub has_parent n)
        (\<lambda>_ pkt. wret () (pkt\<lparr>w_subs := tl (w_subs pkt)\<rparr>))) (\<lambda>_. wpk cap subs)"
      by (rule hoare_bind)
    then show ?thesis
      using False by (auto simp: hoare_def wpacket_intern_close_def Let_def n_def wfail_def)
  qed
qed

lemma safe_intern_fill:
  assumes "sub \<in> set subs"
  shows "hoare (wpk cap subs) (wpacket_intern_close sub has_parent False) (\<lambda>_. wpk cap subs)"
proof (rule hoare_at)
  fix pkt
  assume pkt: "wpk cap subs pkt"
  then have sub: "sub_ok sub" "unat (pwritten sub) \<le> unat (w_written pkt)"
    using assms subs_ok_member [of "unat (w_written pkt)" subs sub] by (auto simp: wpk_def wp_ok_def)
  define n where "n = w_written pkt - pwritten sub"
  have "hoare (\<lambda>pkt'. pkt' = pkt) (write_length sub has_parent n) (\<lambda>_. wpk cap subs)"
    by (rule hoare_weaken [OF safe_write_length [OF sub(1), of cap subs]]) (use pkt sub in auto)
  then have "hoare (\<lambda>pkt'. pkt' = pkt) (wbind (write_length sub has_parent n) (\<lambda>_. wret ())) (\<lambda>_. wpk cap subs)"
    by (rule hoare_bind) (rule hoare_ret)
  moreover have "wpacket_intern_close sub has_parent False pkt = Some (None, pkt) \<or>
      wpacket_intern_close sub has_parent False pkt = wbind (write_length sub has_parent n) (\<lambda>_. wret ()) pkt"
    by (simp add: wpacket_intern_close_def Let_def n_def wfail_def wbind_def)
  ultimately show "hoare (\<lambda>pkt'. pkt' = pkt) (wpacket_intern_close sub has_parent False) (\<lambda>_. wpk cap subs)"
    by (auto simp: hoare_def)
qed

lemma safe_fill_lengths [safe]: "hoare (wpk cap subs) WPACKET_fill_lengths (\<lambda>_. wpk cap subs)"
proof -
  have "hoare (wpk cap subs) (fill_lengths_loop ss) (\<lambda>_. wpk cap subs)" if "set ss \<subseteq> set subs" for ss
    using that by (induction ss) (auto intro: hoare_ret hoare_bind [OF safe_intern_fill])
  from this [of subs] show ?thesis
    by (auto simp: hoare_def WPACKET_fill_lengths_def wpk_def wfail_def)
qed

text \<open>Operations that may change the stack of sub-packets keep the invariant.\<close>

lemma hoare_wp_okI: "(\<And>subs. hoare (wpk cap subs) f (\<lambda>_. wp_ok cap)) \<Longrightarrow> hoare (wp_ok cap) f (\<lambda>_. wp_ok cap)"
  by (simp add: hoare_def wpk_def)

lemma wpk_wp_ok: "hoare P f (\<lambda>_. wpk cap subs) \<Longrightarrow> hoare P f (\<lambda>_. wp_ok cap)"
  by (erule hoare_weaken) (simp_all add: wpk_def)

lemma keep_wp_ok: "(\<And>subs. hoare (wpk cap subs) f (\<lambda>_. wpk cap subs)) \<Longrightarrow> hoare (wp_ok cap) f (\<lambda>_. wp_ok cap)"
  by (blast intro: hoare_wp_okI wpk_wp_ok)

lemma safe_close: "hoare (wp_ok cap) WPACKET_close (\<lambda>_. wp_ok cap)"
proof (rule hoare_wp_okI)
  fix subs
  show "hoare (wpk cap subs) WPACKET_close (\<lambda>_. wp_ok cap)"
  proof (cases subs)
    case (Cons sub parents)
    then show ?thesis
      using wpk_wp_ok [OF safe_intern_close [of cap sub parents True]]
      by (auto simp: hoare_def WPACKET_close_def wpk_def wfail_def)
  qed (simp add: hoare_def WPACKET_close_def wpk_def wfail_def)
qed

lemma wp_ok_no_subs: "wp_ok cap pkt \<Longrightarrow> wp_ok cap (pkt\<lparr>w_subs := []\<rparr>)"
  by (simp add: wp_ok_def buf_ok_def split: wbuf.splits)

lemma safe_finish: "hoare (wp_ok cap) WPACKET_finish (\<lambda>_. wp_ok cap)"
proof (rule hoare_wp_okI)
  fix subs
  have ret: "hoare (wpk cap ss) (\<lambda>pkt. wret () (pkt\<lparr>w_subs := []\<rparr>)) (\<lambda>_. wp_ok cap)" for ss
    using wp_ok_no_subs by (auto simp: hoare_def wret_def wpk_def)
  show "hoare (wpk cap subs) WPACKET_finish (\<lambda>_. wp_ok cap)"
  proof (cases subs)
    case (Cons sub parents)
    then show ?thesis
      using hoare_bind [OF safe_intern_close [of cap sub parents False] ret]
      by (auto simp: hoare_def WPACKET_finish_def wpk_def wfail_def)
  qed (simp add: hoare_def WPACKET_finish_def wpk_def wfail_def)
qed

lemma safe_set_flags:
  assumes "flags AND WPACKET_FLAGS_QUIC_VLINT = 0"
  shows "hoare (wp_ok cap) (WPACKET_set_flags flags) (\<lambda>_. wp_ok cap)"
proof (rule hoareI)
  fix pkt
  assume "wp_ok cap pkt"
  then show "case WPACKET_set_flags flags pkt of None \<Rightarrow> False | Some (None, _) \<Rightarrow> True
      | Some (Some x, pkt') \<Rightarrow> wp_ok cap pkt'"
    using assms
    by (auto simp: WPACKET_set_flags_def wfail_def wret_def wp_ok_def buf_ok_def sub_ok_def has_flag_def
        split: list.splits wbuf.splits)
qed

text \<open>A larger size limit is safe for a static buffer only within the buffer.\<close>

lemma safe_set_max_size:
  assumes "unat n \<le> cap"
  shows "hoare (wp_ok cap) (WPACKET_set_max_size n) (\<lambda>_. wp_ok cap)"
  using assms
  by (auto simp: hoare_def WPACKET_set_max_size_def wfail_def wret_def wp_ok_def buf_ok_def Let_def
      not_less split: wbuf.splits)

subsection \<open>Opening sub-packets\<close>

text \<open>An allocation does not depend on the stack of sub-packets, as long as it is not empty.\<close>

lemma allocate_subs:
  assumes "w_subs pkt \<noteq> []" "ss \<noteq> []"
  shows "WPACKET_allocate_bytes len (pkt\<lparr>w_subs := ss\<rparr>) =
    map_option (\<lambda>(r, pkt'). (r, pkt'\<lparr>w_subs := ss\<rparr>)) (WPACKET_allocate_bytes len pkt)"
proof -
  have grow: "wpacket_grow len (pkt\<lparr>w_subs := ss\<rparr>) =
      map_option (\<lambda>(r, pkt'). (r, pkt'\<lparr>w_subs := ss\<rparr>)) (wpacket_grow len pkt)"
    by (simp add: wpacket_grow_def wret_def wfail_def Let_def split_beta split: wbuf.split)
  have curr: "WPACKET_get_curr (p\<lparr>w_subs := ss\<rparr>) = WPACKET_get_curr p" for p
    by (simp add: WPACKET_get_curr_def GETBUF_def split: option.split)
  show ?thesis
    using assms
    by (auto simp: WPACKET_allocate_bytes_def WPACKET_reserve_bytes_def wbind_def grow curr wret_def wfail_def
        split: option.splits)
qed

lemma zalloc_spec:
  "zalloc pkt = Some (Some (w_allocs pkt = [] \<or> hd (w_allocs pkt)), pkt\<lparr>w_allocs := tl (w_allocs pkt)\<rparr>)"
  by (cases pkt; cases "w_allocs pkt") (simp_all add: zalloc_def)

lemma wp_ok_allocs: "wp_ok cap (pkt\<lparr>w_allocs := as\<rparr>) = wp_ok cap pkt"
  by (simp add: wp_ok_def buf_ok_def split: wbuf.split)

text \<open>The sub-packet a successful start pushes, and the packet it leaves.\<close>

definition opened :: "size_t \<Rightarrow> wpacket \<Rightarrow> wpacket_sub \<Rightarrow> wpacket \<Rightarrow> bool" where
  "opened lenb pkt sub pkt' \<longleftrightarrow> w_subs pkt' = sub # w_subs pkt \<and>
     lenbytes sub = lenb \<and> sub_flags sub = 0 \<and> unat (pwritten sub) = unat (w_written pkt) + unat lenb \<and>
     (lenb \<noteq> 0 \<longrightarrow> packet_len sub = w_written pkt) \<and>
     (if lenb = 0 then \<exists>as. pkt' = pkt\<lparr>w_subs := w_subs pkt', w_allocs := as\<rparr>
      else \<exists>p as pkt1. allocated lenb (pkt\<lparr>w_allocs := as\<rparr>) p pkt1 \<and> pkt' = pkt1\<lparr>w_subs := w_subs pkt'\<rparr>)"

lemma start_sub_packet_spec:
  assumes ok: "wp_ok cap pkt"
  obtains pkt' where "WPACKET_start_sub_packet_len lenb pkt = Some (None, pkt')"
  | sub pkt' where "WPACKET_start_sub_packet_len lenb pkt = Some (Some (), pkt')" "wp_ok cap pkt'"
      "opened lenb pkt sub pkt'"
proof -
  obtain r as where z: "zalloc pkt = Some (Some r, pkt\<lparr>w_allocs := as\<rparr>)"
    using zalloc_spec by blast
  define pkt0 where "pkt0 = pkt\<lparr>w_allocs := as\<rparr>"
  define sub where "sub = \<lparr>packet_len = (if lenb = 0 then 0 else w_written pkt), lenbytes = lenb,
      pwritten = w_written pkt + lenb, sub_flags = 0\<rparr>"
  have ok0: "wp_ok cap pkt0" using ok by (simp add: pkt0_def wp_ok_allocs)
  consider "w_subs pkt = [] \<or> lenb > 0 \<and> w_endfirst pkt \<or> \<not> r"
    | "w_subs pkt \<noteq> []" "lenb = 0" r | "w_subs pkt \<noteq> []" "\<not> w_endfirst pkt" "lenb \<noteq> 0" r
    by (auto simp: word_gt_0)
  then show thesis
  proof cases
    case 1
    then have "WPACKET_start_sub_packet_len lenb pkt = Some (None, pkt) \<or>
        WPACKET_start_sub_packet_len lenb pkt = Some (None, pkt0)"
      using z by (auto simp: WPACKET_start_sub_packet_len_def wbind_def wfail_def pkt0_def)
    then show thesis using that(1) by blast
  next
    case 2
    let ?pkt' = "pkt0\<lparr>w_subs := sub # w_subs pkt\<rparr>"
    have "WPACKET_start_sub_packet_len lenb pkt = Some (Some (), ?pkt')"
      using 2 z by (simp add: WPACKET_start_sub_packet_len_def wbind_def wret_def pkt0_def sub_def Let_def)
    moreover have "wp_ok cap ?pkt'"
      using ok0 2 by (auto simp: wp_ok_def buf_ok_def sub_def sub_ok_def pkt0_def has_flag_def split: wbuf.splits)
    moreover have "opened lenb pkt sub ?pkt'"
      using 2 by (auto simp: opened_def sub_def pkt0_def intro: exI [of _ as])
    ultimately show thesis by (rule that(2))
  next
    case 3
    have start: "WPACKET_start_sub_packet_len lenb pkt =
        wbind (WPACKET_allocate_bytes lenb) (\<lambda>_. wret ()) (pkt0\<lparr>w_subs := sub # w_subs pkt\<rparr>)"
      using 3 z by (simp add: WPACKET_start_sub_packet_len_def wbind_def pkt0_def sub_def Let_def)
    have subs: "WPACKET_allocate_bytes lenb (pkt0\<lparr>w_subs := sub # w_subs pkt\<rparr>) =
        map_option (\<lambda>(r, pkt'). (r, pkt'\<lparr>w_subs := sub # w_subs pkt\<rparr>)) (WPACKET_allocate_bytes lenb pkt0)"
      using 3 by (intro allocate_subs) (simp_all add: pkt0_def)
    show thesis
    proof (rule allocate_bytes_spec [OF ok0, of lenb])
      fix pkt'
      assume "WPACKET_allocate_bytes lenb pkt0 = Some (None, pkt')"
      then show thesis using that(1) start subs by (simp add: wbind_def)
    next
      fix p pkt1
      assume a: "WPACKET_allocate_bytes lenb pkt0 = Some (Some p, pkt1)" "wp_ok cap pkt1" "allocated lenb pkt0 p pkt1"
      let ?pkt' = "pkt1\<lparr>w_subs := sub # w_subs pkt\<rparr>"
      have w: "w_written pkt1 = w_written pkt + lenb" "unat (w_written pkt + lenb) = unat (w_written pkt) + unat lenb"
        "w_endfirst pkt1 = w_endfirst pkt"
        using a(3) by (auto simp: allocated_def pkt0_def)
      have "wp_ok cap ?pkt'"
        using a(2) ok 3 w
        by (auto simp: wp_ok_def buf_ok_def sub_def sub_ok_def has_flag_def split: wbuf.splits)
      moreover have "opened lenb pkt sub ?pkt'"
        using a(3) 3 w by (auto simp: opened_def sub_def pkt0_def)
      moreover have "WPACKET_start_sub_packet_len lenb pkt = Some (Some (), ?pkt')"
        using start subs a(1) by (simp add: wbind_def wret_def)
      ultimately show thesis by (intro that(2))
    qed
  qed
qed

lemma safe_start_sub: "hoare (wp_ok cap) (WPACKET_start_sub_packet_len lenb) (\<lambda>_. wp_ok cap)"
proof (rule hoareI)
  fix pkt
  assume "wp_ok cap pkt"
  then show "case WPACKET_start_sub_packet_len lenb pkt of None \<Rightarrow> False | Some (None, _) \<Rightarrow> True
      | Some (Some x, pkt') \<Rightarrow> wp_ok cap pkt'"
    by (rule start_sub_packet_spec [where lenb = lenb]) auto
qed

lemma encode_len_sizes: "ossl_quic_vlint_encode_len v \<noteq> 0 \<Longrightarrow> unat (ossl_quic_vlint_encode_len v) \<in> {1, 2, 4, 8}"
  by (auto simp: ossl_quic_vlint_encode_len_def split: if_splits)

lemma wp_ok_quic_flag:
  assumes "wp_ok cap pkt" "w_subs pkt = sub # subs" "unat (lenbytes sub) \<in> {1, 2, 4, 8}"
  shows "wp_ok cap (pkt\<lparr>w_subs := sub\<lparr>sub_flags := f\<rparr> # subs\<rparr>)"
  using assms by (auto simp: wp_ok_def buf_ok_def sub_ok_def split: wbuf.splits)

lemma safe_start_quic_sub:
  "hoare (wp_ok cap) (WPACKET_start_quic_sub_packet_bound n) (\<lambda>_. wp_ok cap)"
proof (cases "ossl_quic_vlint_encode_len n = 0")
  case True
  then show ?thesis by (simp add: WPACKET_start_quic_sub_packet_bound_def hoare_fail)
next
  case False
  show ?thesis
  proof (rule hoareI)
    fix pkt
    assume "wp_ok cap pkt"
    then show "case WPACKET_start_quic_sub_packet_bound n pkt of None \<Rightarrow> False | Some (None, _) \<Rightarrow> True
        | Some (Some x, pkt') \<Rightarrow> wp_ok cap pkt'"
      by (rule start_sub_packet_spec [where lenb = "ossl_quic_vlint_encode_len n"])
        (use False encode_len_sizes [OF False] wp_ok_quic_flag in
          \<open>auto simp: WPACKET_start_quic_sub_packet_bound_def wbind_def wret_def Let_def opened_def\<close>)
  qed
qed

subsection \<open>Initialisation\<close>

lemma safe_intern_init:
  assumes "w_endfirst pkt \<longrightarrow> lenb = 0" "buf_ok cap (pkt\<lparr>w_written := 0\<rparr>)"
  shows "hoare (\<lambda>pkt'. pkt' = pkt) (wpacket_intern_init_len lenb) (\<lambda>_. wp_ok cap)"
proof -
  define sub where "sub = \<lparr>packet_len = 0, lenbytes = 0, pwritten = 0, sub_flags = 0\<rparr>"
  define sub' where "sub' = sub\<lparr>pwritten := lenb, lenbytes := lenb\<rparr>"
  define pkt0 where "pkt0 = pkt\<lparr>w_curr := 0, w_written := 0, w_allocs := tl (w_allocs pkt), w_subs := [sub]\<rparr>"
  have ok0: "wp_ok cap pkt0"
    using assms by (auto simp: pkt0_def wp_ok_def buf_ok_def sub_def sub_ok_def split: wbuf.splits)
  have subs: "WPACKET_allocate_bytes lenb (pkt0\<lparr>w_subs := [sub']\<rparr>) =
      map_option (\<lambda>(r, pkt'). (r, pkt'\<lparr>w_subs := [sub']\<rparr>)) (WPACKET_allocate_bytes lenb pkt0)"
    by (rule allocate_subs) (simp_all add: pkt0_def)
  have init: "wpacket_intern_init_len lenb pkt =
      (if \<not> (w_allocs pkt = [] \<or> hd (w_allocs pkt)) then wfail (pkt0\<lparr>w_subs := []\<rparr>)
       else if lenb = 0 then wret () pkt0
       else case WPACKET_allocate_bytes lenb (pkt0\<lparr>w_subs := [sub']\<rparr>) of None \<Rightarrow> None
         | Some (None, pkt) \<Rightarrow> wfail (pkt\<lparr>w_subs := []\<rparr>)
         | Some (Some _, pkt) \<Rightarrow> wret () pkt)"
    by (simp add: wpacket_intern_init_len_def wbind_def zalloc_spec pkt0_def sub_def sub'_def Let_def)
  have sub'_ok: "wp_ok cap (pkt1\<lparr>w_subs := [sub']\<rparr>)"
    if "lenb \<noteq> 0" "wp_ok cap pkt1" "allocated lenb pkt0 p pkt1" for p pkt1
    using that assms(1)
    by (auto simp: wp_ok_def buf_ok_def sub'_def sub_def sub_ok_def has_flag_def allocated_def pkt0_def split: wbuf.splits)
  show ?thesis
    unfolding hoare_def
    by (rule allocate_bytes_spec [OF ok0, of lenb])
      (use ok0 sub'_ok in \<open>auto simp: init subs wret_def wfail_def\<close>)
qed

lemma safe_init_static_len:
  assumes "length buf < 2 ^ 64"
  shows "hoare (\<lambda>_. True) (WPACKET_init_static_len buf lenb) (\<lambda>_. wp_ok (length buf))"
proof (rule hoare_at)
  fix pkt :: wpacket
  let ?len = "of_nat (length buf) :: size_t"
  let ?pkt = "pkt\<lparr>w_buf := StaticBuf buf, w_maxsize := (if maxmaxsize lenb < ?len then maxmaxsize lenb else ?len),
    w_endfirst := False\<rparr>"
  have "unat ?len = length buf" using assms by (simp add: unat_of_nat_u64)
  then have "buf_ok (length buf) (?pkt\<lparr>w_written := 0\<rparr>)"
    by (auto simp: buf_ok_def u64_less_nat simp del: unat_of_nat)
  then have "hoare (\<lambda>pkt'. pkt' = ?pkt) (wpacket_intern_init_len lenb) (\<lambda>_. wp_ok (length buf))"
    by (intro safe_intern_init) simp_all
  then show "hoare (\<lambda>pkt'. pkt' = pkt) (WPACKET_init_static_len buf lenb) (\<lambda>_. wp_ok (length buf))"
    by (simp add: hoare_def WPACKET_init_static_len_def wfail_def Let_def)
qed

lemma safe_init_der:
  assumes "length buf < 2 ^ 64"
  shows "hoare (\<lambda>_. True) (WPACKET_init_der buf) (\<lambda>_. wp_ok (length buf))"
proof (rule hoare_at)
  fix pkt :: wpacket
  let ?pkt = "pkt\<lparr>w_buf := StaticBuf buf, w_maxsize := of_nat (length buf), w_endfirst := True\<rparr>"
  have "buf_ok (length buf) (?pkt\<lparr>w_written := 0\<rparr>)"
    using unat_of_nat_u64 [OF assms] by (simp add: buf_ok_def)
  then have "hoare (\<lambda>pkt'. pkt' = ?pkt) (wpacket_intern_init_len 0) (\<lambda>_. wp_ok (length buf))"
    by (intro safe_intern_init) simp_all
  then show "hoare (\<lambda>pkt'. pkt' = pkt) (WPACKET_init_der buf) (\<lambda>_. wp_ok (length buf))"
    by (simp add: hoare_def WPACKET_init_der_def wfail_def Let_def)
qed

lemma safe_init_len:
  assumes "length (bm_data b) \<le> bm_max b" "bm_max b < 2 ^ 31"
  shows "hoare (\<lambda>_. True) (WPACKET_init_len b lenb) (\<lambda>_. wp_ok cap)"
proof (rule hoare_at)
  fix pkt :: wpacket
  let ?pkt = "pkt\<lparr>w_buf := GrowBuf b, w_maxsize := maxmaxsize lenb, w_endfirst := False\<rparr>"
  have "buf_ok cap (?pkt\<lparr>w_written := 0\<rparr>)"
    using assms by (simp add: buf_ok_def)
  then have "hoare (\<lambda>pkt'. pkt' = ?pkt) (wpacket_intern_init_len lenb) (\<lambda>_. wp_ok cap)"
    by (intro safe_intern_init) simp_all
  then show "hoare (\<lambda>pkt'. pkt' = pkt) (WPACKET_init_len b lenb) (\<lambda>_. wp_ok cap)"
    by (simp add: hoare_def WPACKET_init_len_def)
qed

section \<open>Sequences of calls\<close>

text \<open>The calls of the writer's interface. \<open>Allocate\<close> and \<open>Sub_allocate\<close> include the caller that fills the
  allocated bytes.\<close>

datatype wcall =
    Allocate bytes | Put_bytes u64 size_t | Memcpy bytes | Memset u8 size_t | Sub_memcpy bytes size_t
  | Start_sub size_t | Start_quic_sub size_t | Write_vlint u64 | Close | Fill_lengths | Finish
  | Set_flags u32 | Set_max_size size_t

fun do_call :: "wcall \<Rightarrow> unit wop" where
  "do_call (Allocate bs) = wbind (WPACKET_allocate_bytes (of_nat (length bs))) (\<lambda>p. store p bs)"
| "do_call (Put_bytes v n) = WPACKET_put_bytes_n v n"
| "do_call (Memcpy bs) = WPACKET_memcpy bs"
| "do_call (Memset ch n) = WPACKET_memset ch n"
| "do_call (Sub_memcpy bs n) = WPACKET_sub_memcpy_n bs n"
| "do_call (Start_sub n) = WPACKET_start_sub_packet_len n"
| "do_call (Start_quic_sub n) = WPACKET_start_quic_sub_packet_bound n"
| "do_call (Write_vlint v) = WPACKET_quic_write_vlint v"
| "do_call Close = WPACKET_close"
| "do_call Fill_lengths = WPACKET_fill_lengths"
| "do_call Finish = WPACKET_finish"
| "do_call (Set_flags f) = WPACKET_set_flags f"
| "do_call (Set_max_size n) = WPACKET_set_max_size n"

text \<open>What a caller has to respect: source buffers exist in memory, the QUIC flag is set only by
  \<open>WPACKET_start_quic_sub_packet\<close>, and a new size limit is within a static buffer.\<close>

fun legal_call :: "nat \<Rightarrow> wcall \<Rightarrow> bool" where
  "legal_call cap (Allocate bs) \<longleftrightarrow> length bs < 2 ^ 64"
| "legal_call cap (Memcpy bs) \<longleftrightarrow> length bs < 2 ^ 64"
| "legal_call cap (Sub_memcpy bs n) \<longleftrightarrow> length bs < 2 ^ 64"
| "legal_call cap (Set_flags f) \<longleftrightarrow> f AND WPACKET_FLAGS_QUIC_VLINT = 0"
| "legal_call cap (Set_max_size n) \<longleftrightarrow> unat n \<le> cap"
| "legal_call cap _ \<longleftrightarrow> True"

lemma safe_call:
  assumes "legal_call cap c"
  shows "hoare (wp_ok cap) (do_call c) (\<lambda>_. wp_ok cap)"
proof (cases c)
  case (Allocate bs)
  then have "unat (of_nat (length bs) :: size_t) = length bs" using assms by (simp add: unat_of_nat_u64)
  then have "hoare (wpk cap subs) (do_call c) (\<lambda>_. wpk cap subs)" for subs
    using safe_allocate [of cap subs "of_nat (length bs)"] safe_store [of cap subs bs] Allocate
    by (auto intro: hoare_bind simp del: unat_of_nat)
  then show ?thesis by (rule keep_wp_ok)
next
  case (Memcpy bs)
  then show ?thesis using assms keep_wp_ok [OF safe_memcpy] by simp
next
  case (Sub_memcpy bs n)
  then show ?thesis
    using assms safe_start_sub safe_close keep_wp_ok [OF safe_memcpy]
    by (auto simp: WPACKET_sub_memcpy_n_def intro!: hoare_bind hoare_ret)
qed (use assms in \<open>auto intro: keep_wp_ok safe safe_start_sub safe_start_quic_sub safe_close safe_finish
    safe_set_flags safe_set_max_size\<close>)

text \<open>An outcome without an access outside an object, which leaves the invariant when it is a success.\<close>

definition safe_outcome :: "nat \<Rightarrow> (unit option \<times> wpacket) option \<Rightarrow> bool" where
  "safe_outcome cap r \<longleftrightarrow>
     (case r of None \<Rightarrow> False | Some (None, _) \<Rightarrow> True | Some (Some _, pkt) \<Rightarrow> wp_ok cap pkt)"

lemma safe_sequence:
  assumes "hoare (\<lambda>_. True) init (\<lambda>_. wp_ok cap)" "list_all (legal_call cap) calls"
  shows "safe_outcome cap (all_ok (init # map do_call calls) pkt)"
proof -
  have "hoare (\<lambda>_. True) (all_ok (init # map do_call calls)) (\<lambda>_. wp_ok cap)"
    using assms(2) by (auto simp: list_all_iff intro!: hoare_bind [OF assms(1)] hoare_all_ok safe_call)
  then show ?thesis by (simp add: hoare_def safe_outcome_def)
qed

section \<open>Properties\<close>

text \<open>C6. The packet writer is memory safe for callers that stop at the first failure. After each of the
  initialisation functions for a buffer (static, with any length prefix; static and written from the
  end; growing), no sequence of legal calls, each following a successful one, writes outside the
  buffer or through a NULL pointer, whatever allocations fail on the way; and when all calls succeed,
  the writer's invariant holds: the position is within the size limit and the buffer, and the open
  sub-packets are nested, each with its length field inside what was written. Legal are the calls that
  respect the caller's obligations \<open>legal_call\<close>; writers without a buffer (\<open>WPACKET_init_null\<close>) are not
  covered. The lemmas below show what goes wrong with a size limit above the buffer, without a buffer, and
  after a failed call.\<close>

theorem wpacket_memory_safe:
  assumes "length buf < 2 ^ 64" "list_all (legal_call (length buf)) calls"
    and "length (bm_data b) \<le> bm_max b" "bm_max b < 2 ^ 31"
  shows "safe_outcome (length buf) (all_ok (WPACKET_init_static_len buf lenb # map do_call calls) pkt) \<and>
    safe_outcome (length buf) (all_ok (WPACKET_init_der buf # map do_call calls) pkt) \<and>
    safe_outcome (length buf) (all_ok (WPACKET_init_len b lenb # map do_call calls) pkt)"
  using safe_sequence [OF safe_init_static_len] safe_sequence [OF safe_init_der]
    safe_sequence [OF safe_init_len] assms by blast

theorem wpacket_memory_safe_witness:
  "safe_outcome 8
     (all_ok (WPACKET_init_static_len (replicate 8 0) 1 # map do_call [Put_bytes 300 2, Start_sub 1, Memcpy [1], Close])
     \<lparr>w_buf = NullBuf, w_curr = 0, w_written = 0, w_maxsize = 0, w_subs = [], w_endfirst = False,
      w_allocs = [True, False]\<rparr>)"
  using wpacket_memory_safe [of "replicate 8 0" "[Put_bytes 300 2, Start_sub 1, Memcpy [1], Close]"
      "\<lparr>bm_data = [], bm_max = 0\<rparr>" 1
      "\<lparr>w_buf = NullBuf, w_curr = 0, w_written = 0, w_maxsize = 0, w_subs = [], w_endfirst = False,
        w_allocs = [True, False]\<rparr>"]
  by simp

subsection \<open>The caller's obligations are needed\<close>

abbreviation blank_wpacket :: wpacket where
  "blank_wpacket \<equiv> \<lparr>w_buf = NullBuf, w_curr = 0, w_written = 0, w_maxsize = 0, w_subs = [],
     w_endfirst = False, w_allocs = []\<rparr>"

lemmas wpacket_eval = wbind_def wret_def wfail_def zalloc_def wpacket_intern_init_len_def
  WPACKET_allocate_bytes_def WPACKET_reserve_bytes_def wpacket_grow_def WPACKET_get_curr_def GETBUF_def
  store_def store_at_def put_value_def maxmaxsize_def

text \<open>\<open>WPACKET_set_max_size\<close> may raise the limit of a static buffer above its length; the next write then
  leaves the buffer.\<close>

lemma set_max_size_overflow:
  "all_ok [WPACKET_init_static_len [0] 0, WPACKET_set_max_size 2, WPACKET_put_bytes_n 7 2] blank_wpacket = None"
  by (simp add: wpacket_eval WPACKET_init_static_len_def WPACKET_set_max_size_def WPACKET_put_bytes_n_def
      Let_def put_value_loop_be)

text \<open>Counting the length of a variable-length integer with a null buffer dereferences NULL.\<close>

lemma write_vlint_null_buf:
  "all_ok [WPACKET_init_null 0, WPACKET_quic_write_vlint 5] blank_wpacket = None"
  by (simp add: wpacket_eval WPACKET_init_null_def WPACKET_quic_write_vlint_def ossl_quic_vlint_encode_len_def
      OSSL_QUIC_VLINT_2B_MIN_def Let_def)

text \<open>A failed \<open>WPACKET_start_sub_packet_len\<close> leaves its sub-packet open: closing it writes behind the
  buffer.\<close>

lemma close_after_failed_start:
  "case all_ok [WPACKET_init_static_len [0] 0, WPACKET_put_bytes_n 7 1] blank_wpacket of
     Some (_, pkt) \<Rightarrow> (case WPACKET_start_sub_packet_len 2 pkt of
       Some (None, pkt) \<Rightarrow> WPACKET_close pkt = None | _ \<Rightarrow> False)
   | None \<Rightarrow> False"
  by (simp add: wpacket_eval WPACKET_init_static_len_def WPACKET_put_bytes_n_def WPACKET_start_sub_packet_len_def
      WPACKET_close_def wpacket_intern_close_def write_length_def has_flag_def Let_def put_value_loop_be)

end
