(* ===== verification/WPacketOut.thy ===== *)
theory WPacketOut
  imports WPacketSafe
begin

text \<open>
  What the packet writer writes: every writing operation appends its bytes to the output, in a
  buffer with enough room, and a sub-packet appends the encoding of its length followed by its
  contents, to any depth of nesting.
\<close>

section \<open>Output and room\<close>

definition wp_out :: "wpacket \<Rightarrow> bytes" where
  "wp_out pkt = take (unat (w_written pkt)) (wp_data pkt)"

text \<open>Room for \<open>n\<close> more bytes in a packet written forwards, with memory available; a growing buffer
  doubles until \<open>LIMIT_BEFORE_EXPANSION\<close>.\<close>

definition wp_room :: "nat \<Rightarrow> wpacket \<Rightarrow> nat \<Rightarrow> bool" where
  "wp_room cap pkt n \<longleftrightarrow> wp_ok cap pkt \<and> \<not> w_endfirst pkt \<and> w_subs pkt \<noteq> [] \<and> w_allocs pkt = [] \<and>
     unat (w_written pkt) + n \<le> unat (w_maxsize pkt) \<and>
     (case w_buf pkt of GrowBuf _ \<Rightarrow> unat (w_written pkt) + n \<le> 0x2ffffffe | _ \<Rightarrow> True)"

definition is_grow :: "wpacket \<Rightarrow> bool" where
  "is_grow pkt \<longleftrightarrow> (case w_buf pkt of GrowBuf _ \<Rightarrow> True | _ \<Rightarrow> False)"

text \<open>\<open>pkt'\<close> is \<open>pkt\<close> with \<open>bs\<close> appended.\<close>

definition wp_ext :: "nat \<Rightarrow> wpacket \<Rightarrow> wpacket \<Rightarrow> bytes \<Rightarrow> bool" where
  "wp_ext cap pkt pkt' bs \<longleftrightarrow> wp_ok cap pkt' \<and> wp_out pkt' = wp_out pkt @ bs \<and> w_subs pkt' = w_subs pkt \<and>
     w_maxsize pkt' = w_maxsize pkt \<and> w_endfirst pkt' = w_endfirst pkt \<and> w_allocs pkt' = [] \<and>
     is_grow pkt' = is_grow pkt"

text \<open>The operation \<open>f\<close> appends \<open>bs\<close> to every packet with room for them.\<close>

definition writes :: "unit wop \<Rightarrow> bytes \<Rightarrow> bool" where
  "writes f bs \<longleftrightarrow> (\<forall>cap pkt. wp_room cap pkt (length bs) \<longrightarrow>
     (\<exists>pkt'. f pkt = Some (Some (), pkt') \<and> wp_ext cap pkt pkt' bs))"

lemma length_wp_out: "wp_ok cap pkt \<Longrightarrow> length (wp_out pkt) = unat (w_written pkt)"
  using buf_ok_written [of cap pkt] by (simp add: wp_out_def)

lemma wp_ext_written:
  assumes "wp_ok cap pkt" "wp_ext cap pkt pkt' bs"
  shows "unat (w_written pkt') = unat (w_written pkt) + length bs"
  using assms length_wp_out [of cap pkt] length_wp_out [of cap pkt'] by (simp add: wp_ext_def)

lemma wp_room_def2:
  "wp_room cap pkt n \<longleftrightarrow> wp_ok cap pkt \<and> \<not> w_endfirst pkt \<and> w_subs pkt \<noteq> [] \<and> w_allocs pkt = [] \<and>
     unat (w_written pkt) + n \<le> unat (w_maxsize pkt) \<and>
     (is_grow pkt \<longrightarrow> unat (w_written pkt) + n \<le> 0x2ffffffe)"
  by (auto simp: wp_room_def is_grow_def split: wbuf.splits)

lemma wp_room_ext:
  assumes "wp_room cap pkt (length bs + n)" "wp_ext cap pkt pkt' bs"
  shows "wp_room cap pkt' n"
  using assms wp_ext_written [of cap pkt pkt' bs] by (auto simp: wp_room_def2 wp_ext_def)

lemma wp_room_less: "wp_room cap pkt n \<Longrightarrow> m \<le> n \<Longrightarrow> wp_room cap pkt m"
  by (auto simp: wp_room_def2)

lemma writesE:
  assumes "writes f bs" "wp_room cap pkt (length bs)"
  obtains pkt' where "f pkt = Some (Some (), pkt')" "wp_ext cap pkt pkt' bs"
  using assms by (auto simp: writes_def)

lemma writesI:
  assumes "\<And>cap pkt. wp_room cap pkt (length bs) \<Longrightarrow>
    \<exists>pkt'. f pkt = Some (Some (), pkt') \<and> wp_ext cap pkt pkt' bs"
  shows "writes f bs"
  using assms by (simp add: writes_def)

lemma writes_ret [simp]: "writes (wret ()) []"
  by (rule writesI) (auto simp: wret_def wp_ext_def wp_room_def)

lemma writes_bind:
  assumes f: "writes f as" and g: "writes g bs"
  shows "writes (wbind f (\<lambda>_. g)) (as @ bs)"
proof (rule writesI)
  fix cap pkt
  assume room: "wp_room cap pkt (length (as @ bs))"
  have "wp_room cap pkt (length as)" by (rule wp_room_less [OF room]) simp
  then obtain pkt1 where 1: "f pkt = Some (Some (), pkt1)" "wp_ext cap pkt pkt1 as"
    by (rule writesE [OF f])
  then have "wp_room cap pkt1 (length bs)" using room by (auto intro: wp_room_ext)
  then obtain pkt2 where 2: "g pkt1 = Some (Some (), pkt2)" "wp_ext cap pkt1 pkt2 bs"
    by (rule writesE [OF g])
  show "\<exists>pkt'. wbind f (\<lambda>_. g) pkt = Some (Some (), pkt') \<and> wp_ext cap pkt pkt' (as @ bs)"
    using 1 2 by (auto simp: wbind_def wp_ext_def)
qed

lemma writes_all_ok: "list_all2 writes fs bss \<Longrightarrow> writes (all_ok fs) (concat bss)"
  by (induction rule: list_all2_induct) (auto intro: writes_bind)

section \<open>Appending bytes\<close>

lemma grow_succeeds:
  assumes room: "wp_room cap pkt (unat len)" and len: "len \<noteq> 0"
  obtains pkt' where "wpacket_grow len pkt = Some (Some (), pkt')" "w_allocs pkt' = []" "is_grow pkt' = is_grow pkt"
proof (cases "w_buf pkt")
  case (GrowBuf b)
  let ?blen = "of_nat (length (bm_data b)) :: size_t"
  have b: "unat (w_written pkt) \<le> length (bm_data b)" "length (bm_data b) \<le> bm_max b" "bm_max b < 2 ^ 31"
    and small: "unat (w_written pkt) + unat len \<le> 0x2ffffffe" and as: "w_allocs pkt = []"
    using room GrowBuf by (auto simp: wp_room_def wp_ok_def buf_ok_def)
  have blen: "unat ?blen = length (bm_data b)" using b by (simp add: unat_of_nat_u64)
  have sub: "unat (?blen - w_written pkt) = length (bm_data b) - unat (w_written pkt)"
    using b blen by (subst unat_sub_u64) (simp_all add: u64_le_nat)
  show thesis
  proof (cases "?blen - w_written pkt < len")
    case False
    then have "wpacket_grow len pkt = Some (Some (), pkt)"
      using GrowBuf by (simp add: wpacket_grow_def wret_def)
    then show thesis using that as by blast
  next
    case True
    then have L: "length (bm_data b) < unat (w_written pkt) + unat len"
      using sub b by (simp add: u64_less_nat)
    define r where "r = (if len > ?blen then len else ?blen)"
    have r: "unat r \<le> 0x2ffffffe" using L small blen by (auto simp: r_def)
    then have "unat (r * 2) = unat r * 2" by (intro unat_mult_u64 [THEN trans]) simp_all
    moreover have "\<not> r > SIZE_MAX div 2" using r by (simp add: u64_less_nat unat_div)
    moreover have "reserve_newlen len ?blen = (if r > SIZE_MAX div 2 then SIZE_MAX
        else if r * 2 < DEFAULT_BUF_SIZE then DEFAULT_BUF_SIZE else r * 2)"
      by (simp add: reserve_newlen_def r_def Let_def)
    ultimately have "unat (reserve_newlen len ?blen) \<le> 0x5ffffffc"
      using r by (simp add: DEFAULT_BUF_SIZE_def)
    then have "fst (BUF_MEM_grow [] b (reserve_newlen len ?blen)) = reserve_newlen len ?blen"
      "snd (snd (BUF_MEM_grow [] b (reserve_newlen len ?blen))) = []"
      by (auto simp: BUF_MEM_grow_def LIMIT_BEFORE_EXPANSION_def u64_less_nat Let_def)
    then show thesis
      using that GrowBuf True as reserve_newlen_bounds(3) [where blen = ?blen and len = len]
      by (auto simp: wpacket_grow_def wret_def split_beta Let_def is_grow_def)
  qed
qed (use that room in \<open>auto simp: wpacket_grow_def wret_def wp_room_def\<close>)

lemma allocate_room:
  assumes room: "wp_room cap pkt (unat len)" and len: "len \<noteq> 0"
  obtains pkt' where "WPACKET_allocate_bytes len pkt = Some (Some (Some (unat (w_written pkt))), pkt')"
    "wp_ok cap pkt'" "allocated len pkt (Some (unat (w_written pkt))) pkt'" "w_allocs pkt' = []"
    "is_grow pkt' = is_grow pkt"
proof -
  have ok: "wp_ok cap pkt" and fwd: "\<not> w_endfirst pkt" and subs: "w_subs pkt \<noteq> []"
    and le: "unat (w_written pkt) + unat len \<le> unat (w_maxsize pkt)"
    using room by (auto simp: wp_room_def)
  have "unat (w_maxsize pkt - w_written pkt) = unat (w_maxsize pkt) - unat (w_written pkt)"
    using ok by (intro unat_sub_u64) (simp add: wp_ok_def)
  then have fits: "\<not> w_maxsize pkt - w_written pkt < len" using le by (simp add: u64_less_nat)
  obtain pkt1 where g: "wpacket_grow len pkt = Some (Some (), pkt1)" "w_allocs pkt1 = []" "is_grow pkt1 = is_grow pkt"
    using grow_succeeds [OF room len] .
  have res: "\<exists>p. WPACKET_allocate_bytes len pkt =
      Some (Some p, pkt1\<lparr>w_written := w_written pkt1 + len, w_curr := w_curr pkt1 + len\<rparr>)"
    using subs len fits g
    by (auto simp: WPACKET_allocate_bytes_def WPACKET_reserve_bytes_def wbind_def wret_def split: option.splits)
  show thesis
  proof (rule allocate_bytes_spec [OF ok, of len])
    fix pkt'
    assume "WPACKET_allocate_bytes len pkt = Some (None, pkt')"
    then show thesis using res by simp
  next
    fix p pkt'
    assume a: "WPACKET_allocate_bytes len pkt = Some (Some p, pkt')" "wp_ok cap pkt'" "allocated len pkt p pkt'"
    then have "p = Some (unat (w_written pkt))" using fwd by (simp add: allocated_def)
    moreover have "w_allocs pkt' = []" "is_grow pkt' = is_grow pkt"
      using a(1) res g by (auto simp: is_grow_def)
    ultimately show thesis using that a by blast
  qed
qed

lemma store_appends:
  assumes ok: "wp_ok cap pkt" "wp_ok cap pkt1" and al: "allocated len pkt (Some (unat (w_written pkt))) pkt1"
    and more: "w_allocs pkt1 = []" "is_grow pkt1 = is_grow pkt" and bs: "length bs = unat len"
  obtains pkt2 where "store (Some (unat (w_written pkt))) bs pkt1 = Some (Some (), pkt2)" "wp_ext cap pkt pkt2 bs"
proof -
  have d: "take (length (wp_data pkt)) (wp_data pkt1) = wp_data pkt"
    "unat (w_written pkt1) = unat (w_written pkt) + unat len"
    "unat (w_written pkt) + unat len \<le> length (wp_data pkt1)"
    and pkt1: "w_subs pkt1 = w_subs pkt" "w_maxsize pkt1 = w_maxsize pkt" "w_endfirst pkt1 = w_endfirst pkt"
    using al by (auto simp: allocated_def)
  obtain buf where st: "store (Some (unat (w_written pkt))) bs pkt1 = Some (Some (), pkt1\<lparr>w_buf := buf\<rparr>)"
    and ok2: "wp_ok cap (pkt1\<lparr>w_buf := buf\<rparr>)"
    and data: "wp_data (pkt1\<lparr>w_buf := buf\<rparr>) =
      take (unat (w_written pkt)) (wp_data pkt1) @ bs @ drop (unat (w_written pkt) + length bs) (wp_data pkt1)"
    using store_defined [OF ok(2), of "unat (w_written pkt)" bs] d(3) bs by auto
  have "take (unat (w_written pkt)) (wp_data pkt1) = take (unat (w_written pkt)) (wp_data pkt)"
    using d(1) buf_ok_written [OF ok(1)] by (metis min.absorb1 take_take)
  then have "wp_out (pkt1\<lparr>w_buf := buf\<rparr>) = wp_out pkt @ bs"
    using d bs data buf_ok_written [OF ok(1)] by (simp add: wp_out_def)
  moreover have "is_grow (pkt1\<lparr>w_buf := buf\<rparr>) = is_grow pkt1"
    using st by (auto simp: store_def is_grow_def split: wbuf.splits option.splits dest!: arg_cong [where f = w_buf])
  ultimately show thesis
    using that st ok2 pkt1 more by (auto simp: wp_ext_def)
qed

text \<open>Allocating and filling, the pattern all writing operations share.\<close>

lemma writes_allocate:
  assumes "bs \<noteq> []" "length bs = unat len"
  shows "writes (wbind (WPACKET_allocate_bytes len) (\<lambda>p. store p bs)) bs"
proof (rule writesI)
  fix cap pkt
  assume room: "wp_room cap pkt (length bs)"
  have "len \<noteq> 0" using assms by auto
  then obtain pkt1 where a: "WPACKET_allocate_bytes len pkt = Some (Some (Some (unat (w_written pkt))), pkt1)"
    "wp_ok cap pkt1" "allocated len pkt (Some (unat (w_written pkt))) pkt1" "w_allocs pkt1 = []"
    "is_grow pkt1 = is_grow pkt"
    using allocate_room [of cap pkt len] room assms(2) by auto
  have "wp_ok cap pkt" using room by (simp add: wp_room_def)
  then obtain pkt2 where "store (Some (unat (w_written pkt))) bs pkt1 = Some (Some (), pkt2)" "wp_ext cap pkt pkt2 bs"
    using store_appends a assms(2) by blast
  then show "\<exists>pkt'. wbind (WPACKET_allocate_bytes len) (\<lambda>p. store p bs) pkt = Some (Some (), pkt') \<and> wp_ext cap pkt pkt' bs"
    using a(1) by (auto simp: wbind_def)
qed

lemma writes_allocate_then:
  assumes bs: "bs \<noteq> []" "length bs = unat len" and g: "\<And>off. g (Some off) = store (Some off) bs"
  shows "writes (wbind (WPACKET_allocate_bytes len) g) bs"
proof (rule writesI)
  fix cap pkt
  assume room: "wp_room cap pkt (length bs)"
  have "len \<noteq> 0" using bs by auto
  then obtain pkt1 where "WPACKET_allocate_bytes len pkt = Some (Some (Some (unat (w_written pkt))), pkt1)"
    using allocate_room [of cap pkt len] room bs(2) by auto
  then have "wbind (WPACKET_allocate_bytes len) g pkt = wbind (WPACKET_allocate_bytes len) (\<lambda>p. store p bs) pkt"
    by (simp add: wbind_def g)
  then show "\<exists>pkt'. wbind (WPACKET_allocate_bytes len) g pkt = Some (Some (), pkt') \<and> wp_ext cap pkt pkt' bs"
    using writes_allocate [OF bs] room by (auto simp: writes_def)
qed

named_theorems writes_intros \<open>what the operations write\<close>

lemma writes_vlint [writes_intros]:
  assumes "v \<le> OSSL_QUIC_VLINT_MAX"
  shows "writes (WPACKET_quic_write_vlint v) (ossl_quic_vlint_encode v)"
proof -
  have "length (ossl_quic_vlint_encode v) = unat (ossl_quic_vlint_encode_len v)"
    "0 < unat (ossl_quic_vlint_encode_len v)"
    using length_vlint_encode [OF assms] vlint_encode_len_pos [OF assms] by (auto simp: unat_gt_0)
  then have "ossl_quic_vlint_encode v \<noteq> []" by auto
  then show ?thesis
    using writes_allocate [OF _ length_vlint_encode [OF assms]] vlint_encode_len_pos [OF assms]
    by (simp add: WPACKET_quic_write_vlint_def)
qed

lemma writes_memcpy [writes_intros]:
  assumes "length bs < 2 ^ 64"
  shows "writes (WPACKET_memcpy bs) bs"
proof (cases "bs = []")
  case False
  have len: "length bs = unat (of_nat (length bs) :: size_t)" using assms by (simp add: unat_of_nat_u64)
  then have "(of_nat (length bs) :: size_t) \<noteq> 0" using False by (metis length_0_conv unat_0)
  then show ?thesis
    using writes_allocate_then [OF False len] by (simp add: WPACKET_memcpy_def)
qed (simp add: WPACKET_memcpy_def)

lemma writes_memset [writes_intros]: "writes (WPACKET_memset ch n) (replicate (unat n) ch)"
proof (cases "n = 0")
  case False
  then have "replicate (unat n) ch \<noteq> []" by (simp add: unat_eq_0)
  then show ?thesis
    using writes_allocate_then [of "replicate (unat n) ch" n] False by (simp add: WPACKET_memset_def)
qed (simp add: WPACKET_memset_def)

lemma store_ret: "wbind (store p bs) wret = store p bs"
  by (auto simp: fun_eq_iff wbind_def wret_def store_def split: option.splits wbuf.splits)

lemma put_value_store:
  "drop_bit (8 * unat n) v = 0 \<Longrightarrow> put_value (Some off) v n = store (Some off) (be_bytes (unat n) v)"
  by (simp add: put_value_def put_value_loop_be store_ret)

lemma writes_put_bytes [writes_intros]:
  assumes n: "n \<noteq> 0" "n \<le> 8" and v: "drop_bit (8 * unat n) v = 0"
  shows "writes (WPACKET_put_bytes_n v n) (be_bytes (unat n) v)"
proof -
  have "be_bytes (unat n) v \<noteq> []" using n(1) by (metis length_be_bytes list.size(3) unat_eq_zero)
  then show ?thesis
    using writes_allocate_then [OF _ _ put_value_store [OF v]] n by (simp add: WPACKET_put_bytes_n_def)
qed

section \<open>Sub-packets\<close>

text \<open>The length field \<open>hdr\<close> that closing the sub-packet \<open>sub\<close> with \<open>n\<close> bytes of contents stores.\<close>

definition length_field :: "wpacket_sub \<Rightarrow> size_t \<Rightarrow> bytes \<Rightarrow> bool" where
  "length_field sub n hdr \<longleftrightarrow>
     (if has_flag sub WPACKET_FLAGS_QUIC_VLINT
      then hdr = ossl_quic_vlint_encode_n n (unat (lenbytes sub)) \<and> ossl_quic_vlint_encode_len n \<le> lenbytes sub
      else hdr = be_bytes (unat (lenbytes sub)) n \<and> drop_bit (8 * unat (lenbytes sub)) n = 0)"

lemma take_patch:
  assumes "p + length hdr = q" "q \<le> w" "w \<le> length d"
  shows "take w (take p d @ hdr @ drop q d) = take p (take w d) @ hdr @ drop q (take w d)"
proof -
  have "p \<le> w" "p \<le> length d" "w - p - length hdr = w - q" "length hdr \<le> w - p" using assms by auto
  then show ?thesis by (simp add: min_absorb1 min_absorb2 drop_take)
qed

lemma close_stores:
  assumes ok: "wp_ok cap pkt" and subs: "w_subs pkt = sub # subs" "subs \<noteq> []"
    and sub: "lenbytes sub \<noteq> 0" "\<not> has_flag sub WPACKET_FLAGS_NON_ZERO_LENGTH"
      "\<not> has_flag sub WPACKET_FLAGS_ABANDON_ON_ZERO_LENGTH"
    and hdr: "length_field sub (w_written pkt - pwritten sub) hdr"
  obtains buf where "WPACKET_close pkt = Some (Some (), pkt\<lparr>w_buf := buf, w_subs := subs\<rparr>)"
    "wp_ok cap (pkt\<lparr>w_buf := buf, w_subs := subs\<rparr>)"
    "wp_out (pkt\<lparr>w_buf := buf, w_subs := subs\<rparr>) =
       take (unat (packet_len sub)) (wp_out pkt) @ hdr @ drop (unat (pwritten sub)) (wp_out pkt)"
    "is_grow (pkt\<lparr>w_buf := buf, w_subs := subs\<rparr>) = is_grow pkt"
proof -
  have s: "sub_ok sub" "unat (pwritten sub) \<le> unat (w_written pkt)"
    using ok subs by (auto simp: wp_ok_def)
  have len: "length hdr = unat (lenbytes sub)"
    using hdr s sub(1) length_encode_n by (auto simp: length_field_def sub_ok_def split: if_splits)
  have w: "unat (w_written pkt) \<le> length (wp_data pkt)" by (rule buf_ok_written [OF ok])
  have end_hdr: "unat (packet_len sub) + length hdr = unat (pwritten sub)"
    using s sub(1) len by (auto simp: sub_ok_def)
  then have "unat (packet_len sub) + length hdr \<le> length (wp_data pkt)" using s(2) w by simp
  then obtain buf where st: "store (Some (unat (packet_len sub))) hdr pkt = Some (Some (), pkt\<lparr>w_buf := buf\<rparr>)"
    and ok': "wp_ok cap (pkt\<lparr>w_buf := buf\<rparr>)"
    and data: "wp_data (pkt\<lparr>w_buf := buf\<rparr>) =
      take (unat (packet_len sub)) (wp_data pkt) @ hdr @ drop (unat (packet_len sub) + length hdr) (wp_data pkt)"
    using store_defined [OF ok] by blast
  let ?n = "w_written pkt - pwritten sub"
  have "0 < unat (lenbytes sub)" using sub(1) by (simp add: unat_gt_0)
  then have "0 < unat (pwritten sub)" using end_hdr len by linarith
  then have "GETBUF pkt \<noteq> None"
    using s(2) ok by (auto simp: GETBUF_def wp_ok_def buf_ok_def split: wbuf.splits)
  then have "write_length sub True ?n pkt = store (Some (unat (packet_len sub))) hdr pkt"
    using hdr sub(1) put_value_store
    by (auto simp: write_length_def length_field_def put_quic_value_def word_gt_0 not_less split: if_splits)
  then have close: "WPACKET_close pkt = Some (Some (), pkt\<lparr>w_buf := buf, w_subs := subs\<rparr>)"
    using subs sub st by (simp add: WPACKET_close_def wpacket_intern_close_def Let_def wbind_def wret_def)
  have "wp_ok cap (pkt\<lparr>w_buf := buf, w_subs := subs\<rparr>)"
    using wp_ok_pop [OF ok', of sub subs] subs by simp
  moreover have "wp_data (pkt\<lparr>w_buf := buf, w_subs := subs\<rparr>) = wp_data (pkt\<lparr>w_buf := buf\<rparr>)"
    by (simp add: wp_data_def)
  then have "wp_out (pkt\<lparr>w_buf := buf, w_subs := subs\<rparr>) =
      take (unat (packet_len sub)) (wp_out pkt) @ hdr @ drop (unat (pwritten sub)) (wp_out pkt)"
    using data take_patch [OF end_hdr s(2) w] end_hdr by (simp add: wp_out_def)
  moreover have "is_grow (pkt\<lparr>w_buf := buf, w_subs := subs\<rparr>) = is_grow pkt"
    using st by (auto simp: store_def is_grow_def split: wbuf.splits option.splits dest!: arg_cong [where f = w_buf])
  ultimately show thesis using that close by blast
qed

text \<open>\<open>start\<close> opens a sub-packet with a length field of \<open>lenb\<close> bytes, variable-length encoded if \<open>quic\<close>.\<close>

definition opens :: "unit wop \<Rightarrow> size_t \<Rightarrow> bool \<Rightarrow> bool" where
  "opens start lenb quic \<longleftrightarrow> lenb \<noteq> 0 \<and> (\<forall>cap pkt. wp_room cap pkt (unat lenb) \<longrightarrow>
     (\<exists>pkt' sub pad. start pkt = Some (Some (), pkt') \<and> wp_ok cap pkt' \<and> w_subs pkt' = sub # w_subs pkt \<and>
        lenbytes sub = lenb \<and> unat (pwritten sub) = unat (w_written pkt) + unat lenb \<and>
        packet_len sub = w_written pkt \<and> sub_flags sub = (if quic then WPACKET_FLAGS_QUIC_VLINT else 0) \<and>
        wp_out pkt' = wp_out pkt @ pad \<and> length pad = unat lenb \<and> w_maxsize pkt' = w_maxsize pkt \<and>
        w_endfirst pkt' = w_endfirst pkt \<and> w_allocs pkt' = [] \<and> is_grow pkt' = is_grow pkt))"

lemma opensE:
  assumes "opens start lenb quic" "wp_room cap pkt (unat lenb)"
  obtains pkt' sub pad where "start pkt = Some (Some (), pkt')" "wp_ok cap pkt'" "w_subs pkt' = sub # w_subs pkt"
    "lenbytes sub = lenb" "unat (pwritten sub) = unat (w_written pkt) + unat lenb" "packet_len sub = w_written pkt"
    "sub_flags sub = (if quic then WPACKET_FLAGS_QUIC_VLINT else 0)" "wp_out pkt' = wp_out pkt @ pad"
    "length pad = unat lenb" "w_maxsize pkt' = w_maxsize pkt" "w_endfirst pkt' = w_endfirst pkt"
    "w_allocs pkt' = []" "is_grow pkt' = is_grow pkt"
  using assms unfolding opens_def by blast

lemma allocated_out:
  assumes "wp_ok cap pkt" "wp_ok cap pkt'" "allocated len pkt p pkt'"
  obtains pad where "wp_out pkt' = wp_out pkt @ pad" "length pad = unat len"
proof -
  have d: "take (length (wp_data pkt)) (wp_data pkt') = wp_data pkt"
    "unat (w_written pkt') = unat (w_written pkt) + unat len"
    using assms(3) by (auto simp: allocated_def)
  have "take (unat (w_written pkt)) (wp_data pkt') = wp_out pkt"
    using d(1) buf_ok_written [OF assms(1)] unfolding wp_out_def by (metis min.absorb1 take_take)
  then have "wp_out pkt' = wp_out pkt @ take (unat len) (drop (unat (w_written pkt)) (wp_data pkt'))"
    using d(2) by (simp add: wp_out_def take_add)
  moreover from this have "length (take (unat len) (drop (unat (w_written pkt)) (wp_data pkt'))) = unat len"
    using length_wp_out [OF assms(1)] length_wp_out [OF assms(2)] d(2) by simp
  ultimately show thesis using that by blast
qed

lemma opens_start_sub:
  assumes "lenb \<noteq> 0"
  shows "opens (WPACKET_start_sub_packet_len lenb) lenb False"
  unfolding opens_def
proof (intro conjI allI impI)
  fix cap pkt
  assume room: "wp_room cap pkt (unat lenb)"
  then have ok: "wp_ok cap pkt" and as: "w_allocs pkt = []" and subs: "w_subs pkt \<noteq> []" and fwd: "\<not> w_endfirst pkt"
    by (auto simp: wp_room_def)
  define sub where "sub = \<lparr>packet_len = w_written pkt, lenbytes = lenb, pwritten = w_written pkt + lenb, sub_flags = 0\<rparr>"
  obtain pkt1 where a: "WPACKET_allocate_bytes lenb pkt = Some (Some (Some (unat (w_written pkt))), pkt1)"
    "wp_ok cap pkt1" "allocated lenb pkt (Some (unat (w_written pkt))) pkt1" "w_allocs pkt1 = []" "is_grow pkt1 = is_grow pkt"
    using allocate_room [OF room assms] .
  let ?pkt' = "pkt1\<lparr>w_subs := sub # w_subs pkt\<rparr>"
  have start: "WPACKET_start_sub_packet_len lenb pkt = Some (Some (), ?pkt')"
    using subs fwd as assms a(1) allocate_subs [of pkt "sub # w_subs pkt" lenb]
    by (simp add: WPACKET_start_sub_packet_len_def wbind_def wret_def zalloc_def sub_def Let_def)
  have ok': "wp_ok cap ?pkt'"
    by (rule start_sub_packet_spec [OF ok, of lenb]) (use start in auto)
  obtain pad where pad: "wp_out pkt1 = wp_out pkt @ pad" "length pad = unat lenb"
    using allocated_out [OF ok a(2,3)] .
  have "wp_out ?pkt' = wp_out pkt1" by (simp add: wp_out_def wp_data_def)
  moreover have "unat (w_written pkt + lenb) = unat (w_written pkt) + unat lenb"
    "w_maxsize pkt1 = w_maxsize pkt" "w_endfirst pkt1 = w_endfirst pkt"
    using a(3) by (auto simp: allocated_def)
  ultimately show "\<exists>pkt' sub pad. WPACKET_start_sub_packet_len lenb pkt = Some (Some (), pkt') \<and> wp_ok cap pkt' \<and>
      w_subs pkt' = sub # w_subs pkt \<and> lenbytes sub = lenb \<and>
      unat (pwritten sub) = unat (w_written pkt) + unat lenb \<and>
      packet_len sub = w_written pkt \<and> sub_flags sub = (if False then WPACKET_FLAGS_QUIC_VLINT else 0) \<and>
      wp_out pkt' = wp_out pkt @ pad \<and> length pad = unat lenb \<and> w_maxsize pkt' = w_maxsize pkt \<and>
      w_endfirst pkt' = w_endfirst pkt \<and> w_allocs pkt' = [] \<and> is_grow pkt' = is_grow pkt"
    using start ok' pad a(4,5)
    by (intro exI [of _ ?pkt'] exI [of _ sub] exI [of _ pad]) (simp add: sub_def is_grow_def)
qed (rule assms)

lemma opens_start_quic:
  assumes "n \<le> OSSL_QUIC_VLINT_MAX"
  shows "opens (WPACKET_start_quic_sub_packet_bound n) (ossl_quic_vlint_encode_len n) True"
  unfolding opens_def
proof (intro conjI allI impI)
  let ?lenb = "ossl_quic_vlint_encode_len n"
  show nz: "?lenb \<noteq> 0" using assms by (rule vlint_encode_len_pos)
  fix cap pkt
  assume room: "wp_room cap pkt (unat ?lenb)"
  obtain pkt' sub pad where st: "WPACKET_start_sub_packet_len ?lenb pkt = Some (Some (), pkt')" "wp_ok cap pkt'"
    and rest: "w_subs pkt' = sub # w_subs pkt" "lenbytes sub = ?lenb"
      "unat (pwritten sub) = unat (w_written pkt) + unat ?lenb" "packet_len sub = w_written pkt"
      "sub_flags sub = (if False then WPACKET_FLAGS_QUIC_VLINT else 0)"
      "wp_out pkt' = wp_out pkt @ pad" "length pad = unat ?lenb" "w_maxsize pkt' = w_maxsize pkt"
      "w_endfirst pkt' = w_endfirst pkt" "w_allocs pkt' = []" "is_grow pkt' = is_grow pkt"
    using opensE [OF opens_start_sub [OF nz] room] by blast
  define sub' where "sub' = sub\<lparr>sub_flags := WPACKET_FLAGS_QUIC_VLINT\<rparr>"
  let ?pkt'' = "pkt'\<lparr>w_subs := sub' # w_subs pkt\<rparr>"
  have start: "WPACKET_start_quic_sub_packet_bound n pkt = Some (Some (), ?pkt'')"
    using st nz rest
    by (simp add: WPACKET_start_quic_sub_packet_bound_def wbind_def wret_def sub'_def Let_def)
  moreover have "wp_ok cap ?pkt''"
    unfolding sub'_def using wp_ok_quic_flag [OF st(2) rest(1)] encode_len_sizes [OF nz] rest(2) by simp
  moreover have "wp_out ?pkt'' = wp_out pkt'" "is_grow ?pkt'' = is_grow pkt'"
    by (simp_all add: wp_out_def wp_data_def is_grow_def)
  ultimately show "\<exists>pkt' sub pad. WPACKET_start_quic_sub_packet_bound n pkt = Some (Some (), pkt') \<and> wp_ok cap pkt' \<and>
      w_subs pkt' = sub # w_subs pkt \<and> lenbytes sub = ?lenb \<and>
      unat (pwritten sub) = unat (w_written pkt) + unat ?lenb \<and>
      packet_len sub = w_written pkt \<and> sub_flags sub = (if True then WPACKET_FLAGS_QUIC_VLINT else 0) \<and>
      wp_out pkt' = wp_out pkt @ pad \<and> length pad = unat ?lenb \<and> w_maxsize pkt' = w_maxsize pkt \<and>
      w_endfirst pkt' = w_endfirst pkt \<and> w_allocs pkt' = [] \<and> is_grow pkt' = is_grow pkt"
    using rest
    by (intro exI [of _ ?pkt''] exI [of _ sub'] exI [of _ pad]) (simp add: sub'_def)
qed

text \<open>A sub-packet: open it, write the contents, close it.\<close>

definition sub_packet :: "unit wop \<Rightarrow> unit wop \<Rightarrow> unit wop" where
  "sub_packet start body = all_ok [start, body, WPACKET_close]"

text \<open>The length field of contents of \<open>n\<close> bytes fits and is \<open>hdr\<close>.\<close>

definition length_hdr :: "size_t \<Rightarrow> bool \<Rightarrow> nat \<Rightarrow> bytes \<Rightarrow> bool" where
  "length_hdr lenb quic n hdr \<longleftrightarrow> n < 2 ^ 64 \<and>
     (if quic then hdr = ossl_quic_vlint_encode_n (of_nat n) (unat lenb) \<and>
                   ossl_quic_vlint_encode_len (of_nat n) \<le> lenb \<and> unat lenb \<in> {1, 2, 4, 8}
      else hdr = be_bytes (unat lenb) (of_nat n) \<and> n < 2 ^ (8 * unat lenb))"

lemma drop_bit_small: "unat v < 2 ^ n \<Longrightarrow> drop_bit n v = (0 :: u64)"
  by (simp add: u64_eq_nat unat_drop_bit_u64)

lemma writes_sub_packet:
  assumes start: "opens start lenb quic" and body: "writes body bs"
    and hdr: "length_hdr lenb quic (length bs) hdr"
  shows "writes (sub_packet start body) (hdr @ bs)"
proof (rule writesI)
  fix cap pkt
  assume room: "wp_room cap pkt (length (hdr @ bs))"
  have len: "length hdr = unat lenb"
    using hdr length_encode_n by (auto simp: length_hdr_def split: if_splits)
  have "wp_room cap pkt (unat lenb)" by (rule wp_room_less [OF room]) (simp add: len)
  then obtain pkt1 sub pad where s: "start pkt = Some (Some (), pkt1)" "wp_ok cap pkt1" "w_subs pkt1 = sub # w_subs pkt"
    "lenbytes sub = lenb" "unat (pwritten sub) = unat (w_written pkt) + unat lenb" "packet_len sub = w_written pkt"
    "sub_flags sub = (if quic then WPACKET_FLAGS_QUIC_VLINT else 0)" "wp_out pkt1 = wp_out pkt @ pad"
    "length pad = unat lenb" "w_maxsize pkt1 = w_maxsize pkt" "w_endfirst pkt1 = w_endfirst pkt"
    "w_allocs pkt1 = []" "is_grow pkt1 = is_grow pkt"
    by (rule opensE [OF start])
  have ok: "wp_ok cap pkt" and subs: "w_subs pkt \<noteq> []" using room by (auto simp: wp_room_def)
  have w: "length (wp_out pkt) = unat (w_written pkt)" "unat (w_written pkt1) = unat (w_written pkt) + unat lenb"
    using length_wp_out [OF ok] length_wp_out [OF s(2)] s(8,9) by simp_all
  have "wp_room cap pkt1 (length bs)"
    using room s w len by (auto simp: wp_room_def2)
  then obtain pkt2 where b: "body pkt1 = Some (Some (), pkt2)" "wp_ext cap pkt1 pkt2 bs"
    by (rule writesE [OF body])
  have w2: "unat (w_written pkt2) = unat (pwritten sub) + length bs"
    using wp_ext_written [OF s(2) b(2)] w(2) s(5) by simp
  then have "unat (w_written pkt2 - pwritten sub) = length bs"
    by (subst unat_sub_u64) (simp_all add: u64_le_nat)
  then have n: "w_written pkt2 - pwritten sub = of_nat (length bs)"
    by (metis of_nat_unat ucast_id)
  have "drop_bit (8 * unat lenb) (of_nat (length bs) :: u64) = 0" if "\<not> quic"
    using hdr that unat_of_nat_u64 [of "length bs"]
    by (intro drop_bit_small) (simp add: length_hdr_def del: unat_of_nat)
  then have fld: "length_field sub (w_written pkt2 - pwritten sub) hdr"
    using hdr s(4,7) unfolding n
    by (simp add: length_field_def length_hdr_def has_flag_def WPACKET_FLAGS_QUIC_VLINT_def split: if_splits)
  have flags: "\<not> has_flag sub WPACKET_FLAGS_NON_ZERO_LENGTH" "\<not> has_flag sub WPACKET_FLAGS_ABANDON_ON_ZERO_LENGTH"
    using s(7) by (simp_all add: has_flag_def WPACKET_FLAGS_QUIC_VLINT_def
        WPACKET_FLAGS_NON_ZERO_LENGTH_def WPACKET_FLAGS_ABANDON_ON_ZERO_LENGTH_def)
  have x: "wp_ok cap pkt2" "w_subs pkt2 = sub # w_subs pkt" "wp_out pkt2 = wp_out pkt @ pad @ bs" "lenbytes sub \<noteq> 0"
    using b(2) s(3,4,8) start by (auto simp: wp_ext_def opens_def)
  obtain buf where c: "WPACKET_close pkt2 = Some (Some (), pkt2\<lparr>w_buf := buf, w_subs := w_subs pkt\<rparr>)"
    "wp_ok cap (pkt2\<lparr>w_buf := buf, w_subs := w_subs pkt\<rparr>)"
    "wp_out (pkt2\<lparr>w_buf := buf, w_subs := w_subs pkt\<rparr>) =
       take (unat (packet_len sub)) (wp_out pkt2) @ hdr @ drop (unat (pwritten sub)) (wp_out pkt2)"
    "is_grow (pkt2\<lparr>w_buf := buf, w_subs := w_subs pkt\<rparr>) = is_grow pkt2"
    using close_stores [OF x(1,2) subs x(4) flags fld] .
  have "wp_out (pkt2\<lparr>w_buf := buf, w_subs := w_subs pkt\<rparr>) = wp_out pkt @ hdr @ bs"
    unfolding c(3) x(3) using w(1) s(5,6,9) by simp
  then have "wp_ext cap pkt (pkt2\<lparr>w_buf := buf, w_subs := w_subs pkt\<rparr>) (hdr @ bs)"
    using c(2,4) b(2) s(10-13) by (simp add: wp_ext_def)
  then show "\<exists>pkt'. sub_packet start body pkt = Some (Some (), pkt') \<and> wp_ext cap pkt pkt' (hdr @ bs)"
    using s(1) b(1) c(1) by (auto simp: sub_packet_def wbind_def wret_def)
qed

section \<open>Nested sub-packets\<close>

text \<open>A tree of contents: raw bytes, sub-packets with a length of \<open>n\<close> bytes, and QUIC sub-packets with
  the bound \<open>n\<close> on their length.\<close>

datatype witem = Raw bytes | Sub size_t "witem list" | QuicSub size_t "witem list"

fun write_item :: "witem \<Rightarrow> unit wop" where
  "write_item (Raw bs) = WPACKET_memcpy bs"
| "write_item (Sub n items) =
     sub_packet (WPACKET_start_sub_packet_len n) (all_ok (map write_item items))"
| "write_item (QuicSub n items) =
     sub_packet (WPACKET_start_quic_sub_packet_bound n) (all_ok (map write_item items))"

fun item_bytes :: "witem \<Rightarrow> bytes" where
  "item_bytes (Raw bs) = bs"
| "item_bytes (Sub n items) =
     (let bs = concat (map item_bytes items) in be_bytes (unat n) (of_nat (length bs)) @ bs)"
| "item_bytes (QuicSub n items) =
     (let bs = concat (map item_bytes items)
      in ossl_quic_vlint_encode_n (of_nat (length bs)) (unat (ossl_quic_vlint_encode_len n)) @ bs)"

text \<open>Every length fits its field.\<close>

fun item_ok :: "witem \<Rightarrow> bool" where
  "item_ok (Raw bs) \<longleftrightarrow> length bs < 2 ^ 64"
| "item_ok (Sub n items) \<longleftrightarrow> n \<noteq> 0 \<and> list_all item_ok items \<and>
     length (concat (map item_bytes items)) < 2 ^ 64 \<and>
     length (concat (map item_bytes items)) < 2 ^ (8 * unat n)"
| "item_ok (QuicSub n items) \<longleftrightarrow> n \<le> OSSL_QUIC_VLINT_MAX \<and> list_all item_ok items \<and>
     length (concat (map item_bytes items)) \<le> unat n"

lemma encode_len_mono: "v \<le> n \<Longrightarrow> n \<le> OSSL_QUIC_VLINT_MAX \<Longrightarrow>
    ossl_quic_vlint_encode_len v \<le> ossl_quic_vlint_encode_len n"
  by (auto simp: ossl_quic_vlint_encode_len_def)

lemma writes_items:
  assumes "\<And>it. it \<in> set items \<Longrightarrow> writes (write_item it) (item_bytes it)"
  shows "writes (all_ok (map write_item items)) (concat (map item_bytes items))"
  using assms by (intro writes_all_ok) (simp add: list_all2_map1 list_all2_map2 list.rel_refl_strong)

lemma writes_item: "item_ok it \<Longrightarrow> writes (write_item it) (item_bytes it)"
proof (induction it)
  case (Raw bs)
  then show ?case using writes_memcpy [of bs] by simp
next
  case (Sub n items)
  have "writes (all_ok (map write_item items)) (concat (map item_bytes items))"
    using Sub by (intro writes_items) (auto simp: list_all_iff)
  moreover have "length_hdr n False (length (concat (map item_bytes items)))
      (be_bytes (unat n) (of_nat (length (concat (map item_bytes items)))))"
    using Sub.prems by (simp add: length_hdr_def)
  ultimately show ?case
    using writes_sub_packet [OF opens_start_sub] Sub.prems by (simp add: Let_def)
next
  case (QuicSub n items)
  let ?bs = "concat (map item_bytes items)"
  have "writes (all_ok (map write_item items)) ?bs"
    using QuicSub by (intro writes_items) (auto simp: list_all_iff)
  moreover have "length ?bs < 2 ^ 64" using QuicSub.prems unat_u64_bound [of n] by simp
  then have "of_nat (length ?bs) \<le> n"
    using QuicSub.prems unat_of_nat_u64 [of "length ?bs"] by (simp add: u64_le_nat del: unat_of_nat)
  then have "length_hdr (ossl_quic_vlint_encode_len n) True (length ?bs)
      (ossl_quic_vlint_encode_n (of_nat (length ?bs)) (unat (ossl_quic_vlint_encode_len n)))"
    using QuicSub.prems encode_len_mono encode_len_sizes [OF vlint_encode_len_pos [of n]] \<open>length ?bs < 2 ^ 64\<close>
    by (auto simp: length_hdr_def)
  ultimately show ?case
    using writes_sub_packet [OF opens_start_quic] QuicSub.prems by (simp add: Let_def)
qed

section \<open>From initialisation to the finished packet\<close>

lemma init_static_room:
  assumes buf: "buf \<noteq> []" "length buf < 2 ^ 64" and as: "w_allocs pkt = []"
  obtains pkt' sub where "WPACKET_init_static_len buf 0 pkt = Some (Some (), pkt')"
    "wp_room (length buf) pkt' (length buf)" "wp_out pkt' = []" "w_subs pkt' = [sub]" "lenbytes sub = 0" "sub_flags sub = 0"
proof -
  have len: "unat (of_nat (length buf) :: size_t) = length buf" using buf by (simp add: unat_of_nat_u64)
  then have pos: "(of_nat (length buf) :: size_t) > 0" using buf(1) by (simp add: u64_less_nat)
  let ?sub = "\<lparr>packet_len = 0, lenbytes = 0, pwritten = 0, sub_flags = 0\<rparr>"
  let ?pkt' = "pkt\<lparr>w_buf := StaticBuf buf, w_maxsize := of_nat (length buf), w_endfirst := False, w_curr := 0,
    w_written := 0, w_subs := [?sub]\<rparr>"
  have "WPACKET_init_static_len buf 0 pkt = Some (Some (), ?pkt')"
    using pos as
    by (simp add: WPACKET_init_static_len_def wpacket_intern_init_len_def maxmaxsize_def wbind_def zalloc_def
        wret_def Let_def)
  moreover have "wp_room (length buf) ?pkt' (length buf)"
    using len as by (simp add: wp_room_def wp_ok_def buf_ok_def sub_ok_def u64_le_nat del: unat_of_nat)
  ultimately show thesis using that by (simp add: wp_out_def)
qed

lemma finish_keeps:
  assumes "w_subs pkt = [sub]" "lenbytes sub = 0" "sub_flags sub = 0" "\<not> w_endfirst pkt"
  shows "WPACKET_finish pkt = Some (Some (), pkt\<lparr>w_subs := []\<rparr>)"
  using assms
  by (simp add: WPACKET_finish_def wpacket_intern_close_def has_flag_def write_length_def wbind_def wret_def Let_def)

lemma static_packet:
  assumes f: "writes f bs" and buf: "buf \<noteq> []" "length buf < 2 ^ 64" "length bs \<le> length buf" and as: "w_allocs pkt = []"
  obtains pkt' where "all_ok [WPACKET_init_static_len buf 0, f, WPACKET_finish] pkt = Some (Some (), pkt')"
    "take (unat (WPACKET_get_total_written pkt')) (wp_data pkt') = bs" "w_subs pkt' = []"
proof -
  obtain pkt1 sub where 1: "WPACKET_init_static_len buf 0 pkt = Some (Some (), pkt1)"
    "wp_room (length buf) pkt1 (length buf)" "wp_out pkt1 = []" "w_subs pkt1 = [sub]" "lenbytes sub = 0" "sub_flags sub = 0"
    using init_static_room [OF buf(1,2) as] .
  obtain pkt2 where 2: "f pkt1 = Some (Some (), pkt2)" "wp_ext (length buf) pkt1 pkt2 bs"
    using writesE [OF f wp_room_less [OF 1(2) buf(3)]] .
  have "WPACKET_finish pkt2 = Some (Some (), pkt2\<lparr>w_subs := []\<rparr>)"
    using 1 2(2) by (intro finish_keeps [of _ sub]) (auto simp: wp_ext_def wp_room_def)
  then have "all_ok [WPACKET_init_static_len buf 0, f, WPACKET_finish] pkt = Some (Some (), pkt2\<lparr>w_subs := []\<rparr>)"
    using 1(1) 2(1) by (simp add: wbind_def wret_def)
  moreover have "take (unat (w_written pkt2)) (wp_data pkt2) = bs"
    using 2(2) 1(3) by (simp add: wp_ext_def wp_out_def)
  ultimately show thesis using that by (simp add: WPACKET_get_total_written_def wp_data_def)
qed

section \<open>Properties\<close>

text \<open>C12. Sub-packets nest correctly. Contents built from raw bytes and from sub-packets with fixed-size
  and with variable-length length fields, to any depth, come out as the bytes and the length
  fields of what they enclose, although each length is stored only when its sub-packet is closed;
  and this succeeds in every static buffer that is long enough.\<close>

theorem nested_sub_packets:
  assumes "item_ok it" "buf \<noteq> []" "length buf < 2 ^ 64" "length (item_bytes it) \<le> length buf" "w_allocs pkt = []"
  shows "\<exists>pkt'. all_ok [WPACKET_init_static_len buf 0, write_item it, WPACKET_finish] pkt = Some (Some (), pkt') \<and>
    take (unat (WPACKET_get_total_written pkt')) (wp_data pkt') = item_bytes it \<and> w_subs pkt' = []"
  using static_packet [OF writes_item [OF assms(1)] assms(2-5)] by blast

theorem nested_sub_packets_witness:
  "\<exists>pkt'. all_ok [WPACKET_init_static_len (replicate 20 0) 0,
       write_item (Sub 2 [Raw [1, 2], QuicSub 100 [Raw [3], Sub 1 [Raw [4, 5]]]]), WPACKET_finish] blank_wpacket
       = Some (Some (), pkt') \<and>
     take (unat (WPACKET_get_total_written pkt')) (wp_data pkt') = [0, 8, 1, 2, 0x40, 4, 3, 2, 4, 5]"
proof -
  let ?it = "Sub 2 [Raw [1, 2], QuicSub 100 [Raw [3], Sub 1 [Raw [4, 5]]]]"
  have bytes: "item_bytes ?it = [0, 8, 1, 2, 0x40, 4, 3, 2, 4, 5]" by code_simp
  have ok: "item_ok ?it"
    by (simp add: Let_def length_encode_n OSSL_QUIC_VLINT_MAX_def ossl_quic_vlint_encode_len_def
        OSSL_QUIC_VLINT_2B_MIN_def OSSL_QUIC_VLINT_4B_MIN_def)
  have buf: "replicate 20 (0::u8) \<noteq> []" "length (replicate 20 (0::u8)) < 2 ^ 64"
    "length (item_bytes ?it) \<le> length (replicate 20 (0::u8))" "w_allocs blank_wpacket = []"
    unfolding bytes by simp_all
  show ?thesis using nested_sub_packets [OF ok buf] unfolding bytes by blast
qed

end
