(* ===== verification/WireCodec.thy ===== *)
theory WireCodec
  imports WireFrames WPacketOut
begin

unbundle bit_operations_syntax

text \<open>
  The wire format of QUIC frames: what the encoders of \<open>ssl/quic/quic_wire.c\<close> write and that the
  decoders read it back.
\<close>

section \<open>Frames and their bytes\<close>

abbreviation vl :: "u64 \<Rightarrow> bytes" where "vl v \<equiv> ossl_quic_vlint_encode v"

datatype frame =
    Padding size_t
  | Ping
  | Ack frame_ack
  | ResetStream frame_reset_stream
  | StopSending frame_stop_sending
  | Crypto frame_crypto
  | NewToken bytes
  | Stream frame_stream
  | MaxData u64
  | MaxStreamData u64 u64
  | MaxStreams bool u64
  | DataBlocked u64
  | StreamDataBlocked u64 u64
  | StreamsBlocked bool u64
  | NewConnId frame_new_conn_id
  | RetireConnId u64
  | PathChallenge u64
  | PathResponse u64
  | ConnClose frame_conn_close
  | HandshakeDone

text \<open>An operation that returns a pointer, as one that returns whether it succeeded.\<close>

definition succeeds :: "'a wop \<Rightarrow> unit wop" where
  "succeeds f = wbind f (\<lambda>_. wret ())"

text \<open>The encoder for each kind of frame. A stream frame without data is a header alone.\<close>

fun encode_frame :: "u32 \<Rightarrow> frame \<Rightarrow> unit wop" where
  "encode_frame e (Padding n) = ossl_quic_wire_encode_padding n"
| "encode_frame e Ping = ossl_quic_wire_encode_frame_ping"
| "encode_frame e (Ack a) = ossl_quic_wire_encode_frame_ack e a"
| "encode_frame e (ResetStream f) = ossl_quic_wire_encode_frame_reset_stream f"
| "encode_frame e (StopSending f) = ossl_quic_wire_encode_frame_stop_sending f"
| "encode_frame e (Crypto f) = succeeds (ossl_quic_wire_encode_frame_crypto f)"
| "encode_frame e (NewToken t) = ossl_quic_wire_encode_frame_new_token t"
| "encode_frame e (Stream f) =
     (if fs_len f = 0 then ossl_quic_wire_encode_frame_stream_hdr f
      else succeeds (ossl_quic_wire_encode_frame_stream f))"
| "encode_frame e (MaxData v) = ossl_quic_wire_encode_frame_max_data v"
| "encode_frame e (MaxStreamData i v) = ossl_quic_wire_encode_frame_max_stream_data i v"
| "encode_frame e (MaxStreams uni v) = ossl_quic_wire_encode_frame_max_streams uni v"
| "encode_frame e (DataBlocked v) = ossl_quic_wire_encode_frame_data_blocked v"
| "encode_frame e (StreamDataBlocked i v) = ossl_quic_wire_encode_frame_stream_data_blocked i v"
| "encode_frame e (StreamsBlocked uni v) = ossl_quic_wire_encode_frame_streams_blocked uni v"
| "encode_frame e (NewConnId f) = ossl_quic_wire_encode_frame_new_conn_id f"
| "encode_frame e (RetireConnId v) = ossl_quic_wire_encode_frame_retire_conn_id v"
| "encode_frame e (PathChallenge v) = ossl_quic_wire_encode_frame_path_challenge v"
| "encode_frame e (PathResponse v) = ossl_quic_wire_encode_frame_path_response v"
| "encode_frame e (ConnClose f) = ossl_quic_wire_encode_frame_conn_close f"
| "encode_frame e HandshakeDone = ossl_quic_wire_encode_frame_handshake_done"

text \<open>The frame type each kind of frame is sent with.\<close>

fun frame_type_of :: "frame \<Rightarrow> u64" where
  "frame_type_of (Padding n) = OSSL_QUIC_FRAME_TYPE_PADDING"
| "frame_type_of Ping = OSSL_QUIC_FRAME_TYPE_PING"
| "frame_type_of (Ack a) =
     (if ecn_present a then OSSL_QUIC_FRAME_TYPE_ACK_WITH_ECN else OSSL_QUIC_FRAME_TYPE_ACK_WITHOUT_ECN)"
| "frame_type_of (ResetStream f) = OSSL_QUIC_FRAME_TYPE_RESET_STREAM"
| "frame_type_of (StopSending f) = OSSL_QUIC_FRAME_TYPE_STOP_SENDING"
| "frame_type_of (Crypto f) = OSSL_QUIC_FRAME_TYPE_CRYPTO"
| "frame_type_of (NewToken t) = OSSL_QUIC_FRAME_TYPE_NEW_TOKEN"
| "frame_type_of (Stream f) = stream_frame_type f"
| "frame_type_of (MaxData v) = OSSL_QUIC_FRAME_TYPE_MAX_DATA"
| "frame_type_of (MaxStreamData i v) = OSSL_QUIC_FRAME_TYPE_MAX_STREAM_DATA"
| "frame_type_of (MaxStreams uni v) =
     (if uni then OSSL_QUIC_FRAME_TYPE_MAX_STREAMS_UNI else OSSL_QUIC_FRAME_TYPE_MAX_STREAMS_BIDI)"
| "frame_type_of (DataBlocked v) = OSSL_QUIC_FRAME_TYPE_DATA_BLOCKED"
| "frame_type_of (StreamDataBlocked i v) = OSSL_QUIC_FRAME_TYPE_STREAM_DATA_BLOCKED"
| "frame_type_of (StreamsBlocked uni v) =
     (if uni then OSSL_QUIC_FRAME_TYPE_STREAMS_BLOCKED_UNI else OSSL_QUIC_FRAME_TYPE_STREAMS_BLOCKED_BIDI)"
| "frame_type_of (NewConnId f) = OSSL_QUIC_FRAME_TYPE_NEW_CONN_ID"
| "frame_type_of (RetireConnId v) = OSSL_QUIC_FRAME_TYPE_RETIRE_CONN_ID"
| "frame_type_of (PathChallenge v) = OSSL_QUIC_FRAME_TYPE_PATH_CHALLENGE"
| "frame_type_of (PathResponse v) = OSSL_QUIC_FRAME_TYPE_PATH_RESPONSE"
| "frame_type_of (ConnClose f) =
     (if is_app f then OSSL_QUIC_FRAME_TYPE_CONN_CLOSE_APP else OSSL_QUIC_FRAME_TYPE_CONN_CLOSE_TRANSPORT)"
| "frame_type_of HandshakeDone = OSSL_QUIC_FRAME_TYPE_HANDSHAKE_DONE"

text \<open>The delay of an acknowledgement in units of \<open>2\<^sup>e\<close> microseconds, rounded down.\<close>

definition ack_delay_units :: "u32 \<Rightarrow> ossl_time \<Rightarrow> u64" where
  "ack_delay_units e t = ossl_time_divide (ossl_time_divide t OSSL_TIME_US) (push_bit (unat e) 1)"

fun ack_ranges_fields :: "ack_range \<Rightarrow> ack_range list \<Rightarrow> u64 list" where
  "ack_ranges_fields prev [] = []"
| "ack_ranges_fields prev (r # rs) =
     (ar_start prev - ar_end r - 2) # (ar_end r - ar_start r) # ack_ranges_fields r rs"

definition ack_fields :: "u32 \<Rightarrow> frame_ack \<Rightarrow> u64 list" where
  "ack_fields e a =
     (let r = hd (ack_ranges a); rs = tl (ack_ranges a) in
      [ar_end r, ack_delay_units e (delay_time a), of_nat (length rs), ar_end r - ar_start r] @
      ack_ranges_fields r rs @ (if ecn_present a then [ect0 a, ect1 a, ecnce a] else []))"

text \<open>The variable-length integers that follow the frame type, and the bytes after them.\<close>

fun frame_fields :: "u32 \<Rightarrow> frame \<Rightarrow> u64 list" where
  "frame_fields e (Ack a) = ack_fields e a"
| "frame_fields e (ResetStream f) = [rs_stream_id f, rs_app_error_code f, final_size f]"
| "frame_fields e (StopSending f) = [ss_stream_id f, ss_app_error_code f]"
| "frame_fields e (Crypto f) = [fc_offset f, fc_len f]"
| "frame_fields e (NewToken t) = [of_nat (length t)]"
| "frame_fields e (Stream f) =
     [fs_stream_id f] @ (if fs_offset f \<noteq> 0 then [fs_offset f] else []) @
     (if has_explicit_len f then [fs_len f] else [])"
| "frame_fields e (MaxData v) = [v]"
| "frame_fields e (MaxStreamData i v) = [i, v]"
| "frame_fields e (MaxStreams uni v) = [v]"
| "frame_fields e (DataBlocked v) = [v]"
| "frame_fields e (StreamDataBlocked i v) = [i, v]"
| "frame_fields e (StreamsBlocked uni v) = [v]"
| "frame_fields e (NewConnId f) = [nc_seq_num f, nc_retire_prior_to f]"
| "frame_fields e (RetireConnId v) = [v]"
| "frame_fields e (ConnClose f) =
     [error_code f] @ (if is_app f then [] else [cc_frame_type f]) @ [of_nat (length (reason f))]"
| "frame_fields e _ = []"

fun frame_payload :: "frame \<Rightarrow> bytes" where
  "frame_payload (Padding n) = replicate (unat n - 1) 0"
| "frame_payload (Crypto f) = the (fc_data f)"
| "frame_payload (NewToken t) = t"
| "frame_payload (Stream f) = the (fs_data f)"
| "frame_payload (NewConnId f) =
     id_len (nc_conn_id f) # take (unat (id_len (nc_conn_id f))) (cid_id (nc_conn_id f)) @ nc_stateless_reset f"
| "frame_payload (PathChallenge v) = be_bytes 8 v"
| "frame_payload (PathResponse v) = be_bytes 8 v"
| "frame_payload (ConnClose f) = reason f"
| "frame_payload _ = []"

definition frame_bytes :: "u32 \<Rightarrow> frame \<Rightarrow> bytes" where
  "frame_bytes e f = vl (frame_type_of f) @ concat (map vl (frame_fields e f)) @ frame_payload f"

text \<open>Ranges in descending order, each one non-empty, with at least one number between two of them.\<close>

fun descending :: "ack_range list \<Rightarrow> bool" where
  "descending [] \<longleftrightarrow> True"
| "descending [r] \<longleftrightarrow> ar_start r \<le> ar_end r"
| "descending (r # s # rs) \<longleftrightarrow> ar_start r \<le> ar_end r \<and> unat (ar_end s) + 2 \<le> unat (ar_start r) \<and> descending (s # rs)"

text \<open>The acknowledgements that can be sent.\<close>

definition ack_wf :: "u32 \<Rightarrow> frame_ack \<Rightarrow> bool" where
  "ack_wf e a \<longleftrightarrow> unat e < 64 \<and> ack_ranges a \<noteq> [] \<and> descending (ack_ranges a) \<and>
     length (ack_ranges a) < 2 ^ 62 \<and> list_all vlint_ok (ack_fields e a)"

text \<open>The frames that can be sent: integers below \<open>2\<^sup>62\<close>, lengths as announced, offsets within the
  stream limit, a connection ID of 1 to 20 bytes.\<close>

fun frame_wf :: "u32 \<Rightarrow> frame \<Rightarrow> bool" where
  "frame_wf e (Padding n) \<longleftrightarrow> n \<noteq> 0"
| "frame_wf e (Ack a) \<longleftrightarrow> unat e < 64 \<and> ack_ranges a \<noteq> [] \<and> descending (ack_ranges a) \<and>
     length (ack_ranges a) < 2 ^ 62"
| "frame_wf e (Crypto f) \<longleftrightarrow>
     (case fc_data f of None \<Rightarrow> False
      | Some d \<Rightarrow> d \<noteq> [] \<and> unat (fc_offset f) + length d < 2 ^ 62 \<and> fc_len f = of_nat (length d))"
| "frame_wf e (NewToken t) \<longleftrightarrow> length t < 2 ^ 62"
| "frame_wf e (Stream f) \<longleftrightarrow>
     (case fs_data f of None \<Rightarrow> False
      | Some d \<Rightarrow> unat (fs_offset f) + length d < 2 ^ 62 \<and> fs_len f = of_nat (length d))"
| "frame_wf e (NewConnId f) \<longleftrightarrow>
     nc_retire_prior_to f \<le> nc_seq_num f \<and>
     1 \<le> unat (id_len (nc_conn_id f)) \<and> unat (id_len (nc_conn_id f)) \<le> QUIC_MAX_CONN_ID_LEN \<and>
     length (cid_id (nc_conn_id f)) = QUIC_MAX_CONN_ID_LEN \<and>
     length (nc_stateless_reset f) = QUIC_STATELESS_RESET_TOKEN_LEN"
| "frame_wf e (ConnClose f) \<longleftrightarrow> length (reason f) < 2 ^ 62"
| "frame_wf e _ \<longleftrightarrow> True"

definition frame_ok :: "u32 \<Rightarrow> frame \<Rightarrow> bool" where
  "frame_ok e f \<longleftrightarrow> frame_wf e f \<and> list_all vlint_ok (frame_fields e f)"

section \<open>What the encoders write\<close>

lemma writes_Nil: "writes (all_ok []) []" by simp

lemma writes_Cons: "writes f as \<Longrightarrow> writes (all_ok fs) bs \<Longrightarrow> writes (all_ok (f # fs)) (as @ bs)"
  by (simp add: writes_bind)

lemma writes_eq: "writes f as \<Longrightarrow> as = bs \<Longrightarrow> writes f bs" by simp

lemma writes_if:
  "(c \<Longrightarrow> writes f as) \<Longrightarrow> (\<not> c \<Longrightarrow> writes g bs) \<Longrightarrow> writes (if c then f else g) (if c then as else bs)"
  by simp

lemma writes_vlint_ok: "vlint_ok v \<Longrightarrow> writes (WPACKET_quic_write_vlint v) (vl v)"
  by (simp add: vlint_ok_def writes_vlint)

lemma vlint_ok_small: "v < 64 \<Longrightarrow> vlint_ok v"
  by (simp add: vlint_ok_def OSSL_QUIC_VLINT_MAX_def word_less_nat_alt word_le_nat_alt)

lemma frame_type_small: "frame_type_of f < 64"
  by (cases f) (simp_all add: frame_types stream_flags stream_frame_type_def)

lemma writes_hdr: "t < 64 \<Longrightarrow> writes (encode_frame_hdr t) (vl t)"
  by (simp add: encode_frame_hdr_def writes_vlint_ok vlint_ok_small)

lemmas writes_parts = writes_Cons writes_Nil writes_if writes_hdr writes_vlint_ok writes_ret

lemma writes_encode_ack_ranges:
  "list_all vlint_ok (ack_ranges_fields prev rs) \<Longrightarrow>
   writes (encode_ack_ranges prev rs) (concat (map vl (ack_ranges_fields prev rs)))"
proof (induction rs arbitrary: prev)
  case (Cons r rs)
  then have "writes (all_ok [WPACKET_quic_write_vlint (ar_start prev - ar_end r - 2),
      WPACKET_quic_write_vlint (ar_end r - ar_start r), encode_ack_ranges r rs])
      (vl (ar_start prev - ar_end r - 2) @ vl (ar_end r - ar_start r) @
       concat (map vl (ack_ranges_fields r rs)) @ [])"
    by (intro writes_parts) simp_all
  then show ?case by simp
qed simp

lemma wbind_assoc: "wbind (wbind f g) h = wbind f (\<lambda>x. wbind (g x) h)"
  by (rule ext) (simp add: wbind_def split: option.split prod.split)

lemma wbind_ret_left: "wbind (wret x) f = f x"
  by (rule ext) (simp add: wbind_def wret_def)

lemma wbind_ret_right: "wbind f wret = f"
  by (rule ext) (auto simp: wbind_def wret_def split: option.split prod.split)

lemma succeeds_bind: "succeeds (wbind f g) = wbind f (\<lambda>x. succeeds (g x))"
  by (simp add: succeeds_def wbind_assoc)

text \<open>Allocating room for data, copying them there and returning the pointer.\<close>

lemma writes_alloc_copy:
  assumes "bs \<noteq> []" "length bs = unat len"
  shows "writes (succeeds (wbind (WPACKET_allocate_bytes len) (\<lambda>p.
    wbind (copy_to p (Some bs) len) (\<lambda>_. return_ptr p)))) bs"
proof -
  have "succeeds (wbind (copy_to (Some off) (Some bs) len) (\<lambda>_. return_ptr (Some off))) = store (Some off) bs" for off
    using assms
    by (simp add: succeeds_def copy_to_def return_ptr_def wbind_assoc wbind_ret_left wbind_ret_right)
  then show ?thesis
    unfolding succeeds_bind using assms by (intro writes_allocate_then) simp_all
qed

lemma of_nat_data: "length d < 2 ^ 62 \<Longrightarrow> unat (of_nat (length d) :: u64) = length d"
  by (rule unat_of_nat_u64) simp

lemma writes_crypto:
  assumes "frame_ok e (Crypto f)"
  shows "writes (encode_frame e (Crypto f)) (frame_bytes e (Crypto f))"
proof -
  obtain d where d: "fc_data f = Some d" "d \<noteq> []" "length d < 2 ^ 62" "fc_len f = of_nat (length d)"
    using assms by (auto simp: frame_ok_def split: option.splits)
  have 1: "writes (ossl_quic_wire_encode_frame_crypto_hdr f)
      (vl OSSL_QUIC_FRAME_TYPE_CRYPTO @ vl (fc_offset f) @ vl (fc_len f) @ [])"
    unfolding ossl_quic_wire_encode_frame_crypto_hdr_def
    using assms by (intro writes_parts) (simp_all add: frame_ok_def frame_types)
  have 2: "writes (succeeds (wbind (WPACKET_allocate_bytes (fc_len f)) (\<lambda>p.
      wbind (copy_to p (fc_data f) (fc_len f)) (\<lambda>_. return_ptr p)))) d"
    unfolding d(1) using d of_nat_data [OF d(3)] by (intro writes_alloc_copy) (simp_all del: unat_of_nat)
  show ?thesis
    using writes_bind [OF 1 2] d
    by (simp add: frame_bytes_def ossl_quic_wire_encode_frame_crypto_def succeeds_bind not_less)
qed

lemma writes_stream_hdr:
  assumes "frame_ok e (Stream f)"
  shows "writes (ossl_quic_wire_encode_frame_stream_hdr f)
    (vl (stream_frame_type f) @ concat (map vl (frame_fields e (Stream f))))"
proof (rule writes_eq)
  show "writes (ossl_quic_wire_encode_frame_stream_hdr f)
      (vl (stream_frame_type f) @ vl (fs_stream_id f) @ (if fs_offset f \<noteq> 0 then vl (fs_offset f) else []) @
       (if has_explicit_len f then vl (fs_len f) else []) @ [])"
    unfolding ossl_quic_wire_encode_frame_stream_hdr_def
    using assms frame_type_small [of "Stream f"] by (intro writes_parts) (simp_all add: frame_ok_def)
qed simp

lemma writes_stream:
  assumes "frame_ok e (Stream f)"
  shows "writes (encode_frame e (Stream f)) (frame_bytes e (Stream f))"
proof -
  obtain d where d: "fs_data f = Some d" "length d < 2 ^ 62" "fs_len f = of_nat (length d)"
    using assms by (auto simp: frame_ok_def split: option.splits)
  note len = of_nat_data [OF d(2)]
  show ?thesis
  proof (cases "d = []")
    case True
    then show ?thesis using writes_stream_hdr [OF assms] d by (simp add: frame_bytes_def)
  next
    case False
    then have "writes (succeeds (wbind (WPACKET_allocate_bytes (fs_len f)) (\<lambda>p.
        wbind (copy_to p (fs_data f) (fs_len f)) (\<lambda>_. return_ptr p)))) d"
      unfolding d(1) using d len by (intro writes_alloc_copy) (simp_all del: unat_of_nat)
    moreover have "fs_len f \<noteq> 0" using False len d(3) by (metis length_0_conv unat_0)
    ultimately show ?thesis
      using writes_bind [OF writes_stream_hdr [OF assms]] d(1)
      by (simp add: frame_bytes_def ossl_quic_wire_encode_frame_stream_def succeeds_bind not_less)
  qed
qed

lemma writes_ack:
  assumes "ack_wf e a"
  shows "writes (ossl_quic_wire_encode_frame_ack e a) (frame_bytes e (Ack a))"
proof -
  obtain r rs where a: "ack_ranges a = r # rs" "unat e < 64"
    using assms by (cases "ack_ranges a") (auto simp: ack_wf_def)
  have eq: "ossl_quic_wire_encode_frame_ack e a = all_ok
     [encode_frame_hdr (frame_type_of (Ack a)), WPACKET_quic_write_vlint (ar_end r),
      WPACKET_quic_write_vlint (ack_delay_units e (delay_time a)), WPACKET_quic_write_vlint (of_nat (length rs)),
      WPACKET_quic_write_vlint (ar_end r - ar_start r), encode_ack_ranges r rs,
      if ecn_present a
      then all_ok [WPACKET_quic_write_vlint (ect0 a), WPACKET_quic_write_vlint (ect1 a),
                   WPACKET_quic_write_vlint (ecnce a)]
      else wret ()]"
    using a
    by (simp add: ossl_quic_wire_encode_frame_ack_def ack_delay_units_def ossl_time2ticks_def Let_def del: all_ok.simps)
  have "writes (ossl_quic_wire_encode_frame_ack e a)
     (vl (frame_type_of (Ack a)) @ vl (ar_end r) @ vl (ack_delay_units e (delay_time a)) @
      vl (of_nat (length rs)) @ vl (ar_end r - ar_start r) @ concat (map vl (ack_ranges_fields r rs)) @
      (if ecn_present a then vl (ect0 a) @ vl (ect1 a) @ vl (ecnce a) @ [] else []) @ [])"
    unfolding eq using assms a(1) frame_type_small [of "Ack a"]
    by (intro writes_parts writes_encode_ack_ranges) (simp_all add: ack_wf_def ack_fields_def)
  then show ?thesis
    using a(1) by (simp add: frame_bytes_def ack_fields_def split: if_splits)
qed

lemma put_1_byte: "writes (WPACKET_put_bytes_n (from_u8 b) 1) [b]"
proof -
  have "to_u8 (from_u8 b) = b" by (rule bit_word_eqI) (simp add: bit_ucast_iff)
  moreover have "drop_bit 8 (from_u8 b) = 0"
    by (rule bit_word_eqI) (auto simp: bit_drop_bit_eq bit_ucast_iff dest: bit_imp_le_length)
  ultimately show ?thesis using writes_put_bytes [of 1 "from_u8 b"] by simp
qed

lemma put_8_bytes: "writes (WPACKET_put_bytes_n v 8) (be_bytes 8 v)"
proof -
  have "drop_bit 64 v = 0"
    by (rule bit_word_eqI) (auto simp: bit_drop_bit_eq dest: bit_imp_le_length)
  then show ?thesis using writes_put_bytes [of 8 v] by simp
qed

lemma writes_new_conn_id:
  assumes "frame_ok e (NewConnId f)"
  shows "writes (encode_frame e (NewConnId f)) (frame_bytes e (NewConnId f))"
proof -
  let ?n = "unat (id_len (nc_conn_id f))"
  have n: "1 \<le> ?n" "?n \<le> QUIC_MAX_CONN_ID_LEN"
    and lens: "length (cid_id (nc_conn_id f)) = QUIC_MAX_CONN_ID_LEN"
      "length (nc_stateless_reset f) = QUIC_STATELESS_RESET_TOKEN_LEN"
    using assms by (auto simp: frame_ok_def)
  have len: "writes (WPACKET_put_bytes_n (ucast (id_len (nc_conn_id f))) 1) [id_len (nc_conn_id f)]"
    using put_1_byte by blast
  have "writes (all_ok [encode_frame_hdr OSSL_QUIC_FRAME_TYPE_NEW_CONN_ID,
      WPACKET_quic_write_vlint (nc_seq_num f), WPACKET_quic_write_vlint (nc_retire_prior_to f),
      WPACKET_put_bytes_n (ucast (id_len (nc_conn_id f))) 1,
      WPACKET_memcpy (take ?n (cid_id (nc_conn_id f))),
      WPACKET_memcpy (take QUIC_STATELESS_RESET_TOKEN_LEN (nc_stateless_reset f))])
     (vl OSSL_QUIC_FRAME_TYPE_NEW_CONN_ID @ vl (nc_seq_num f) @ vl (nc_retire_prior_to f) @
      [id_len (nc_conn_id f)] @ take ?n (cid_id (nc_conn_id f)) @
      take QUIC_STATELESS_RESET_TOKEN_LEN (nc_stateless_reset f) @ [])"
    using assms lens
    by (intro writes_parts len writes_memcpy)
      (simp_all add: frame_ok_def frame_types QUIC_MAX_CONN_ID_LEN_def QUIC_STATELESS_RESET_TOKEN_LEN_def)
  then show ?thesis
    using n lens by (simp add: frame_bytes_def ossl_quic_wire_encode_frame_new_conn_id_def Let_def del: all_ok.simps)
qed

lemma writes_conn_close:
  assumes "frame_ok e (ConnClose f)"
  shows "writes (encode_frame e (ConnClose f)) (frame_bytes e (ConnClose f))"
proof -
  have "writes (ossl_quic_wire_encode_frame_conn_close f)
     (vl (frame_type_of (ConnClose f)) @ vl (error_code f) @
      (if \<not> is_app f then vl (cc_frame_type f) else []) @ vl (of_nat (length (reason f))) @ reason f @ [])"
    unfolding ossl_quic_wire_encode_frame_conn_close_def frame_type_of.simps
    using assms frame_type_small [of "ConnClose f"]
    by (intro writes_parts writes_memcpy) (simp_all add: frame_ok_def frame_types)
  then show ?thesis by (simp add: frame_bytes_def split: if_splits)
qed

lemma vl_small: "t < 64 \<Longrightarrow> vl t = [to_u8 t]"
  by (simp add: ossl_quic_vlint_encode_def ossl_quic_vlint_encode_n_def ossl_quic_vlint_encode_len_def
      OSSL_QUIC_VLINT_2B_MIN_def)

lemma padding_bytes:
  assumes "n \<noteq> 0"
  shows "frame_bytes e (Padding n) = replicate (unat n) 0"
proof -
  have "frame_bytes e (Padding n) = replicate (Suc (unat n - 1)) 0"
    by (simp add: frame_bytes_def frame_types vl_small)
  also have "Suc (unat n - 1) = unat n" using assms by (simp add: unat_gt_0)
  finally show ?thesis .
qed

lemma writes_padding: "n \<noteq> 0 \<Longrightarrow> writes (encode_frame e (Padding n)) (frame_bytes e (Padding n))"
  by (simp add: padding_bytes ossl_quic_wire_encode_padding_def writes_memset)

lemmas encoder_defs =
  ossl_quic_wire_encode_frame_ping_def ossl_quic_wire_encode_frame_reset_stream_def
  ossl_quic_wire_encode_frame_stop_sending_def ossl_quic_wire_encode_frame_new_token_def
  ossl_quic_wire_encode_frame_max_data_def ossl_quic_wire_encode_frame_max_stream_data_def
  ossl_quic_wire_encode_frame_max_streams_def ossl_quic_wire_encode_frame_data_blocked_def
  ossl_quic_wire_encode_frame_stream_data_blocked_def ossl_quic_wire_encode_frame_streams_blocked_def
  ossl_quic_wire_encode_frame_retire_conn_id_def ossl_quic_wire_encode_frame_path_challenge_def
  ossl_quic_wire_encode_frame_path_response_def ossl_quic_wire_encode_frame_handshake_done_def

text \<open>The other frames are a type and a list of integers with at most one string after them.\<close>

lemma writes_fields:
  "list_all vlint_ok vs \<Longrightarrow> writes (all_ok ops) bs \<Longrightarrow>
   writes (all_ok (map WPACKET_quic_write_vlint vs @ ops)) (concat (map vl vs) @ bs)"
  by (induction vs) (simp_all add: writes_bind writes_vlint_ok)

lemma writes_simple:
  assumes "frame_ok e f" "writes (all_ok ops) (frame_payload f)"
    and "encode_frame e f =
      all_ok (encode_frame_hdr (frame_type_of f) # map WPACKET_quic_write_vlint (frame_fields e f) @ ops)"
  shows "writes (encode_frame e f) (frame_bytes e f)"
  unfolding assms(3) frame_bytes_def
  using assms(1,2) by (intro writes_Cons writes_hdr writes_fields frame_type_small) (auto simp: frame_ok_def)

lemma writes_one: "writes f bs \<Longrightarrow> writes (all_ok [f]) bs"
  using writes_Cons [OF _ writes_Nil] by fastforce

lemma writes_frame:
  assumes "frame_ok e f"
  shows "writes (encode_frame e f) (frame_bytes e f)"
proof (cases f)
  case (NewToken t)
  show ?thesis
    using assms NewToken
    by (intro writes_simple [where ops = "[WPACKET_memcpy t]"] writes_one)
      (simp_all add: encoder_defs frame_ok_def writes_memcpy)
next
  case (PathChallenge v)
  show ?thesis
    using assms PathChallenge
    by (intro writes_simple [where ops = "[WPACKET_put_bytes_n v 8]"] writes_one)
      (simp_all add: encoder_defs put_8_bytes)
next
  case (PathResponse v)
  show ?thesis
    using assms PathResponse
    by (intro writes_simple [where ops = "[WPACKET_put_bytes_n v 8]"] writes_one)
      (simp_all add: encoder_defs put_8_bytes)
next
  case (Padding n)
  then show ?thesis using assms writes_padding by (simp add: frame_ok_def del: encode_frame.simps)
next
  case (Ack a)
  then show ?thesis using assms writes_ack [of e a] by (simp add: frame_ok_def ack_wf_def)
next
  case (Crypto c)
  then show ?thesis using assms writes_crypto by blast
next
  case (Stream s)
  then show ?thesis using assms writes_stream by blast
next
  case (NewConnId c)
  then show ?thesis using assms writes_new_conn_id by blast
next
  case (ConnClose c)
  then show ?thesis using assms writes_conn_close by blast
qed (insert assms, (rule writes_simple [where ops = "[]"]; simp add: encoder_defs wbind_ret_right)+)

section \<open>What the decoders read\<close>

lemma skip_header [simp]: "vlint_ok t \<Longrightarrow> ossl_quic_wire_skip_frame_header (vl t @ r) = (Some t, r)"
  by (simp add: ossl_quic_wire_skip_frame_header_def)

lemma expect_header [simp]: "vlint_ok t \<Longrightarrow> expect_frame_header t (vl t @ r) = (Some (), r)"
  by (simp add: expect_frame_header_def read_then_simps read_return_def)

lemma expect_header_mask [simp]:
  "vlint_ok t \<Longrightarrow> t AND NOT m = t' \<Longrightarrow> expect_frame_header_mask t' m (vl t @ r) = (Some t, r)"
  by (simp add: expect_frame_header_mask_def read_then_simps read_return_def)

lemma data_forward_append [simp]: "n = length d \<Longrightarrow> data_forward n (d @ r) = (Some d, r)"
  by (simp add: data_forward_def PACKET_data_def PACKET_forward_def PACKET_remaining_def packet_forward_def
      read_then_def read_return_def)

lemma skip_vlint [simp]: "vlint_ok v \<Longrightarrow> PACKET_skip_quic_vlint (vl v @ r) = (Some (), r)"
  using get_vlint_encode [of v r]
  by (simp add: PACKET_skip_quic_vlint_def PACKET_get_quic_vlint_def Let_def split: if_splits)

text \<open>The arithmetic of one range: the gap and the length that were sent give the range back, and
  they pass the checks also when they are counted from a larger packet number.\<close>

lemma range_step:
  assumes "ar_start r \<le> ar_end r" "unat (ar_end r) + 2 \<le> unat (ar_start prev)" "ar_start prev \<le> start"
  defines "gap \<equiv> ar_start prev - ar_end r - 2" and "len \<equiv> ar_end r - ar_start r"
  shows "\<not> start < gap + 2" "\<not> start - gap - 2 < len"
    and "start = ar_start prev \<Longrightarrow> start - gap - 2 = ar_end r"
    and "start = ar_start prev \<Longrightarrow> ar_end r - len = ar_start r"
proof -
  have gap: "gap + 2 = ar_start prev - ar_end r" by (simp add: gap_def)
  have n: "unat (ar_start prev - ar_end r) = unat (ar_start prev) - unat (ar_end r)"
    using assms(2) by (intro unat_sub) (simp add: word_le_nat_alt)
  show "\<not> start < gap + 2"
    using assms(3) n unfolding gap by (simp add: u64_less_nat u64_le_nat)
  have "unat (start - (ar_start prev - ar_end r)) = unat start - (unat (ar_start prev) - unat (ar_end r))"
    using assms(3) n by (subst unat_sub) (simp_all add: word_le_nat_alt)
  moreover have "start - gap - 2 = start - (ar_start prev - ar_end r)" by (simp add: gap_def)
  ultimately have "unat (start - gap - 2) = unat start - (unat (ar_start prev) - unat (ar_end r))" by metis
  moreover have "unat len = unat (ar_end r) - unat (ar_start r)"
    unfolding len_def using assms(1) by (rule unat_sub)
  ultimately show "\<not> start - gap - 2 < len"
    using assms(1-3) n by (simp add: u64_less_nat u64_le_nat)
qed (simp_all add: assms(4,5))

lemma decode_ack_ranges_fields:
  assumes "descending (prev # rs)" "list_all vlint_ok (ack_ranges_fields prev rs)" "ar_start prev \<le> start"
    and "ack_ranges a = pre @ old" "length pre \<le> i + 1"
    and "old \<noteq> [] \<Longrightarrow> start = ar_start prev \<and> length pre = i + 1"
  shows "decode_ack_ranges i (length rs) start (Some a) (concat (map vl (ack_ranges_fields prev rs)) @ r) =
    (Some (Some (a\<lparr>ack_ranges := pre @ take (length old) rs @ drop (length rs) old\<rparr>)), r)"
  using assms
proof (induction rs arbitrary: prev start old a pre i)
  case Nil
  then show ?case by (simp add: read_return_def)
next
  case (Cons x rs)
  have x: "ar_start x \<le> ar_end x" "unat (ar_end x) + 2 \<le> unat (ar_start prev)" "descending (x # rs)"
    using Cons.prems(1) by (cases rs; simp)+
  note step = range_step [OF x(1,2) Cons.prems(3)]
  show ?case
  proof (cases old)
    case Nil
    have "ar_start x \<le> start"
      using x Cons.prems(3) by (simp add: u64_le_nat)
    then have "decode_ack_ranges (i + 1) (length rs) start (Some a) (concat (map vl (ack_ranges_fields x rs)) @ r) =
        (Some (Some (a\<lparr>ack_ranges := pre\<rparr>)), r)"
      using Cons.IH [of x start a pre "[]" "i + 1"] Cons.prems Nil x(3) by simp
    then show ?thesis
      using Cons.prems step(1,2) Nil by (simp add: read_then_simps Let_def)
  next
    case old: (Cons o' old')
    have start: "start = ar_start prev" "length pre = i + 1" using Cons.prems(6) old by simp_all
    have eta: "\<lparr>ar_start = ar_start x, ar_end = ar_end x\<rparr> = x" by simp
    have upd: "(ack_ranges a)[i + 1 := x] = (pre @ [x]) @ old'"
      using Cons.prems(4) old start(2) by (simp add: list_update_append)
    have "decode_ack_ranges (i + 1) (length rs) (ar_start x) (Some (store_range (i + 1) x a))
        (concat (map vl (ack_ranges_fields x rs)) @ r) =
      (Some (Some (a\<lparr>ack_ranges := (pre @ [x]) @ take (length old') rs @ drop (length rs) old'\<rparr>)), r)"
      using Cons.IH [of x "ar_start x" "store_range (i + 1) x a" "pre @ [x]" old' "i + 1"] Cons.prems(2) x(3) start(2) upd
      by (simp add: store_range_def)
    then show ?thesis
      using Cons.prems step start old by (simp add: read_then_simps Let_def eta)
  qed
qed

lemma ack_type:
  "frame_type_of (Ack a) AND NOT 1 = OSSL_QUIC_FRAME_TYPE_ACK_WITHOUT_ECN" "vlint_ok (frame_type_of (Ack a))"
  "frame_type_of (Ack a) = OSSL_QUIC_FRAME_TYPE_ACK_WITH_ECN \<longleftrightarrow> ecn_present a"
  by (simp_all add: frame_types vlint_ok_small)

lemma decode_ack_fields_bytes:
  assumes "ack_wf e a" "ack_ranges a = x # rs"
  shows "decode_ack_fields (frame_bytes e (Ack a) @ r) =
    (Some (frame_type_of (Ack a), ar_end x, ack_delay_units e (delay_time a), of_nat (length rs), ar_end x - ar_start x),
     concat (map vl (ack_ranges_fields x rs)) @ concat (map vl (if ecn_present a then [ect0 a, ect1 a, ecnce a] else [])) @ r)"
proof -
  have x: "ar_start x \<le> ar_end x" using assms by (cases rs) (auto simp: ack_wf_def)
  then have "\<not> ar_end x < ar_end x - ar_start x"
    using unat_sub [OF x] by (simp add: u64_less_nat)
  then show ?thesis
    using assms ack_type [of a]
    by (simp add: decode_ack_fields_def frame_bytes_def ack_fields_def ack_wf_def read_then_simps read_return_def
        del: frame_type_of.simps)
qed

lemma decode_ack_ecn_bytes:
  assumes "ack_wf e a"
  shows "decode_ack_ecn (frame_type_of (Ack a)) (Some b)
      (concat (map vl (if ecn_present a then [ect0 a, ect1 a, ecnce a] else [])) @ r) =
    (Some (Some (b\<lparr>ect0 := (if ecn_present a then ect0 a else ect0 b), ect1 := (if ecn_present a then ect1 a else ect1 b),
       ecnce := (if ecn_present a then ecnce a else ecnce b), ecn_present := ecn_present a\<rparr>)), r)"
  using assms ack_type(3) [of a]
  by (cases "ecn_present a")
    (simp_all add: decode_ack_ecn_def read_then_simps read_return_def ack_wf_def ack_fields_def Let_def
      del: frame_type_of.simps)

text \<open>Decoding an acknowledgement into an array of any size gives as many ranges as fit.\<close>

lemma decode_ack_bytes:
  assumes wf: "ack_wf e a"
  shows "ossl_quic_wire_decode_frame_ack e (Some b) (frame_bytes e (Ack a) @ r) =
    Some (Some (Some
      \<lparr>ack_ranges = take (length (ack_ranges b)) (ack_ranges a),
       delay_time = decode_ack_delay e (ack_delay_units e (delay_time a)),
       ect0 = (if ecn_present a then ect0 a else ect0 b), ect1 = (if ecn_present a then ect1 a else ect1 b),
       ecnce = (if ecn_present a then ecnce a else ecnce b), ecn_present = ecn_present a\<rparr>,
      of_nat (length (ack_ranges a))), r)"
proof -
  obtain x rs where a: "ack_ranges a = x # rs"
    using wf by (cases "ack_ranges a") (auto simp: ack_wf_def)
  have n: "unat (of_nat (length rs) :: u64) = length rs"
    using wf a by (intro unat_of_nat_u64) (simp add: ack_wf_def)
  define old where "old = tl (ack_ranges b)"
  define pre where "pre = (if ack_ranges b = [] then [] else [x])"
  define b1 where "b1 = b\<lparr>delay_time := decode_ack_delay e (ack_delay_units e (delay_time a)), ack_ranges := pre @ old\<rparr>"
  have eta: "\<lparr>ar_start = ar_start x, ar_end = ar_end x\<rparr> = x" by simp
  have first: "(let c = b\<lparr>delay_time := decode_ack_delay e (ack_delay_units e (delay_time a))\<rparr> in
      if length (ack_ranges c) > 0 then store_range 0 \<lparr>ar_start = ar_end x - (ar_end x - ar_start x), ar_end = ar_end x\<rparr> c else c) = b1"
    by (cases "ack_ranges b") (simp_all add: b1_def pre_def old_def store_range_def eta)
  have loop: "decode_ack_ranges 0 (length rs) (ar_start x) (Some b1)
      (concat (map vl (ack_ranges_fields x rs)) @ q) =
      (Some (Some (b1\<lparr>ack_ranges := pre @ take (length old) rs @ drop (length rs) old\<rparr>)), q)" for q
    using wf a
    by (intro decode_ack_ranges_fields)
      (auto simp: b1_def pre_def old_def ack_wf_def ack_fields_def split: if_splits)
  have cut: "take (Suc (length rs)) (pre @ take (length old) rs @ drop (length rs) old)
      = take (length (ack_ranges b)) (x # rs)"
    by (cases "ack_ranges b") (auto simp: pre_def old_def min_def)
  have fin: "b1\<lparr>ack_ranges := R, ect0 := E0, ect1 := E1, ecnce := C, ecn_present := P\<rparr> =
      \<lparr>ack_ranges = R, delay_time = decode_ack_delay e (ack_delay_units e (delay_time a)),
       ect0 = E0, ect1 = E1, ecnce = C, ecn_present = P\<rparr>"
    "ect0 b1 = ect0 b" "ect1 b1 = ect1 b" "ecnce b1 = ecnce b" for R E0 E1 C P
    by (cases b; simp add: b1_def)+
  have e: "\<not> 64 \<le> unat e" using wf by (simp add: ack_wf_def)
  have start: "ossl_quic_wire_decode_frame_ack e (Some b) (frame_bytes e (Ack a) @ r) =
    Some (read_then (decode_ack_ranges 0 (length rs) (ar_start x) (Some b1)) (\<lambda>ack.
      read_then (decode_ack_ecn (frame_type_of (Ack a))
          (map_option (\<lambda>a. a\<lparr>ack_ranges := take (length rs + 1) (ack_ranges a)\<rparr>) ack)) (\<lambda>ack.
        read_return (ack, of_nat (length (ack_ranges a)))))
     (concat (map vl (ack_ranges_fields x rs)) @
      concat (map vl (if ecn_present a then [ect0 a, ect1 a, ecnce a] else [])) @ r))"
    using e n first
    by (simp add: ossl_quic_wire_decode_frame_ack_def decode_ack_fields_bytes [OF wf a] Let_def a add.commute
        del: frame_type_of.simps unat_of_nat split del: if_split)
  show ?thesis
    unfolding start
    by (simp add: read_then_def loop decode_ack_ecn_bytes [OF wf] read_return_def a cut fin
        del: frame_type_of.simps take_append split del: if_split)
      (simp add: fin)
qed

end
