(* ===== verification/WireRoundtrip.thy ===== *)
theory WireRoundtrip
  imports WireCodec
begin

unbundle bit_operations_syntax

text \<open>
  Decoding frames by their type. \<open>decode_frame\<close> looks at the frame type and calls the decoder that the
  receive path (\<open>depack_process_frames\<close> in \<open>ssl/quic/quic_rx_depack.c\<close>) calls for it; acknowledgements
  are decoded into an array of the size that \<open>ossl_quic_wire_peek_frame_ack_num_ranges\<close> returns.
  Whatever sequence of frames the encoders write, decoding returns it.
\<close>

section \<open>Decoding by frame type\<close>

definition map_reader :: "('a \<Rightarrow> 'b) \<Rightarrow> 'a reader \<Rightarrow> 'b reader" where
  "map_reader f rd = read_then rd (\<lambda>x. read_return (f x))"

definition ack_buffer :: "u64 \<Rightarrow> frame_ack" where
  "ack_buffer n =
     \<lparr>ack_ranges = replicate (unat n) \<lparr>ar_start = 0, ar_end = 0\<rparr>, delay_time = 0, ect0 = 0, ect1 = 0, ecnce = 0,
      ecn_present = False\<rparr>"

definition decode_ack :: "u32 \<Rightarrow> frame reader" where
  "decode_ack e pkt =
     (case ossl_quic_wire_peek_frame_ack_num_ranges pkt of
        None \<Rightarrow> (None, pkt)
      | Some n \<Rightarrow>
        (case ossl_quic_wire_decode_frame_ack e (Some (ack_buffer n)) pkt of
           Some (Some (Some a, _), pkt) \<Rightarrow> (Some (Ack a), pkt)
         | Some (_, pkt) \<Rightarrow> (None, pkt)
         | None \<Rightarrow> (None, pkt)))"

definition decode_as :: "u32 \<Rightarrow> u64 \<Rightarrow> frame reader" where
  "decode_as e t =
     (if t = OSSL_QUIC_FRAME_TYPE_PING then map_reader (\<lambda>_. Ping) ossl_quic_wire_decode_frame_ping
      else if t = OSSL_QUIC_FRAME_TYPE_PADDING
        then (\<lambda>pkt. let (n, pkt) = ossl_quic_wire_decode_padding pkt in (Some (Padding (of_nat n)), pkt))
      else if t = OSSL_QUIC_FRAME_TYPE_ACK_WITHOUT_ECN \<or> t = OSSL_QUIC_FRAME_TYPE_ACK_WITH_ECN then decode_ack e
      else if t = OSSL_QUIC_FRAME_TYPE_RESET_STREAM
        then map_reader ResetStream ossl_quic_wire_decode_frame_reset_stream
      else if t = OSSL_QUIC_FRAME_TYPE_STOP_SENDING
        then map_reader StopSending ossl_quic_wire_decode_frame_stop_sending
      else if t = OSSL_QUIC_FRAME_TYPE_CRYPTO then map_reader Crypto (ossl_quic_wire_decode_frame_crypto False)
      else if t = OSSL_QUIC_FRAME_TYPE_NEW_TOKEN then map_reader NewToken ossl_quic_wire_decode_frame_new_token
      else if t AND NOT OSSL_QUIC_FRAME_FLAG_STREAM_MASK = OSSL_QUIC_FRAME_TYPE_STREAM
        then map_reader Stream (ossl_quic_wire_decode_frame_stream False)
      else if t = OSSL_QUIC_FRAME_TYPE_MAX_DATA then map_reader MaxData ossl_quic_wire_decode_frame_max_data
      else if t = OSSL_QUIC_FRAME_TYPE_MAX_STREAM_DATA
        then map_reader (\<lambda>(i, v). MaxStreamData i v) ossl_quic_wire_decode_frame_max_stream_data
      else if t = OSSL_QUIC_FRAME_TYPE_MAX_STREAMS_BIDI \<or> t = OSSL_QUIC_FRAME_TYPE_MAX_STREAMS_UNI
        then map_reader (MaxStreams (t = OSSL_QUIC_FRAME_TYPE_MAX_STREAMS_UNI)) ossl_quic_wire_decode_frame_max_streams
      else if t = OSSL_QUIC_FRAME_TYPE_DATA_BLOCKED
        then map_reader DataBlocked ossl_quic_wire_decode_frame_data_blocked
      else if t = OSSL_QUIC_FRAME_TYPE_STREAM_DATA_BLOCKED
        then map_reader (\<lambda>(i, v). StreamDataBlocked i v) ossl_quic_wire_decode_frame_stream_data_blocked
      else if t = OSSL_QUIC_FRAME_TYPE_STREAMS_BLOCKED_BIDI \<or> t = OSSL_QUIC_FRAME_TYPE_STREAMS_BLOCKED_UNI
        then map_reader (StreamsBlocked (t = OSSL_QUIC_FRAME_TYPE_STREAMS_BLOCKED_UNI))
               ossl_quic_wire_decode_frame_streams_blocked
      else if t = OSSL_QUIC_FRAME_TYPE_NEW_CONN_ID
        then map_reader NewConnId ossl_quic_wire_decode_frame_new_conn_id
      else if t = OSSL_QUIC_FRAME_TYPE_RETIRE_CONN_ID
        then map_reader RetireConnId ossl_quic_wire_decode_frame_retire_conn_id
      else if t = OSSL_QUIC_FRAME_TYPE_PATH_CHALLENGE
        then map_reader PathChallenge ossl_quic_wire_decode_frame_path_challenge
      else if t = OSSL_QUIC_FRAME_TYPE_PATH_RESPONSE
        then map_reader PathResponse ossl_quic_wire_decode_frame_path_response
      else if t = OSSL_QUIC_FRAME_TYPE_CONN_CLOSE_APP \<or> t = OSSL_QUIC_FRAME_TYPE_CONN_CLOSE_TRANSPORT
        then map_reader ConnClose ossl_quic_wire_decode_frame_conn_close
      else if t = OSSL_QUIC_FRAME_TYPE_HANDSHAKE_DONE
        then map_reader (\<lambda>_. HandshakeDone) ossl_quic_wire_decode_frame_handshake_done
      else read_fail)"

text \<open>The header of a frame must be the shortest encoding of its type.\<close>

definition decode_frame :: "u32 \<Rightarrow> frame reader" where
  "decode_frame e pkt =
     (case ossl_quic_wire_peek_frame_header pkt of
        None \<Rightarrow> (None, pkt)
      | Some (t, was_minimal) \<Rightarrow> if was_minimal then decode_as e t pkt else (None, pkt))"

section \<open>Each decoder reads what its encoder wrote\<close>

lemma peek_header [simp]:
  assumes "vlint_ok t"
  shows "ossl_quic_wire_peek_frame_header (vl t @ r) = Some (t, True)"
proof -
  have t: "t \<le> OSSL_QUIC_VLINT_MAX" using assms by (simp add: vlint_ok_def)
  have "0 < length (vl t)"
    using length_vlint_encode [OF t] vlint_encode_len_pos [OF t] by (simp add: unat_gt_0)
  then show ?thesis
    using decode_vlint_encode [OF t] length_vlint_encode [OF t]
    by (simp add: ossl_quic_wire_peek_frame_header_def PACKET_peek_quic_vlint_ex_def PACKET_remaining_def
        nth_append Suc_le_eq)
qed

lemma frame_type_ok [simp]: "vlint_ok (frame_type_of f)"
  by (rule vlint_ok_small [OF frame_type_small])

lemma decode_frame_bytes:
  "decode_frame e (frame_bytes e f @ r) = decode_as e (frame_type_of f) (frame_bytes e f @ r)"
  by (simp add: decode_frame_def frame_bytes_def)

lemma map_reader_simp: "rd p = (Some x, q) \<Longrightarrow> map_reader f rd p = (Some (f x), q)"
  by (simp add: map_reader_def read_then_simps read_return_def)

lemmas simple_decoders =
  ossl_quic_wire_decode_frame_ping_def ossl_quic_wire_decode_frame_reset_stream_def
  ossl_quic_wire_decode_frame_stop_sending_def ossl_quic_wire_decode_frame_new_token_def
  ossl_quic_wire_decode_frame_max_data_def ossl_quic_wire_decode_frame_max_stream_data_def
  ossl_quic_wire_decode_frame_max_streams_def ossl_quic_wire_decode_frame_data_blocked_def
  ossl_quic_wire_decode_frame_stream_data_blocked_def ossl_quic_wire_decode_frame_streams_blocked_def
  ossl_quic_wire_decode_frame_retire_conn_id_def ossl_quic_wire_decode_frame_path_challenge_def
  ossl_quic_wire_decode_frame_path_response_def ossl_quic_wire_decode_frame_handshake_done_def

lemma skip_ranges_vls:
  "list_all vlint_ok vs \<Longrightarrow> 2 * n \<le> length vs \<Longrightarrow>
   skip_ack_ranges n (concat (map vl vs) @ q) = (Some (), concat (map vl (drop (2 * n) vs)) @ q)"
proof (induction n arbitrary: vs)
  case (Suc n)
  then obtain u v ws where vs: "vs = u # v # ws"
    by (cases vs; cases "tl vs") auto
  then show ?case
    using Suc by (simp add: read_then_simps)
qed (simp add: read_return_def)

lemma length_ack_ranges_fields [simp]: "length (ack_ranges_fields prev rs) = 2 * length rs"
  by (induction rs arbitrary: prev) simp_all

lemma peek_num_ranges_bytes:
  assumes "ack_wf e a"
  shows "ossl_quic_wire_peek_frame_ack_num_ranges (frame_bytes e (Ack a) @ r) =
    Some (of_nat (length (ack_ranges a)))"
proof -
  obtain x rs where a: "ack_ranges a = x # rs"
    using assms by (cases "ack_ranges a") (auto simp: ack_wf_def)
  let ?vs = "(ar_end x - ar_start x) # ack_ranges_fields x rs"
  have n: "unat (of_nat (length rs) :: u64) = length rs"
    using assms a by (intro unat_of_nat_u64) (simp add: ack_wf_def)
  have "skip_ack_ranges (length rs) (concat (map vl ?vs) @ q) = (Some (), concat (map vl (drop (2 * length rs) ?vs)) @ q)" for q
    using assms a by (intro skip_ranges_vls) (simp_all add: ack_wf_def ack_fields_def)
  then show ?thesis
    using assms a n ack_type(1) [of a]
    by (simp add: ossl_quic_wire_peek_frame_ack_num_ranges_def frame_bytes_def ack_fields_def ack_wf_def Let_def
        read_then_simps read_return_def add.commute del: frame_type_of.simps unat_of_nat)
qed

text \<open>What the receiver sees of a frame. The wire carries the delay of an acknowledgement in units of
  \<open>2\<^sup>e\<close> microseconds, the ECN counts only when they are present, only the used bytes of a connection ID,
  and a frame type only in a transport-level close; the receiver fills the rest with zeros.\<close>

definition received_ack :: "u32 \<Rightarrow> frame_ack \<Rightarrow> frame_ack" where
  "received_ack e a =
     a\<lparr>delay_time := decode_ack_delay e (ack_delay_units e (delay_time a)),
       ect0 := (if ecn_present a then ect0 a else 0), ect1 := (if ecn_present a then ect1 a else 0),
       ecnce := (if ecn_present a then ecnce a else 0)\<rparr>"

definition received_cid :: "conn_id \<Rightarrow> conn_id" where
  "received_cid c =
     c\<lparr>cid_id := take (unat (id_len c)) (cid_id c) @ replicate (QUIC_MAX_CONN_ID_LEN - unat (id_len c)) 0\<rparr>"

fun frame_received :: "u32 \<Rightarrow> frame \<Rightarrow> frame" where
  "frame_received e (Ack a) = Ack (received_ack e a)"
| "frame_received e (NewConnId f) = NewConnId (f\<lparr>nc_conn_id := received_cid (nc_conn_id f)\<rparr>)"
| "frame_received e (ConnClose f) = ConnClose (if is_app f then f\<lparr>cc_frame_type := 0\<rparr> else f)"
| "frame_received e f = f"

lemma reads_ack:
  assumes "frame_ok e (Ack a)"
  shows "decode_as e (frame_type_of (Ack a)) (frame_bytes e (Ack a) @ r) = (Some (Ack (received_ack e a)), r)"
proof -
  have wf: "ack_wf e a" using assms by (auto simp: frame_ok_def ack_wf_def)
  let ?n = "of_nat (length (ack_ranges a)) :: u64"
  have "length (ack_ranges (ack_buffer ?n)) = length (ack_ranges a)"
    using wf by (simp add: ack_buffer_def unat_of_nat_u64 ack_wf_def del: unat_of_nat)
  then have "ossl_quic_wire_decode_frame_ack e (Some (ack_buffer ?n)) (frame_bytes e (Ack a) @ r) =
      Some (Some (Some (received_ack e a), ?n), r)"
    using decode_ack_bytes [OF wf, of "ack_buffer ?n" r]
    by (cases a) (auto simp: received_ack_def ack_buffer_def)
  then show ?thesis
    using peek_num_ranges_bytes [OF wf, of r] by (simp add: decode_as_def decode_ack_def frame_types)
qed

lemma offset_in_limit:
  assumes "unat off + length d < 2 ^ 62"
  shows "\<not> MAX_OFFSET_62 < off + of_nat (length d)"
proof -
  have n: "unat (of_nat (length d) :: u64) = length d" using assms by (intro of_nat_data) simp
  then have "unat (off + of_nat (length d)) = unat off + length d"
    using assms by (simp add: unat_word_ariths(1) del: unat_of_nat)
  then show ?thesis using assms by (simp add: u64_less_nat MAX_OFFSET_62_def)
qed

lemma reads_crypto:
  assumes "frame_ok e (Crypto f)"
  shows "ossl_quic_wire_decode_frame_crypto False (frame_bytes e (Crypto f) @ r) = (Some f, r)"
proof -
  obtain d where d: "fc_data f = Some d" "unat (fc_offset f) + length d < 2 ^ 62" "fc_len f = of_nat (length d)"
    using assms by (auto simp: frame_ok_def split: option.splits)
  have n: "unat (fc_len f) = length d" using d by (simp add: of_nat_data del: unat_of_nat)
  have "vlint_ok OSSL_QUIC_FRAME_TYPE_CRYPTO" by (simp add: frame_types vlint_ok_small)
  then show ?thesis
    using assms d n offset_in_limit [OF d(2)]
    by (cases f) (simp add: ossl_quic_wire_decode_frame_crypto_def frame_bytes_def frame_ok_def read_then_simps
        read_return_def PACKET_remaining_def del: unat_of_nat)
qed

lemma stream_type_bits:
  "stream_frame_type f AND NOT OSSL_QUIC_FRAME_FLAG_STREAM_MASK = OSSL_QUIC_FRAME_TYPE_STREAM"
  "stream_frame_type f AND OSSL_QUIC_FRAME_FLAG_STREAM_OFF \<noteq> 0 \<longleftrightarrow> fs_offset f \<noteq> 0"
  "stream_frame_type f AND OSSL_QUIC_FRAME_FLAG_STREAM_LEN \<noteq> 0 \<longleftrightarrow> has_explicit_len f"
  "stream_frame_type f AND OSSL_QUIC_FRAME_FLAG_STREAM_FIN \<noteq> 0 \<longleftrightarrow> is_fin f"
  by (simp_all add: stream_frame_type_def stream_flags frame_types)

lemma reads_stream:
  assumes "frame_ok e (Stream f)" "has_explicit_len f \<or> r = []"
  shows "ossl_quic_wire_decode_frame_stream False (frame_bytes e (Stream f) @ r) = (Some f, r)"
proof -
  obtain d where d: "fs_data f = Some d" "unat (fs_offset f) + length d < 2 ^ 62" "fs_len f = of_nat (length d)"
    using assms by (auto simp: frame_ok_def split: option.splits)
  have n: "unat (fs_len f) = length d" using d by (simp add: of_nat_data del: unat_of_nat)
  have "vlint_ok (stream_frame_type f)" using frame_type_ok [of "Stream f"] by simp
  then show ?thesis
    using assms d n offset_in_limit [OF d(2)] stream_type_bits [of f] data_forward_append [of "length d" d "[]"]
    by (cases f) (auto simp: ossl_quic_wire_decode_frame_stream_def frame_bytes_def frame_ok_def read_then_simps
        read_return_def PACKET_remaining_def Let_def simp del: unat_of_nat)
qed

lemma byte_u32:
  "unat (ucast (b :: u8) :: u32) = unat b" "ucast (ucast b :: u32) = b"
proof -
  have "unat b < 256" using unsigned_less [of b] by simp
  then show "unat (ucast b :: u32) = unat b" by (simp add: unsigned_ucast_eq take_bit_nat_eq_self)
  show "ucast (ucast b :: u32) = b" by (rule bit_word_eqI) (simp add: bit_ucast_iff)
qed

lemma reads_new_conn_id:
  assumes "frame_ok e (NewConnId f)"
  shows "ossl_quic_wire_decode_frame_new_conn_id (frame_bytes e (NewConnId f) @ r) =
    (Some (f\<lparr>nc_conn_id := received_cid (nc_conn_id f)\<rparr>), r)"
proof -
  let ?c = "nc_conn_id f"
  let ?n = "unat (id_len ?c)"
  have wf: "\<not> nc_seq_num f < nc_retire_prior_to f" "1 \<le> ?n" "?n \<le> QUIC_MAX_CONN_ID_LEN"
    "length (cid_id ?c) = QUIC_MAX_CONN_ID_LEN"
    "length (nc_stateless_reset f) = QUIC_STATELESS_RESET_TOKEN_LEN" "vlint_ok (nc_seq_num f)" "vlint_ok (nc_retire_prior_to f)"
    using assms by (auto simp: frame_ok_def)
  have n: "unat (ucast (id_len ?c) :: u32) = ?n" "ucast (ucast (id_len ?c) :: u32) = id_len ?c"
    by (simp_all add: byte_u32)
  have "vlint_ok OSSL_QUIC_FRAME_TYPE_NEW_CONN_ID" by (simp add: frame_types vlint_ok_small)
  then show ?thesis
    using wf n
    by (simp add: received_cid_def ossl_quic_wire_decode_frame_new_conn_id_def frame_bytes_def read_then_simps read_return_def)
qed

lemma reads_conn_close:
  assumes "frame_ok e (ConnClose f)"
  shows "ossl_quic_wire_decode_frame_conn_close (frame_bytes e (ConnClose f) @ r) =
    (Some (if is_app f then f\<lparr>cc_frame_type := 0\<rparr> else f), r)"
proof -
  let ?t = "frame_type_of (ConnClose f)"
  have t: "?t AND NOT 1 = OSSL_QUIC_FRAME_TYPE_CONN_CLOSE_TRANSPORT" "?t AND 1 \<noteq> 0 \<longleftrightarrow> is_app f" "vlint_ok ?t"
    by (simp_all add: frame_types vlint_ok_small)
  have n: "unat (of_nat (length (reason f)) :: u64) = length (reason f)"
    using assms by (intro of_nat_data) (simp add: frame_ok_def)
  show ?thesis
    using assms t n
    by (cases f) (auto simp: ossl_quic_wire_decode_frame_conn_close_def frame_bytes_def frame_ok_def read_then_simps
        read_return_def Let_def simp del: unat_of_nat frame_type_of.simps)
qed

text \<open>What may follow a frame: padding runs on through zero bytes, and a stream frame without a length
  through the end of the packet.\<close>

fun may_follow :: "frame \<Rightarrow> bytes \<Rightarrow> bool" where
  "may_follow (Padding n) r \<longleftrightarrow> r = [] \<or> hd r \<noteq> 0"
| "may_follow (Stream f) r \<longleftrightarrow> has_explicit_len f \<or> r = []"
| "may_follow _ r \<longleftrightarrow> True"

lemma reads_padding:
  assumes "n \<noteq> 0" "r = [] \<or> hd r \<noteq> 0"
  shows "ossl_quic_wire_decode_padding (frame_bytes e (Padding n) @ r) = (unat n, r)"
proof -
  have "takeWhile (\<lambda>b. b = 0) (replicate (unat n) 0 @ r) = replicate (unat n) 0"
    using assms(2) by (cases r) (simp_all add: takeWhile_append)
  then show ?thesis
    using assms(1)
    by (simp add: padding_bytes ossl_quic_wire_decode_padding_def PACKET_data_def PACKET_forward_def
        PACKET_remaining_def packet_forward_def)
qed

lemma reads_frame:
  assumes "frame_ok e f" "may_follow f r"
  shows "decode_frame e (frame_bytes e f @ r) = (Some (frame_received e f), r)"
  unfolding decode_frame_bytes
proof (cases f)
  case (Padding n)
  then show "decode_as e (frame_type_of f) (frame_bytes e f @ r) = (Some (frame_received e f), r)"
    using assms reads_padding [of n r e] by (simp add: decode_as_def frame_types frame_ok_def)
next
  case (Ack a)
  then show "decode_as e (frame_type_of f) (frame_bytes e f @ r) = (Some (frame_received e f), r)"
    using assms reads_ack by (simp del: frame_type_of.simps)
next
  case (Crypto c)
  then show "decode_as e (frame_type_of f) (frame_bytes e f @ r) = (Some (frame_received e f), r)"
    using assms reads_crypto [of e c r] by (simp add: decode_as_def frame_types map_reader_simp)
next
  case (Stream s)
  then show "decode_as e (frame_type_of f) (frame_bytes e f @ r) = (Some (frame_received e f), r)"
    using assms reads_stream [of e s r]
    by (simp add: decode_as_def map_reader_simp frame_types stream_flags stream_frame_type_def)
next
  case (NewConnId c)
  then show "decode_as e (frame_type_of f) (frame_bytes e f @ r) = (Some (frame_received e f), r)"
    using assms reads_new_conn_id [of e c r] by (simp add: decode_as_def frame_types stream_flags map_reader_simp)
next
  case (ConnClose c)
  then show "decode_as e (frame_type_of f) (frame_bytes e f @ r) = (Some (frame_received e f), r)"
    using assms reads_conn_close [of e c r] by (simp add: decode_as_def frame_types stream_flags map_reader_simp)
next
  case (NewToken t)
  then show "decode_as e (frame_type_of f) (frame_bytes e f @ r) = (Some (frame_received e f), r)"
    using assms of_nat_data [of t]
    by (simp add: decode_as_def frame_ok_def frame_bytes_def simple_decoders frame_types stream_flags vlint_ok_small
        map_reader_simp read_then_simps read_return_def del: unat_of_nat)
qed (insert assms, auto simp: decode_as_def frame_ok_def frame_bytes_def simple_decoders frame_types stream_flags
    vlint_ok_small map_reader_simp read_then_simps read_return_def get_net_8_be)

section \<open>Sequences of frames\<close>

lemma small_to_u8_0:
  assumes "t < 64"
  shows "to_u8 t = 0 \<longleftrightarrow> t = 0"
proof -
  have "unat (to_u8 t) = unat t"
    using assms by (simp add: unsigned_ucast_eq take_bit_nat_eq_self word_less_nat_alt)
  then show ?thesis by (metis unat_eq_zero)
qed

lemma head_frame_bytes: "hd (frame_bytes e f @ r) = 0 \<longleftrightarrow> frame_type_of f = 0"
proof -
  have "frame_bytes e f @ r = ucast (frame_type_of f) # concat (map vl (frame_fields e f)) @ frame_payload f @ r"
    by (simp add: frame_bytes_def vl_small frame_type_small)
  moreover have "(ucast (frame_type_of f) :: u8) = 0 \<longleftrightarrow> frame_type_of f = 0"
    using frame_type_small [of f] by (rule small_to_u8_0)
  ultimately show ?thesis by simp
qed

lemma frame_type_0: "frame_type_of f = 0 \<longleftrightarrow> (\<exists>n. f = Padding n)"
  by (cases f) (simp_all add: frame_types stream_flags stream_frame_type_def)

fun frames_ok :: "u32 \<Rightarrow> frame list \<Rightarrow> bool" where
  "frames_ok e [] \<longleftrightarrow> True"
| "frames_ok e (f # fs) \<longleftrightarrow> frame_ok e f \<and> frames_ok e fs \<and>
     (case f of
        Padding n \<Rightarrow> (case fs of Padding m # _ \<Rightarrow> False | _ \<Rightarrow> True)
      | Stream s \<Rightarrow> has_explicit_len s \<or> fs = []
      | _ \<Rightarrow> True)"

definition frames_bytes :: "u32 \<Rightarrow> frame list \<Rightarrow> bytes" where
  "frames_bytes e fs = concat (map (frame_bytes e) fs)"

lemma frames_follow: "frames_ok e (f # fs) \<Longrightarrow> may_follow f (frames_bytes e fs)"
  by (cases fs; cases f)
    (auto simp: frames_bytes_def head_frame_bytes frame_type_0 split: frame.splits)

lemma reads_frames: "frames_ok e fs \<Longrightarrow> read_many (length fs) (decode_frame e) (frames_bytes e fs) =
    (Some (map (frame_received e) fs), [])"
proof (induction fs)
  case (Cons f fs)
  have "decode_frame e (frame_bytes e f @ frames_bytes e fs) = (Some (frame_received e f), frames_bytes e fs)"
    using Cons.prems frames_follow [OF Cons.prems] by (intro reads_frame) simp_all
  then show ?case
    using Cons by (simp add: read_then_simps read_return_def frames_bytes_def)
qed (simp add: read_return_def frames_bytes_def)

lemma writes_frames: "frames_ok e fs \<Longrightarrow> writes (all_ok (map (encode_frame e) fs)) (frames_bytes e fs)"
  unfolding frames_bytes_def
  by (induction fs) (auto intro: writes_bind writes_frame)

definition sample_frames :: "frame list" where
  "sample_frames =
     [Ping,
      Ack \<lparr>ack_ranges = [\<lparr>ar_start = 10, ar_end = 20\<rparr>, \<lparr>ar_start = 5, ar_end = 7\<rparr>], delay_time = 9500,
           ect0 = 0, ect1 = 0, ecnce = 0, ecn_present = False\<rparr>,
      MaxStreamData 4 1000,
      Stream \<lparr>fs_stream_id = 4, fs_offset = 100, fs_len = 3, fs_data = Some [1, 2, 3], has_explicit_len = True,
              is_fin = True\<rparr>,
      Padding 5]"

section \<open>Properties\<close>

text \<open>C5. Any sequence of frames that can be sent, of all kinds, written one after the other by the encoders
  into a static buffer that is long enough, is decoded again into as many frames in the same order,
  and nothing is left over. Each frame comes back as it was sent, except for what the wire does not
  carry: the delay of an acknowledgement is rounded down to the unit of the wire, and ECN counts that
  are not present, the unused bytes of a connection ID and the frame type of an application close come
  back as zeros. Padding must not be split into adjacent runs, and only the last frame may be a stream
  frame without a length.\<close>

theorem frames_roundtrip:
  assumes "frames_ok e fs" "buf \<noteq> []" "length buf < 2 ^ 64" "length (frames_bytes e fs) \<le> length buf"
    and "w_allocs pkt = []"
  shows "\<exists>pkt'. all_ok [WPACKET_init_static_len buf 0, all_ok (map (encode_frame e) fs), WPACKET_finish] pkt =
      Some (Some (), pkt') \<and>
    read_many (length fs) (decode_frame e) (take (unat (WPACKET_get_total_written pkt')) (wp_data pkt')) =
      (Some (map (frame_received e) fs), [])"
  using static_packet [OF writes_frames [OF assms(1)] assms(2-5)] reads_frames [OF assms(1)] by metis

theorem frames_roundtrip_witness:
  "\<exists>pkt'. all_ok [WPACKET_init_static_len (replicate 64 0) 0, all_ok (map (encode_frame 3) sample_frames), WPACKET_finish]
       blank_wpacket = Some (Some (), pkt') \<and>
     read_many (length sample_frames) (decode_frame 3)
       (take (unat (WPACKET_get_total_written pkt')) (wp_data pkt')) =
         (Some (map (frame_received 3) sample_frames), [])"
proof -
  have ok: "frames_ok 3 sample_frames"
    by (simp add: sample_frames_def frame_ok_def ack_fields_def ack_delay_units_def decode_ack_delay_def vlint_ok_def
        OSSL_QUIC_VLINT_MAX_def ossl_time_divide_def safe_div_u64_def safe_mul_u64_def ossl_time_multiply_def
        ossl_ticks2time_def OSSL_TIME_US_def OSSL_TIME_MS_def OSSL_TIME_SECOND_def)
  have "length (frames_bytes 3 sample_frames) \<le> length (replicate 64 (0 :: u8))" by code_simp
  then show ?thesis
    using frames_roundtrip [OF ok, of "replicate 64 0" blank_wpacket] by simp
qed

end
