(* ===== verification/WireAck.thy ===== *)
theory WireAck
  imports WireRoundtrip
begin

text \<open>
  Acknowledgement frames: the encoder and the decoder of \<open>ssl/quic/quic_wire.c\<close> for arrays of any size
  and delays that are not exact, and what the decoder guarantees about the ranges it accepts from any
  bytes at all.
\<close>

section \<open>The delay\<close>

lemma unat_exp_u64:
  assumes "n < 64"
  shows "unat (2 ^ n :: u64) = 2 ^ n"
proof -
  have "unat (push_bit n 1 :: u64) = 2 ^ n mod 2 ^ 64" unfolding unsigned_push_bit_eq by (simp add: take_bit_eq_mod)
  also have "\<dots> = 2 ^ n" using power_strict_increasing [OF assms, of "2 :: nat"] by simp
  finally show ?thesis by simp
qed

lemma ack_delay_rounding:
  assumes e: "unat e < 64"
  shows "unat (decode_ack_delay e (ack_delay_units e t)) = unat t div (1000 * 2 ^ unat e) * (1000 * 2 ^ unat e)"
proof -
  define k where "k = unat t div (1000 * 2 ^ unat e)"
  have u: "unat (ack_delay_units e t) = k"
    by (simp add: ack_delay_units_def ossl_time_divide_nat unat_exp_u64 [OF e] ossl_time_units k_def div_mult2_eq)
  have k: "k * (1000 * 2 ^ unat e) \<le> unat t" unfolding k_def by (rule div_times_less_eq_dividend)
  then have small: "k * 2 ^ unat e * 1000 < 2 ^ 64" using unat_u64_bound [of t] by (simp add: ac_simps)
  let ?m = "safe_mul_u64 (ack_delay_units e t) (push_bit (unat e) 1)"
  have ok: "\<not> snd ?m"
    using small by (simp add: safe_mul_err u unat_exp_u64 [OF e])
  have "unat (decode_ack_delay e (ack_delay_units e t)) = min (2 ^ 64 - 1) (1000 * (k * 2 ^ unat e))"
    using ok safe_mul_ok [OF ok]
    by (simp add: decode_ack_delay_def split_beta ossl_time_multiply_nat u unat_exp_u64 [OF e] ossl_time_units
        ossl_ticks2time_def)
  also have "\<dots> = k * (1000 * 2 ^ unat e)" using small by (simp add: min_def ac_simps)
  finally show ?thesis unfolding k_def .
qed

lemma ack_delay_bounds:
  assumes "unat e < 64"
  shows "unat (decode_ack_delay e (ack_delay_units e t)) \<le> unat t"
    "unat t < unat (decode_ack_delay e (ack_delay_units e t)) + 1000 * 2 ^ unat e"
  unfolding ack_delay_rounding [OF assms]
  by (rule div_times_less_eq_dividend)
    (use dividend_less_div_times [of "1000 * 2 ^ unat e" "unat t"] in \<open>simp add: add.commute\<close>)

section \<open>Decoding arbitrary bytes\<close>

lemma get_vlint_bound:
  assumes "PACKET_get_quic_vlint p = (Some v, q)"
  shows "v \<le> OSSL_QUIC_VLINT_MAX"
proof -
  have "ossl_quic_vlint_decode p = Some (ossl_quic_vlint_decode_len (p ! 0), v)"
    using assms by (auto simp: PACKET_get_quic_vlint_def PACKET_remaining_def ossl_quic_vlint_decode_def Let_def split: if_splits)
  then show ?thesis using vlint_decode_spec [of p] by simp
qed

lemma read_then_SomeE:
  assumes "read_then rd f p = (Some y, q)"
  obtains x p' where "rd p = (Some x, p')" "f x p' = (Some y, q)"
  using assms by (auto simp: read_then_def split: prod.splits option.splits)

lemma descending_Cons:
  "descending (r # rs) \<longleftrightarrow> ar_start r \<le> ar_end r \<and> descending rs \<and>
     (rs \<noteq> [] \<longrightarrow> unat (ar_end (hd rs)) + 2 \<le> unat (ar_start r))"
  by (cases rs) auto

text \<open>One turn of the loop: the next range lies below the one before it.\<close>

lemma range_accepted:
  assumes "gap \<le> OSSL_QUIC_VLINT_MAX" "\<not> (start < gap + 2 \<or> start - gap - 2 < len)"
  shows "unat (start - gap - 2) + 2 \<le> unat start" "start - gap - 2 - len \<le> start - gap - 2"
proof -
  have "unat gap < 2 ^ 62" using assms(1) by (simp add: u64_le_nat OSSL_QUIC_VLINT_MAX_def)
  then have g: "unat (gap + 2) = unat gap + 2" using unat_add_u64 [of gap 2] by simp
  have le: "gap + 2 \<le> start" "len \<le> start - gap - 2" using assms(2) by auto
  have "unat (start - (gap + 2)) = unat start - (unat gap + 2)" using unat_sub [OF le(1)] g by simp
  moreover have "unat gap + 2 \<le> unat start" using le(1) g by (simp add: u64_le_nat)
  ultimately have "unat (start - (gap + 2)) + 2 \<le> unat start" by simp
  then show "unat (start - gap - 2) + 2 \<le> unat start" by (simp add: diff_diff_eq)
  show "start - gap - 2 - len \<le> start - gap - 2"
    using unat_sub [OF le(2)] by (simp add: u64_le_nat)
qed

lemma decode_ack_ranges_sound:
  assumes "decode_ack_ranges i n start (Some a) p = (Some a', q)" "i + 1 + n \<le> length (ack_ranges a)"
    and "ar_start (ack_ranges a ! i) = start" "ar_start (ack_ranges a ! i) \<le> ar_end (ack_ranges a ! i)"
  shows "\<exists>b. a' = Some b \<and> length (ack_ranges b) = length (ack_ranges a) \<and>
    take (i + 1) (ack_ranges b) = take (i + 1) (ack_ranges a) \<and>
    descending (drop i (take (i + 1 + n) (ack_ranges b)))"
  using assms
proof (induction n arbitrary: i start a p)
  case 0
  then have "drop i (take (i + 1) (ack_ranges a)) = [ack_ranges a ! i]"
    by (simp add: take_Suc_conv_app_nth)
  then show ?case using 0 by (intro exI [of _ a]) (simp add: read_return_def)
next
  case (Suc n)
  obtain gap p1 len p2 where rd: "PACKET_get_quic_vlint p = (Some gap, p1)" "PACKET_get_quic_vlint p1 = (Some len, p2)"
    and ok: "\<not> (start < gap + 2 \<or> start - gap - 2 < len)"
    and go: "decode_ack_ranges (i + 1) n (start - gap - 2 - len) (Some (store_range (i + 1)
         \<lparr>ar_start = start - gap - 2 - len, ar_end = start - gap - 2\<rparr> a)) p2 = (Some a', q)"
    using Suc.prems(1,2) by (auto elim!: read_then_SomeE simp: Let_def read_fail_def split: if_splits)
  define r where "r = \<lparr>ar_start = start - gap - 2 - len, ar_end = start - gap - 2\<rparr>"
  define a1 where "a1 = store_range (i + 1) r a"
  have rest: "decode_ack_ranges (i + 1) n (ar_start r) (Some a1) p2 = (Some a', q)"
    using go by (simp add: r_def a1_def)
  note acc = range_accepted [OF get_vlint_bound [OF rd(1)] ok]
  have a1: "length (ack_ranges a1) = length (ack_ranges a)" "ack_ranges a1 ! (i + 1) = r"
    "take (i + 1) (ack_ranges a1) = take (i + 1) (ack_ranges a)"
    using Suc.prems(2) by (simp_all add: a1_def store_range_def)
  obtain b where b: "a' = Some b" "length (ack_ranges b) = length (ack_ranges a)"
    "take (i + 2) (ack_ranges b) = take (i + 2) (ack_ranges a1)" "descending (drop (i + 1) (take (i + 2 + n) (ack_ranges b)))"
    using Suc.IH [OF rest] Suc.prems(2) a1 acc(2) by (auto simp: r_def)
  have nth: "ack_ranges b ! i = ack_ranges a ! i" "ack_ranges b ! (i + 1) = r"
    using arg_cong [OF b(3), of "\<lambda>xs. xs ! i"] arg_cong [OF b(3), of "\<lambda>xs. xs ! (i + 1)"]
      arg_cong [OF a1(3), of "\<lambda>xs. xs ! i"] a1(2) by simp_all
  have "drop i (take (i + 1 + Suc n) (ack_ranges b)) = ack_ranges a ! i # drop (i + 1) (take (i + 2 + n) (ack_ranges b))"
    using Cons_nth_drop_Suc [of i "take (i + 1 + Suc n) (ack_ranges b)"] b(2) Suc.prems(2) nth(1) by simp
  moreover have "hd (drop (i + 1) (take (i + 2 + n) (ack_ranges b))) = r"
    using b(2) Suc.prems(2) nth(2) by (simp add: hd_drop_conv_nth)
  ultimately have "descending (drop i (take (i + 1 + Suc n) (ack_ranges b)))"
    using b(4) Suc.prems(3,4) acc(1) by (simp add: descending_Cons r_def)
  moreover have "take (i + 1) (ack_ranges b) = take (i + 1) (ack_ranges a)"
    using arg_cong [OF b(3), of "take (i + 1)"] a1(3) by (simp add: min_def)
  ultimately show ?case using b(1,2) by simp
qed

lemma packet_reader_ack_fields [readers]: "packet_reader decode_ack_fields"
  unfolding decode_ack_fields_def expect_frame_header_mask_def ossl_quic_wire_skip_frame_header_def
  by (intro readers)

lemma packet_reader_ack_ranges [readers]: "packet_reader (decode_ack_ranges i n start ack)"
proof (induction n arbitrary: i start ack)
  case (Suc n)
  show ?case
    unfolding decode_ack_ranges.simps Let_def
    by (cases ack) (auto intro!: readers Suc.IH)
qed (simp add: packet_reader_return)

lemma packet_reader_ack_ecn [readers]: "packet_reader (decode_ack_ecn t ack)"
  unfolding decode_ack_ecn_def by (intro readers)

text \<open>The state in which the loop starts, and what follows it.\<close>

definition ack_start :: "u32 \<Rightarrow> u64 \<Rightarrow> u64 \<Rightarrow> u64 \<Rightarrow> frame_ack \<Rightarrow> frame_ack" where
  "ack_start e largest raw first a =
     (let a = a\<lparr>delay_time := decode_ack_delay e raw\<rparr> in
      if length (ack_ranges a) > 0
      then store_range 0 \<lparr>ar_start = largest - first, ar_end = largest\<rparr> a else a)"

definition ack_tail :: "u64 \<Rightarrow> u64 \<Rightarrow> frame_ack option \<Rightarrow> (frame_ack option \<times> u64) reader" where
  "ack_tail t count ack =
     read_then (decode_ack_ecn t (map_option (\<lambda>a. a\<lparr>ack_ranges := take (unat count + 1) (ack_ranges a)\<rparr>) ack))
       (\<lambda>ack. read_return (ack, count + 1))"

lemma decode_ack_cases:
  assumes "ossl_quic_wire_decode_frame_ack e ack p = Some (res, q)"
  obtains (bad) "decode_ack_fields p = (None, q)" "res = None"
  | (good) t largest raw count first p1 where
      "decode_ack_fields p = (Some (t, largest, raw, count, first), p1)"
      "read_then (decode_ack_ranges 0 (unat count) (largest - first) (map_option (ack_start e largest raw first) ack))
         (ack_tail t count) p1 = (res, q)"
  using assms
  by (auto simp: ossl_quic_wire_decode_frame_ack_def Let_def ack_start_def [abs_def] ack_tail_def [abs_def]
      split: prod.splits option.splits if_splits)

lemma packet_reader_ack_tail [readers]: "packet_reader (ack_tail t count ack)"
  unfolding ack_tail_def by (intro readers)

lemma decode_ack_suffix:
  assumes "ossl_quic_wire_decode_frame_ack e ack p = Some (res, q)"
  shows "suffix q (snd (decode_ack_fields p))"
  using assms
proof (cases rule: decode_ack_cases)
  case (good t largest raw count first p1)
  have "packet_reader (read_then (decode_ack_ranges 0 (unat count) (largest - first)
      (map_option (ack_start e largest raw first) ack)) (ack_tail t count))"
    by (intro readers)
  from packet_reader.reads_suffix [OF this, of p1] show ?thesis using good by simp
qed simp

lemma decode_ack_fields_checked:
  assumes "decode_ack_fields p = (Some (t, largest, raw, count, first), p1)"
  shows "first \<le> largest" "largest \<le> OSSL_QUIC_VLINT_MAX" "count \<le> OSSL_QUIC_VLINT_MAX"
  using assms
  by (auto simp: decode_ack_fields_def read_fail_def read_return_def dest: get_vlint_bound
      elim!: read_then_SomeE split: if_splits)

lemma decode_ack_sound:
  assumes dec: "ossl_quic_wire_decode_frame_ack e (Some b) p = Some (Some (Some a, num), q)"
    and cap: "unat num \<le> length (ack_ranges b)"
  shows "length (ack_ranges a) = unat num \<and> 0 < unat num \<and> descending (ack_ranges a) \<and>
    ar_end (hd (ack_ranges a)) \<le> OSSL_QUIC_VLINT_MAX"
  using dec
proof (cases rule: decode_ack_cases)
  case (good t largest raw count first p1)
  note chk = decode_ack_fields_checked [OF good(1)]
  have "unat count < 2 ^ 62" using chk(3) by (simp add: u64_le_nat OSSL_QUIC_VLINT_MAX_def)
  then have n: "unat (count + 1) = unat count + 1" using unat_add_u64 [of count 1] by simp
  obtain c p2 where loop: "decode_ack_ranges 0 (unat count) (largest - first) (Some (ack_start e largest raw first b)) p1 = (Some c, p2)"
    and tail: "ack_tail t count c p2 = (Some (Some a, num), q)"
    using good(2) by (auto elim!: read_then_SomeE)
  have num: "num = count + 1"
    using tail by (auto simp: ack_tail_def read_return_def elim!: read_then_SomeE)
  let ?s = "ack_start e largest raw first b"
  have s: "length (ack_ranges ?s) = length (ack_ranges b)" "ack_ranges ?s ! 0 = \<lparr>ar_start = largest - first, ar_end = largest\<rparr>"
    using cap num n by (auto simp: ack_start_def store_range_def Let_def)
  have "largest - first \<le> largest" using unat_sub [OF chk(1)] by (simp add: u64_le_nat)
  then obtain d where d: "c = Some d" "length (ack_ranges d) = length (ack_ranges b)"
    "take 1 (ack_ranges d) = take 1 (ack_ranges ?s)" "descending (take (unat count + 1) (ack_ranges d))"
    using decode_ack_ranges_sound [OF loop] s cap num n by auto
  have a: "ack_ranges a = take (unat count + 1) (ack_ranges d)"
    using tail d(1) by (auto simp: ack_tail_def decode_ack_ecn_def read_return_def elim!: read_then_SomeE split: if_splits)
  have "hd (ack_ranges d) = hd (ack_ranges ?s)"
    using arg_cong [OF d(3), of hd] by simp
  moreover have "ack_ranges ?s \<noteq> []" using s(1) cap num n by auto
  ultimately show ?thesis
    using a d cap num n chk(2) s(2) by (simp add: hd_conv_nth)
qed simp

lemma contains_pn_iff:
  "ossl_quic_frame_ack_contains_pn a pn \<longleftrightarrow> (\<exists>r \<in> set (ack_ranges a). ar_start r \<le> pn \<and> pn \<le> ar_end r)"
  by (simp add: ossl_quic_frame_ack_contains_pn_def list_ex_iff)

lemma descending_below: "descending (r # rs) \<Longrightarrow> s \<in> set rs \<Longrightarrow> ar_end s < ar_start r"
proof (induction rs arbitrary: r)
  case (Cons x rs)
  then have x: "unat (ar_end x) + 2 \<le> unat (ar_start r)" "ar_start x \<le> ar_end x" "descending (x # rs)"
    by (auto simp: descending_Cons)
  show ?case
    using Cons.IH [OF x(3)] Cons.prems(2) x(1,2) by (auto simp: u64_less_nat u64_le_nat)
qed simp

lemma contained_below:
  assumes "descending (ack_ranges a)" "ossl_quic_frame_ack_contains_pn a pn"
  shows "pn \<le> ar_end (hd (ack_ranges a))"
proof -
  obtain r rs s where a: "ack_ranges a = r # rs" and s: "s \<in> set (r # rs)" "pn \<le> ar_end s"
    using assms(2) by (cases "ack_ranges a") (auto simp: contains_pn_iff)
  have "ar_start r \<le> ar_end r" using assms(1) a by (simp add: descending_Cons)
  then show ?thesis
    using descending_below [of r rs s] assms(1) a s by (auto simp: u64_less_nat u64_le_nat)
qed

section \<open>Properties\<close>

text \<open>C11. Whatever bytes are received, the ranges of an acknowledgement that is decoded into an array with
  room for all of them are as the header file promises: as many as announced and at least one, in
  descending order, none of them empty, no two of them adjacent; the first one holds the largest
  packet number that is acknowledged, and it is a packet number.\<close>

theorem ack_decode_sound:
  assumes "ossl_quic_wire_decode_frame_ack e (Some b) p = Some (Some (Some a, num), q)"
    and "unat num \<le> length (ack_ranges b)"
  shows "length (ack_ranges a) = unat num \<and> ack_ranges a \<noteq> [] \<and> descending (ack_ranges a) \<and>
    ar_end (hd (ack_ranges a)) \<le> OSSL_QUIC_VLINT_MAX \<and>
    (\<forall>pn. ossl_quic_frame_ack_contains_pn a pn \<longrightarrow> pn \<le> ar_end (hd (ack_ranges a)))"
  using decode_ack_sound [OF assms] contained_below [of a] by auto

theorem ack_decode_sound_witness:
  "\<exists>a q. ossl_quic_wire_decode_frame_ack 0 (Some (ack_buffer 2)) [2, 20, 0, 1, 3, 4, 1] = Some (Some (Some a, 2), q) \<and>
     descending (ack_ranges a) \<and> ar_end (hd (ack_ranges a)) = 20"
proof -
  have dec: "ossl_quic_wire_decode_frame_ack 0 (Some (ack_buffer 2)) [2, 20, 0, 1, 3, 4, 1] =
     Some (Some (Some \<lparr>ack_ranges = [\<lparr>ar_start = 17, ar_end = 20\<rparr>, \<lparr>ar_start = 10, ar_end = 11\<rparr>], delay_time = 0,
       ect0 = 0, ect1 = 0, ecnce = 0, ecn_present = False\<rparr>, 2), [])"
    by code_simp
  then show ?thesis
    using ack_decode_sound [OF dec] by (simp add: ack_buffer_def)
qed

text \<open>The decoder keeps the start of the previous range only when it stores that range. Without an array
  for the ranges it therefore accepts acknowledgements whose ranges run below zero, which it refuses
  when there is an array for them.\<close>

lemma ack_decode_without_array:
  "ossl_quic_wire_decode_frame_ack 0 None [2, 10, 0, 2, 0, 0, 5, 4, 0] = Some (Some (None, 3), [])"
  "ossl_quic_wire_decode_frame_ack 0 (Some (ack_buffer 3)) [2, 10, 0, 2, 0, 0, 5, 4, 0] = Some (None, [])"
  by code_simp+

text \<open>C26. An acknowledgement written by the encoder is announced with its number of ranges and decoded with
  as many of its ranges as the receiver's array has room for, and with the delay rounded down to a
  multiple of \<open>2\<^sup>e\<close> microseconds, where \<open>e\<close> is the exponent both sides use.\<close>

theorem ack_frame_roundtrip:
  assumes "ack_wf e a" "buf \<noteq> []" "length buf < 2 ^ 64" "length (frame_bytes e (Ack a)) \<le> length buf"
    and "w_allocs pkt = []"
  shows "\<exists>pkt' d. all_ok [WPACKET_init_static_len buf 0, ossl_quic_wire_encode_frame_ack e a, WPACKET_finish] pkt =
      Some (Some (), pkt') \<and>
    unat d \<le> unat (delay_time a) \<and> unat (delay_time a) < unat d + 1000 * 2 ^ unat e \<and>
    (let p = take (unat (WPACKET_get_total_written pkt')) (wp_data pkt') in
     ossl_quic_wire_peek_frame_ack_num_ranges p = Some (of_nat (length (ack_ranges a))) \<and>
     ossl_quic_wire_decode_frame_ack e (Some b) p =
       Some (Some (Some
         \<lparr>ack_ranges = take (length (ack_ranges b)) (ack_ranges a), delay_time = d,
          ect0 = (if ecn_present a then ect0 a else ect0 b), ect1 = (if ecn_present a then ect1 a else ect1 b),
          ecnce = (if ecn_present a then ecnce a else ecnce b), ecn_present = ecn_present a\<rparr>,
         of_nat (length (ack_ranges a))), []))"
proof -
  obtain pkt' where pkt': "all_ok [WPACKET_init_static_len buf 0, ossl_quic_wire_encode_frame_ack e a, WPACKET_finish] pkt =
      Some (Some (), pkt')" "take (unat (WPACKET_get_total_written pkt')) (wp_data pkt') = frame_bytes e (Ack a)"
    using static_packet [OF writes_ack [OF assms(1)] assms(2-5)] by blast
  have e: "unat e < 64" using assms(1) by (simp add: ack_wf_def)
  show ?thesis
    using pkt' ack_delay_bounds [OF e, of "delay_time a"] peek_num_ranges_bytes [OF assms(1), of "[]"]
      decode_ack_bytes [OF assms(1), of b "[]"]
    by (intro exI [of _ pkt'] exI [of _ "decode_ack_delay e (ack_delay_units e (delay_time a))"])
      (simp add: Let_def)
qed

definition sample_ack :: frame_ack where
  "sample_ack = \<lparr>ack_ranges = [\<lparr>ar_start = 90, ar_end = 100\<rparr>, \<lparr>ar_start = 80, ar_end = 85\<rparr>, \<lparr>ar_start = 0, ar_end = 9\<rparr>],
     delay_time = 123456789, ect0 = 1, ect1 = 2, ecnce = 3, ecn_present = True\<rparr>"

theorem ack_frame_roundtrip_witness:
  "\<exists>pkt' d. all_ok [WPACKET_init_static_len (replicate 50 0) 0, ossl_quic_wire_encode_frame_ack 3 sample_ack,
       WPACKET_finish] blank_wpacket = Some (Some (), pkt') \<and>
     (\<exists>a. ossl_quic_wire_decode_frame_ack 3 (Some (ack_buffer 2))
        (take (unat (WPACKET_get_total_written pkt')) (wp_data pkt')) = Some (Some (Some a, 3), []) \<and>
      ack_ranges a = [\<lparr>ar_start = 90, ar_end = 100\<rparr>, \<lparr>ar_start = 80, ar_end = 85\<rparr>] \<and> delay_time a = d \<and>
      123448789 < unat d)"
proof -
  have wf: "ack_wf 3 sample_ack"
    by (simp add: ack_wf_def sample_ack_def ack_fields_def ack_delay_units_def vlint_ok_def
        OSSL_QUIC_VLINT_MAX_def ossl_time_divide_def safe_div_u64_def OSSL_TIME_US_def OSSL_TIME_MS_def
        OSSL_TIME_SECOND_def)
  have "length (frame_bytes 3 (Ack sample_ack)) \<le> length (replicate 50 (0 :: u8))" by code_simp
  then show ?thesis
    using ack_frame_roundtrip [OF wf, of "replicate 50 0" blank_wpacket "ack_buffer 2"]
    by (auto simp: sample_ack_def ack_buffer_def Let_def)
qed

text \<open>Every integer takes at least one byte.\<close>

lemma get_vlint_consumes: "PACKET_get_quic_vlint p = (Some v, q) \<Longrightarrow> length q < length p"
  using decode_len_pos [of "p ! 0"]
  by (auto simp: PACKET_get_quic_vlint_def PACKET_remaining_def packet_forward_def Let_def split: if_splits)

lemma skip_vlint_consumes: "PACKET_skip_quic_vlint p = (Some u, q) \<Longrightarrow> length q < length p"
  using decode_len_pos [of "p ! 0"]
  by (auto simp: PACKET_skip_quic_vlint_def PACKET_remaining_def packet_forward_def Let_def split: if_splits)

lemma skip_ack_ranges_consumes: "skip_ack_ranges n p = (Some u, q) \<Longrightarrow> length q + 2 * n \<le> length p"
proof (induction n arbitrary: p)
  case (Suc n)
  then obtain v p1 w p2 where "PACKET_skip_quic_vlint p = (Some v, p1)" "PACKET_skip_quic_vlint p1 = (Some w, p2)"
    "skip_ack_ranges n p2 = (Some u, q)"
    by (auto elim!: read_then_SomeE)
  then show ?case
    using skip_vlint_consumes [of p v p1] skip_vlint_consumes [of p1 w p2] Suc.IH [of p2] by simp
qed (simp add: read_return_def)

lemma expect_mask_consumes: "expect_frame_header_mask t m p = (Some u, q) \<Longrightarrow> length q < length p"
  by (auto simp: expect_frame_header_mask_def ossl_quic_wire_skip_frame_header_def read_fail_def read_return_def
      dest: get_vlint_consumes elim!: read_then_SomeE split: if_splits)

text \<open>C27. The number of ranges found by looking ahead, which the receiver allocates memory for, is at most
  half the number of bytes in the packet.\<close>

theorem ack_num_ranges_bounded:
  assumes "ossl_quic_wire_peek_frame_ack_num_ranges p = Some n"
  shows "0 < unat n \<and> 2 * unat n + 2 \<le> length p"
proof -
  obtain t p1 p2 p3 p4 p5 c where
    "expect_frame_header_mask OSSL_QUIC_FRAME_TYPE_ACK_WITHOUT_ECN 1 p = (Some t, p1)"
    "PACKET_skip_quic_vlint p1 = (Some (), p2)" "PACKET_skip_quic_vlint p2 = (Some (), p3)"
    "PACKET_get_quic_vlint p3 = (Some c, p4)" "skip_ack_ranges (unat c) p4 = (Some (), p5)" "n = c + 1"
    using assms
    by (auto simp: ossl_quic_wire_peek_frame_ack_num_ranges_def read_then_def read_return_def
        split: prod.splits option.splits)
  note rd = this
  have "unat c < 2 ^ 62" using get_vlint_bound [OF rd(4)] by (simp add: u64_le_nat OSSL_QUIC_VLINT_MAX_def)
  then have "unat n = unat c + 1" using unat_add_u64 [of c 1] rd(6) by simp
  then show ?thesis
    using expect_mask_consumes [OF rd(1)] skip_vlint_consumes [OF rd(2)] skip_vlint_consumes [OF rd(3)]
      get_vlint_consumes [OF rd(4)] skip_ack_ranges_consumes [OF rd(5)] by simp
qed

theorem ack_num_ranges_bounded_witness:
  "ossl_quic_wire_peek_frame_ack_num_ranges [2, 20, 0, 1, 3, 4, 1] = Some 2 \<and>
   2 * unat (2 :: u64) + 2 \<le> length [2, 20, 0, 1, 3, 4, 1 :: u8]"
proof -
  have "ossl_quic_wire_peek_frame_ack_num_ranges [2, 20, 0, 1, 3, 4, 1] = Some 2" by code_simp
  then show ?thesis using ack_num_ranges_bounded [of "[2, 20, 0, 1, 3, 4, 1]" 2] by simp
qed

text \<open>The last length of the list is not looked for: a frame that ends before it is announced with its
  number of ranges, and only then refused.\<close>

lemma peek_misses_last_length:
  "ossl_quic_wire_peek_frame_ack_num_ranges [2, 20, 0, 1, 3, 4] = Some 2"
  "ossl_quic_wire_decode_frame_ack 0 (Some (ack_buffer 2)) [2, 20, 0, 1, 3, 4] = Some (None, [])"
  by code_simp+

end
