(* ===== verification/WireParams.thy ===== *)
theory WireParams
  imports WireRoundtrip
begin

unbundle bit_operations_syntax

text \<open>
  Frame headers whose length is computed in advance, and transport parameters
  (\<open>ssl/quic/quic_wire.c\<close>).
\<close>

section \<open>Lengths of frame headers\<close>

lemma of_length_vl: "vlint_ok v \<Longrightarrow> of_nat (length (vl v)) = ossl_quic_vlint_encode_len v"
  by (simp add: vlint_ok_def length_vlint_encode)

lemma encode_len_0: "ossl_quic_vlint_encode_len v = 0 \<longleftrightarrow> \<not> vlint_ok v"
  by (auto simp: vlint_ok_def ossl_quic_vlint_encode_len_def OSSL_QUIC_VLINT_MAX_def
      OSSL_QUIC_VLINT_2B_MIN_def OSSL_QUIC_VLINT_4B_MIN_def OSSL_QUIC_VLINT_8B_MIN_def u64_less_nat u64_le_nat)

lemma write_vlint_too_large: "\<not> vlint_ok v \<Longrightarrow> WPACKET_quic_write_vlint v pkt \<noteq> Some (Some (), pkt')"
  by (simp add: WPACKET_quic_write_vlint_def encode_len_0 Let_def wfail_def)

lemma all_ok_never:
  assumes "op \<in> set ops" "\<And>pkt pkt'. op pkt \<noteq> Some (Some (), pkt')"
  shows "all_ok ops pkt \<noteq> Some (Some (), pkt')"
  using assms(1)
proof (induction ops arbitrary: pkt)
  case (Cons o' ops)
  then show ?case using assms(2) by (auto simp: wbind_def split: option.splits)
qed simp

text \<open>The bytes of a header: the frame type and the integers after it.\<close>

definition header_bytes :: "frame \<Rightarrow> bytes" where
  "header_bytes f = vl (frame_type_of f) @ concat (map vl (frame_fields 0 f))"

definition header_result :: "unit wop \<Rightarrow> size_t \<Rightarrow> frame \<Rightarrow> bool" where
  "header_result hdr len f \<longleftrightarrow>
     (if list_all vlint_ok (frame_fields 0 f)
      then writes hdr (header_bytes f) \<and> len = of_nat (length (header_bytes f))
      else len = 0 \<and> (\<forall>pkt pkt'. hdr pkt \<noteq> Some (Some (), pkt')))"

lemma crypto_header: "header_result (ossl_quic_wire_encode_frame_crypto_hdr f)
    (ossl_quic_wire_get_encoded_frame_len_crypto_hdr f) (Crypto f)"
proof (cases "list_all vlint_ok (frame_fields 0 (Crypto f))")
  case True
  have t: "vlint_ok OSSL_QUIC_FRAME_TYPE_CRYPTO" using frame_type_ok [of "Crypto f"] by simp
  have "writes (ossl_quic_wire_encode_frame_crypto_hdr f)
      (vl OSSL_QUIC_FRAME_TYPE_CRYPTO @ vl (fc_offset f) @ vl (fc_len f) @ [])"
    unfolding ossl_quic_wire_encode_frame_crypto_hdr_def
    using True by (intro writes_parts) (simp_all add: frame_types)
  moreover have "ossl_quic_wire_get_encoded_frame_len_crypto_hdr f = of_nat (length (header_bytes (Crypto f)))"
    using True t
    by (simp add: ossl_quic_wire_get_encoded_frame_len_crypto_hdr_def header_bytes_def of_length_vl encode_len_0 Let_def)
  ultimately show ?thesis using True by (simp add: header_result_def header_bytes_def)
next
  case False
  then obtain v where v: "v \<in> set [fc_offset f, fc_len f]" "\<not> vlint_ok v" by (auto simp: list_all_iff)
  then have "WPACKET_quic_write_vlint v \<in> set [encode_frame_hdr OSSL_QUIC_FRAME_TYPE_CRYPTO,
      WPACKET_quic_write_vlint (fc_offset f), WPACKET_quic_write_vlint (fc_len f)]" by auto
  from all_ok_never [OF this write_vlint_too_large [OF v(2)]] show ?thesis
    using False
    by (auto simp: header_result_def encode_len_0 ossl_quic_wire_encode_frame_crypto_hdr_def
        ossl_quic_wire_get_encoded_frame_len_crypto_hdr_def Let_def simp del: all_ok.simps)
qed

lemma stream_header: "header_result (ossl_quic_wire_encode_frame_stream_hdr f)
    (ossl_quic_wire_get_encoded_frame_len_stream_hdr f) (Stream f)"
proof (cases "list_all vlint_ok (frame_fields 0 (Stream f))")
  case True
  have t: "vlint_ok (stream_frame_type f)" using frame_type_ok [of "Stream f"] by simp
  have "writes (ossl_quic_wire_encode_frame_stream_hdr f)
      (vl (stream_frame_type f) @ vl (fs_stream_id f) @ (if fs_offset f \<noteq> 0 then vl (fs_offset f) else []) @
       (if has_explicit_len f then vl (fs_len f) else []) @ [])"
    unfolding ossl_quic_wire_encode_frame_stream_hdr_def
    using True frame_type_small [of "Stream f"] by (intro writes_parts) simp_all
  moreover have "ossl_quic_vlint_encode_len (stream_frame_type f) = ossl_quic_vlint_encode_len OSSL_QUIC_FRAME_TYPE_STREAM"
    using frame_type_small [of "Stream f"]
    by (simp add: ossl_quic_vlint_encode_len_def OSSL_QUIC_VLINT_2B_MIN_def frame_types)
  then have "ossl_quic_wire_get_encoded_frame_len_stream_hdr f = of_nat (length (header_bytes (Stream f)))"
    using True t
    by (simp add: ossl_quic_wire_get_encoded_frame_len_stream_hdr_def header_bytes_def of_length_vl encode_len_0 Let_def
        frame_types vlint_ok_small word_gt_0 split: if_splits)
  ultimately show ?thesis using True by (simp add: header_result_def header_bytes_def split: if_splits)
next
  case False
  let ?ops = "[encode_frame_hdr (stream_frame_type f), WPACKET_quic_write_vlint (fs_stream_id f),
      if fs_offset f \<noteq> 0 then WPACKET_quic_write_vlint (fs_offset f) else wret (),
      if has_explicit_len f then WPACKET_quic_write_vlint (fs_len f) else wret ()]"
  consider "\<not> vlint_ok (fs_stream_id f)" | "fs_offset f \<noteq> 0" "\<not> vlint_ok (fs_offset f)"
    | "has_explicit_len f" "\<not> vlint_ok (fs_len f)"
    using False by (auto split: if_splits)
  then obtain v where v: "WPACKET_quic_write_vlint v \<in> set ?ops" "\<not> vlint_ok v"
    by cases (rule that; simp; fail)+
  show ?thesis
    using False all_ok_never [OF v(1) write_vlint_too_large [OF v(2)]]
    by (auto simp: header_result_def ossl_quic_wire_encode_frame_stream_hdr_def encode_len_0
        ossl_quic_wire_get_encoded_frame_len_stream_hdr_def Let_def word_gt_0 simp del: all_ok.simps split: if_splits)
qed

section \<open>Transport parameters\<close>

text \<open>The bytes of a parameter: its identifier, its length and its value.\<close>

definition tparam_bytes :: "u64 \<Rightarrow> bytes \<Rightarrow> bytes" where
  "tparam_bytes pid bs = vl pid @ vl (of_nat (length bs)) @ bs"

definition tparam_ok :: "u64 \<Rightarrow> bytes \<Rightarrow> bool" where
  "tparam_ok pid bs \<longleftrightarrow> vlint_ok pid \<and> length bs < 2 ^ 62"

lemma length_vlint_ok: "length bs < 2 ^ 62 \<Longrightarrow> vlint_ok (of_nat (length bs))"
  using of_nat_data [of bs] by (simp add: vlint_ok_def OSSL_QUIC_VLINT_MAX_def u64_le_nat del: unat_of_nat)

lemma reads_tparam:
  assumes "tparam_ok pid bs"
  shows "ossl_quic_wire_decode_transport_param_bytes (tparam_bytes pid bs @ r) = (Some (pid, bs), r)"
  using assms of_nat_data [of bs] length_vlint_ok [of bs]
  by (simp add: ossl_quic_wire_decode_transport_param_bytes_def tparam_bytes_def tparam_ok_def read_then_simps
      read_return_def del: unat_of_nat)

lemma packet_reader_tparam [readers]: "packet_reader ossl_quic_wire_decode_transport_param_bytes"
  unfolding ossl_quic_wire_decode_transport_param_bytes_def by (intro readers)

interpretation tparam: codec ossl_quic_wire_decode_transport_param_bytes "\<lambda>(pid, bs). tparam_ok pid bs"
    "\<lambda>(pid, bs). tparam_bytes pid bs"
  by (intro codec.intro packet_reader_tparam codec_axioms.intro) (auto simp: reads_tparam)

text \<open>A parameter without a value is written where the packet ends; by then the packet has a buffer.\<close>

lemma get_curr_written:
  assumes "wp_ok cap pkt" "\<not> w_endfirst pkt" "0 < unat (w_written pkt)"
  shows "WPACKET_get_curr pkt = Some (unat (w_written pkt))"
  using assms
  by (auto simp: WPACKET_get_curr_def GETBUF_def wp_ok_def buf_ok_def split: wbuf.splits)

lemma store_nothing:
  assumes "wp_ok cap pkt" "off \<le> length (wp_data pkt)"
  shows "store (Some off) [] pkt = Some (Some (), pkt)"
  using assms
  by (auto simp: store_def store_at_def wp_ok_def buf_ok_def wp_data_def split: wbuf.splits)

lemma writes_empty_value:
  assumes f: "writes f bs" and bs: "bs \<noteq> []"
  shows "writes (wbind f (\<lambda>_. succeeds (wbind (\<lambda>pkt. wret (WPACKET_get_curr pkt) pkt)
    (\<lambda>b. wbind (copy_to b (Some []) 0) (\<lambda>_. return_ptr b))))) bs"
proof (rule writesI)
  fix cap pkt
  assume room: "wp_room cap pkt (length bs)"
  obtain pkt' where 1: "f pkt = Some (Some (), pkt')" "wp_ext cap pkt pkt' bs" using writesE [OF f room] .
  have ok: "wp_ok cap pkt'" "\<not> w_endfirst pkt'" "0 < unat (w_written pkt')"
    using 1(2) room bs wp_ext_written [of cap pkt pkt' bs] by (auto simp: wp_ext_def wp_room_def)
  have "succeeds (wbind (\<lambda>pkt. wret (WPACKET_get_curr pkt) pkt)
      (\<lambda>b. wbind (copy_to b (Some []) 0) (\<lambda>_. return_ptr b))) pkt' = Some (Some (), pkt')"
    using store_nothing [OF ok(1) buf_ok_written [OF ok(1)]] get_curr_written [OF ok]
    by (simp add: succeeds_def wbind_def wret_def copy_to_def return_ptr_def)
  then show "\<exists>pkt'. wbind f (\<lambda>_. succeeds (wbind (\<lambda>pkt. wret (WPACKET_get_curr pkt) pkt)
      (\<lambda>b. wbind (copy_to b (Some []) 0) (\<lambda>_. return_ptr b)))) pkt = Some (Some (), pkt') \<and> wp_ext cap pkt pkt' bs"
    using 1 by (auto simp: wbind_def)
qed

lemma vl_nonempty: "vlint_ok v \<Longrightarrow> vl v \<noteq> []"
  using of_length_vl [of v] encode_len_0 [of v] by auto

lemma writes_tparam_bytes:
  assumes "tparam_ok pid bs"
  shows "writes (succeeds (ossl_quic_wire_encode_transport_param_bytes pid (Some bs) (of_nat (length bs))))
    (tparam_bytes pid bs)"
proof -
  have n: "unat (of_nat (length bs) :: u64) = length bs" "vlint_ok pid" "vlint_ok (of_nat (length bs))"
    using assms of_nat_data [of bs] length_vlint_ok [of bs] by (simp_all add: tparam_ok_def)
  have hdr: "writes (all_ok [WPACKET_quic_write_vlint pid, WPACKET_quic_write_vlint (of_nat (length bs))])
      (vl pid @ vl (of_nat (length bs)) @ [])"
    using n by (intro writes_parts)
  show ?thesis
  proof (cases "bs = []")
    case True
    then show ?thesis
      using writes_empty_value [OF hdr] vl_nonempty [OF n(2)]
      by (simp add: ossl_quic_wire_encode_transport_param_bytes_def succeeds_bind tparam_bytes_def del: all_ok.simps)
  next
    case False
    then have "of_nat (length bs) \<noteq> (0 :: u64)" using n(1) by (metis length_0_conv unat_0)
    then show ?thesis
      using writes_bind [OF hdr writes_alloc_copy [OF False n(1) [symmetric]]]
      by (simp add: ossl_quic_wire_encode_transport_param_bytes_def succeeds_bind tparam_bytes_def del: all_ok.simps)
  qed
qed

lemma writes_tparam_int:
  assumes "vlint_ok pid" "vlint_ok v"
  shows "writes (ossl_quic_wire_encode_transport_param_int pid v) (tparam_bytes pid (vl v))"
proof -
  have "vlint_ok (ossl_quic_vlint_encode_len v)"
    using vlint_encode_len_le_8 [of v] by (simp add: vlint_ok_def OSSL_QUIC_VLINT_MAX_def u64_le_nat)
  then have "writes (ossl_quic_wire_encode_transport_param_int pid v)
      (vl pid @ vl (ossl_quic_vlint_encode_len v) @ vl v @ [])"
    unfolding ossl_quic_wire_encode_transport_param_int_def using assms by (intro writes_parts)
  then show ?thesis using assms(2) by (simp add: tparam_bytes_def of_length_vl)
qed

lemma length_vl_small: "vlint_ok v \<Longrightarrow> length (vl v) < 2 ^ 62"
  using vlint_encode_len_le_8 [of v] length_vlint_encode [of v] by (simp add: vlint_ok_def)

lemma reads_tparam_int:
  assumes "vlint_ok pid" "vlint_ok v"
  shows "ossl_quic_wire_decode_transport_param_int (tparam_bytes pid (vl v) @ r) = (Some (pid, v), r)"
proof -
  have "ossl_quic_wire_decode_transport_param_bytes (tparam_bytes pid (vl v) @ r) = (Some (pid, vl v), r)"
    using assms length_vl_small by (intro reads_tparam) (simp add: tparam_ok_def)
  then show ?thesis
    using get_vlint_encode [OF assms(2), of "[]"]
    by (simp add: ossl_quic_wire_decode_transport_param_int_def read_then_simps read_return_def PACKET_remaining_def)
qed

definition cid_ok :: "conn_id \<Rightarrow> bool" where
  "cid_ok c \<longleftrightarrow> unat (id_len c) \<le> QUIC_MAX_CONN_ID_LEN \<and> length (cid_id c) = QUIC_MAX_CONN_ID_LEN"

definition cid_bytes :: "conn_id \<Rightarrow> bytes" where
  "cid_bytes c = take (unat (id_len c)) (cid_id c)"

lemma byte_u64: "unat (from_u8 b) = unat b" "of_nat (unat (b :: u8)) = b" "of_nat (unat b) = from_u8 b"
proof -
  have "unat b < 256" using unsigned_less [of b] by simp
  then show u: "unat (from_u8 b) = unat b" by (simp add: unsigned_ucast_eq take_bit_nat_eq_self)
  have "of_nat (unat (from_u8 b)) = from_u8 b" by simp
  then show "of_nat (unat b) = from_u8 b" unfolding u .
qed simp

lemma length_cid_bytes: "cid_ok c \<Longrightarrow> length (cid_bytes c) = unat (id_len c)"
  by (simp add: cid_ok_def cid_bytes_def)

lemma writes_tparam_cid:
  assumes "vlint_ok pid" "cid_ok c"
  shows "writes (ossl_quic_wire_encode_transport_param_cid pid c) (tparam_bytes pid (cid_bytes c))"
proof -
  have "copy_to b (Some (cid_id c)) (from_u8 (id_len c)) = copy_to b (Some (cid_bytes c)) (from_u8 (id_len c))" for b
    using assms(2) by (simp add: copy_to_def cid_bytes_def cid_ok_def byte_u64)
  then have "ossl_quic_wire_encode_transport_param_cid pid c =
      succeeds (ossl_quic_wire_encode_transport_param_bytes pid (Some (cid_bytes c)) (of_nat (length (cid_bytes c))))"
    using assms(2) length_cid_bytes [OF assms(2)]
    by (simp add: ossl_quic_wire_encode_transport_param_cid_def ossl_quic_wire_encode_transport_param_bytes_def
        succeeds_def cid_ok_def byte_u64)
  then show ?thesis
    using writes_tparam_bytes [of pid "cid_bytes c"] assms length_cid_bytes [OF assms(2)]
    by (simp add: tparam_ok_def cid_ok_def QUIC_MAX_CONN_ID_LEN_def)
qed

lemma reads_tparam_cid:
  assumes "vlint_ok pid" "cid_ok c"
  shows "ossl_quic_wire_decode_transport_param_cid old (tparam_bytes pid (cid_bytes c) @ r) =
    (Some (pid, \<lparr>id_len = id_len c, cid_id = set_prefix (cid_bytes c) (cid_id old)\<rparr>), r)"
proof -
  have len: "length (cid_bytes c) = unat (id_len c)" "unat (id_len c) \<le> 20"
    using assms length_cid_bytes by (simp_all add: cid_ok_def QUIC_MAX_CONN_ID_LEN_def)
  have "ossl_quic_wire_decode_transport_param_bytes (tparam_bytes pid (cid_bytes c) @ r) = (Some (pid, cid_bytes c), r)"
    using assms(1) len by (intro reads_tparam) (simp add: tparam_ok_def)
  then show ?thesis
    using len by (simp add: ossl_quic_wire_decode_transport_param_cid_def read_then_simps read_return_def
        QUIC_MAX_CONN_ID_LEN_def byte_u64)
qed

lemma cid_eq_prefix:
  assumes "cid_ok c"
  shows "ossl_quic_conn_id_eq c \<lparr>id_len = id_len c, cid_id = set_prefix (cid_bytes c) old\<rparr>"
  using assms length_cid_bytes [OF assms]
  by (simp add: ossl_quic_conn_id_eq_def cid_ok_def set_prefix_def cid_bytes_def)

section \<open>Properties\<close>

text \<open>C28. The functions that announce the length of a crypto or stream frame header announce exactly the
  number of bytes the header takes, and they return 0 exactly for the headers that the encoder
  refuses in every packet, those with an integer of more than 62 bits.\<close>

theorem frame_header_lengths:
  "header_result (ossl_quic_wire_encode_frame_crypto_hdr c) (ossl_quic_wire_get_encoded_frame_len_crypto_hdr c) (Crypto c) \<and>
   header_result (ossl_quic_wire_encode_frame_stream_hdr s) (ossl_quic_wire_get_encoded_frame_len_stream_hdr s) (Stream s)"
  using crypto_header stream_header by blast

text \<open>C29. Transport parameters survive the wire: integers, byte strings and connection IDs are written as
  identifier, length and value and read back, a connection ID as an equal one whatever its storage
  held before.\<close>

theorem transport_params_roundtrip:
  assumes "vlint_ok pid" "vlint_ok v" "length bs < 2 ^ 62" "cid_ok c"
  shows "writes (ossl_quic_wire_encode_transport_param_int pid v) (tparam_bytes pid (vl v)) \<and>
    ossl_quic_wire_decode_transport_param_int (tparam_bytes pid (vl v) @ r) = (Some (pid, v), r) \<and>
    writes (succeeds (ossl_quic_wire_encode_transport_param_bytes pid (Some bs) (of_nat (length bs)))) (tparam_bytes pid bs) \<and>
    ossl_quic_wire_decode_transport_param_bytes (tparam_bytes pid bs @ r) = (Some (pid, bs), r) \<and>
    writes (ossl_quic_wire_encode_transport_param_cid pid c) (tparam_bytes pid (cid_bytes c)) \<and>
    (\<exists>c'. ossl_quic_wire_decode_transport_param_cid old (tparam_bytes pid (cid_bytes c) @ r) = (Some (pid, c'), r) \<and>
          ossl_quic_conn_id_eq c c')"
  using assms writes_tparam_int reads_tparam_int writes_tparam_bytes [of pid bs] reads_tparam [of pid bs r]
    writes_tparam_cid reads_tparam_cid cid_eq_prefix
  by (auto simp: tparam_ok_def)

theorem transport_params_roundtrip_witness:
  "ossl_quic_wire_decode_transport_param_int (tparam_bytes 4 (vl 100000) @ [1]) = (Some (4, 100000), [1]) \<and>
   ossl_quic_wire_decode_transport_param_bytes (tparam_bytes 4 [7, 8] @ [1]) = (Some (4, [7, 8]), [1])"
  using transport_params_roundtrip [of 4 100000 "[7, 8]" "\<lparr>id_len = 2, cid_id = replicate 20 5\<rparr>" "[1]"]
  by (simp add: vlint_ok_def OSSL_QUIC_VLINT_MAX_def cid_ok_def QUIC_MAX_CONN_ID_LEN_def)

text \<open>Bytes after the last field of a preferred address are ignored, as long as the length of the
  parameter is possible for some length of the connection ID.\<close>

lemma preferred_addr_trailing_bytes:
  fixes p :: preferred_addr
  assumes "p = \<lparr>ipv4_port = 0, ipv6_port = 0, ipv4 = [], ipv6 = [], pa_stateless_reset = [],
    pa_cid = \<lparr>id_len = 0, cid_id = replicate 20 0\<rparr>\<rparr>"
  shows "fst (ossl_quic_wire_decode_transport_param_preferred_addr p (tparam_bytes 0x0D (replicate 42 0))) \<noteq> None"
proof -
  have "ossl_quic_wire_decode_transport_param_bytes (tparam_bytes 0x0D (replicate 42 0) @ []) =
      (Some (0x0D, replicate 42 0), [])"
    by (intro reads_tparam) (simp add: tparam_ok_def vlint_ok_def OSSL_QUIC_VLINT_MAX_def)
  moreover have "case decode_preferred_addr_body p (replicate 42 0) of (None, _) \<Rightarrow> False | (Some _, q) \<Rightarrow> q = [0]"
    unfolding assms by code_simp
  ultimately show ?thesis
    by (auto simp: ossl_quic_wire_decode_transport_param_preferred_addr_def read_then_def read_return_def
        QUIC_MIN_ENCODED_PREFERRED_ADDR_LEN_def QUIC_MAX_ENCODED_PREFERRED_ADDR_LEN_def QUIC_TPARAM_PREFERRED_ADDR_def
        PACKET_buf_init_def split: prod.splits option.splits)
qed

end
