(* ===== verification/FlowNetwork.thy ===== *)
theory FlowNetwork
  imports FlowControl
begin

text \<open>
  The two ends of a connection: the transmit controllers of one endpoint, the receive controllers of
  the other, and the frames between them. A step is one call of the flow control interface
  together with the frame it sends or consumes; frames stay available after they are received, so
  the network may lose, repeat and reorder them.

  The invariant relates the two ends, and gives that no step makes the receiver report an error
  and that every assertion of the transmit side holds.
\<close>

record fc_net =
  tx :: txfc_store
  rx :: rxfc_store
  frames :: "(addr \<times> u64 \<times> bool) set"  \<comment> \<open>STREAM frames: stream, end offset, FIN\<close>
  credits :: "(addr \<times> u64) set"  \<comment> \<open>MAX_DATA and MAX_STREAM_DATA frames\<close>
  finished :: "addr set"  \<comment> \<open>streams the sender has finished\<close>

inductive fc_step :: "'w clock \<Rightarrow> addr \<Rightarrow> addr set \<Rightarrow> fc_net \<Rightarrow> fc_net \<Rightarrow> bool"
  for now c S where
  send: "s \<in> S \<Longrightarrow> s \<notin> finished \<sigma> \<Longrightarrow> ossl_quic_txfc_get_credit (tx \<sigma>) s 0 = Some credit \<Longrightarrow>
     n \<le> credit \<Longrightarrow> ossl_quic_txfc_consume_credit (tx \<sigma>) s n = Some (ok, h) \<Longrightarrow>
     fc_step now c S \<sigma> (\<sigma>\<lparr>tx := h,
       frames := insert (s, ossl_quic_txfc_get_swm (h s), fin) (frames \<sigma>),
       finished := (if fin then insert s (finished \<sigma>) else finished \<sigma>)\<rparr>)"
| receive: "(s, e, fin) \<in> frames \<sigma> \<Longrightarrow>
     fc_step now c S \<sigma> (\<sigma>\<lparr>rx := snd (ossl_quic_rxfc_on_rx_stream_frame (rx \<sigma>) s e fin)\<rparr>)"
| retire: "s \<in> S \<Longrightarrow> unat (rxfc_rwm (rx \<sigma> s)) + unat n \<le> unat (rxfc_swm (rx \<sigma> s)) \<Longrightarrow>
     ossl_quic_rxfc_on_retire now w (rx \<sigma>) s n rtt = (ok, h, w') \<Longrightarrow>
     fc_step now c S \<sigma> (\<sigma>\<lparr>rx := h\<rparr>)"
| advertise: "a \<in> insert c S \<Longrightarrow>
     fc_step now c S \<sigma> (\<sigma>\<lparr>
       rx := (rx \<sigma>)(a := snd (ossl_quic_rxfc_has_cwm_changed (rx \<sigma> a) True)),
       credits := insert (a, ossl_quic_rxfc_get_cwm (rx \<sigma> a)) (credits \<sigma>)\<rparr>)"
| update: "(a, v) \<in> credits \<sigma> \<Longrightarrow>
     fc_step now c S \<sigma> (\<sigma>\<lparr>tx := (tx \<sigma>)(a := snd (ossl_quic_txfc_bump_cwm (tx \<sigma> a) v))\<rparr>)"
| resize: "a \<in> insert c S \<Longrightarrow>
     fc_step now c S \<sigma> (\<sigma>\<lparr>rx := (rx \<sigma>)(a := ossl_quic_rxfc_set_max_window_size (rx \<sigma> a) m)\<rparr>)"
| blocked: "a \<in> insert c S \<Longrightarrow>
     fc_step now c S \<sigma> (\<sigma>\<lparr>tx := (tx \<sigma>)(a := snd (ossl_quic_txfc_has_become_blocked (tx \<sigma> a) True))\<rparr>)"

inductive fc_reachable :: "'w clock \<Rightarrow> addr \<Rightarrow> addr set \<Rightarrow> fc_net \<Rightarrow> fc_net \<Rightarrow> bool"
  for now c S \<sigma>0 where
  start: "fc_reachable now c S \<sigma>0 \<sigma>0"
| step: "fc_reachable now c S \<sigma>0 \<sigma> \<Longrightarrow> fc_step now c S \<sigma> \<sigma>' \<Longrightarrow> fc_reachable now c S \<sigma>0 \<sigma>'"

text \<open>A connection with the streams \<open>ss\<close>, set up by the initialisation functions from arbitrary
  memory. The sender starts without credit: the transport parameters of the peer arrive as
  \<open>credits\<close>.\<close>

definition fc_init :: "txfc_store \<Rightarrow> rxfc_store \<Rightarrow> addr \<Rightarrow> addr list \<Rightarrow> u64 \<Rightarrow> u64 \<Rightarrow> u64 \<Rightarrow> fc_net" where
  "fc_init ht hr c ss conn_window stream_window max_window =
     \<lparr>tx = fold (\<lambda>s h. snd (ossl_quic_txfc_init h s (Some c))) ss (snd (ossl_quic_txfc_init ht c None)),
      rx = fold (\<lambda>s h. snd (ossl_quic_rxfc_init h s (Some c) stream_window max_window)) ss
             (snd (ossl_quic_rxfc_init hr c None conn_window max_window)),
      frames = {}, credits = {}, finished = {}\<rparr>"

section \<open>The invariant\<close>

definition fc_inv :: "addr \<Rightarrow> addr set \<Rightarrow> fc_net \<Rightarrow> bool" where
  "fc_inv c S \<sigma> \<longleftrightarrow>
     tx_inv c S (tx \<sigma>) \<and> rx_inv c S (rx \<sigma>) \<and>
     (\<forall>a\<in>insert c S. txfc_cwm (tx \<sigma> a) \<le> rxfc_cwm (rx \<sigma> a)) \<and>
     (\<forall>s\<in>S. rxfc_hwm (rx \<sigma> s) \<le> txfc_swm (tx \<sigma> s) \<and>
        (rxfc_is_fin (rx \<sigma> s) \<longrightarrow> s \<in> finished \<sigma> \<and> rxfc_hwm (rx \<sigma> s) = txfc_swm (tx \<sigma> s))) \<and>
     (\<forall>s e fin. (s, e, fin) \<in> frames \<sigma> \<longrightarrow> s \<in> S \<and> e \<le> txfc_swm (tx \<sigma> s) \<and>
        (fin \<longrightarrow> s \<in> finished \<sigma> \<and> e = txfc_swm (tx \<sigma> s))) \<and>
     (\<forall>a v. (a, v) \<in> credits \<sigma> \<longrightarrow> a \<in> insert c S \<and> v \<le> rxfc_cwm (rx \<sigma> a))"

lemma fc_inv_send:
  assumes inv: "fc_inv c S \<sigma>" and S: "finite S" "s \<in> S" "c \<notin> S" and nf: "s \<notin> finished \<sigma>"
    and credit: "ossl_quic_txfc_get_credit (tx \<sigma>) s 0 = Some credit" "n \<le> credit"
    and h: "ossl_quic_txfc_consume_credit (tx \<sigma>) s n = Some (ok, h)"
  shows "fc_inv c S (\<sigma>\<lparr>tx := h, frames := insert (s, ossl_quic_txfc_get_swm (h s), fin) (frames \<sigma>),
      finished := (if fin then insert s (finished \<sigma>) else finished \<sigma>)\<rparr>)"
proof -
  have tx: "tx_inv c S (tx \<sigma>)" using inv by (simp add: fc_inv_def)
  have n: "n \<le> tx_credit_of (tx \<sigma> c)" "n \<le> tx_credit_of (tx \<sigma> s)"
    using credit txfc_get_credit_stream [OF tx S(2)] by auto
  have h': "h = (tx \<sigma>)(s := tx_spend (tx \<sigma> s) n, c := tx_spend (tx \<sigma> c) n)"
    using h txfc_consume_credit_stream [OF tx S(2,3)] by simp
  have inv': "tx_inv c S h" using tx_inv_spend [OF tx S n] h' by simp
  have "s \<noteq> c" using S by auto
  then have hs: "h s = tx_spend (tx \<sigma> s) n" and other: "\<And>x. x \<in> S \<Longrightarrow> x \<noteq> s \<Longrightarrow> h x = tx \<sigma> x"
    and cwm: "\<And>x. txfc_cwm (h x) = txfc_cwm (tx \<sigma> x)"
    using S h' by auto
  have le: "txfc_swm (tx \<sigma> s) \<le> txfc_cwm (tx \<sigma> s)" using tx S by (simp add: tx_inv_def)
  have grow: "txfc_swm (tx \<sigma> s) \<le> txfc_swm (h s)"
    using tx_spend_nat(1) [OF le n(2)] by (simp add: hs u64_le_nat)
  have up: "x \<le> txfc_swm (h s')" if "s' \<in> S" "x \<le> txfc_swm (tx \<sigma> s')" for s' x
    using that grow other by (cases "s' = s") (auto intro: order.trans)
  have fixed: "txfc_swm (h s') = txfc_swm (tx \<sigma> s')" if "s' \<in> S" "s' \<in> finished \<sigma>" for s'
    using that nf other by metis
  show ?thesis
    using inv inv' S up fixed cwm unfolding fc_inv_def
    by (auto simp: ossl_quic_txfc_get_swm_def)
qed

lemma fc_inv_rx:
  assumes inv: "fc_inv c S \<sigma>" and h: "rx_inv c S h"
    and cwm: "\<And>a. a \<in> insert c S \<Longrightarrow> rxfc_cwm (rx \<sigma> a) \<le> rxfc_cwm (h a)"
    and hwm: "\<And>s. s \<in> S \<Longrightarrow> rxfc_hwm (h s) \<le> txfc_swm (tx \<sigma> s)"
    and fin: "\<And>s. s \<in> S \<Longrightarrow> rxfc_is_fin (h s) \<Longrightarrow> s \<in> finished \<sigma> \<and> rxfc_hwm (h s) = txfc_swm (tx \<sigma> s)"
  shows "fc_inv c S (\<sigma>\<lparr>rx := h\<rparr>)"
proof -
  have up: "x \<le> rxfc_cwm (h a)" if "a \<in> insert c S" "x \<le> rxfc_cwm (rx \<sigma> a)" for x a
    using that cwm by (blast intro: order.trans)
  show ?thesis
    using inv h up hwm fin unfolding fc_inv_def by auto
qed

lemma fc_frame_ok:
  assumes inv: "fc_inv c S \<sigma>" and S: "finite S" and f: "(s, e, fin) \<in> frames \<sigma>"
  shows "rx_frame_ok c (rx \<sigma>) s e fin"
proof -
  have s: "s \<in> S" and e: "e \<le> txfc_swm (tx \<sigma> s)" and fin: "fin \<Longrightarrow> e = txfc_swm (tx \<sigma> s)"
    and rx: "rx_inv c S (rx \<sigma>)" and tx: "tx_inv c S (tx \<sigma>)"
    and hwm: "\<And>s. s \<in> S \<Longrightarrow> rxfc_hwm (rx \<sigma> s) \<le> txfc_swm (tx \<sigma> s)"
    and cwm: "\<And>a. a \<in> insert c S \<Longrightarrow> txfc_cwm (tx \<sigma> a) \<le> rxfc_cwm (rx \<sigma> a)"
    using inv f unfolding fc_inv_def by blast+
  have swm: "\<And>x. x \<in> S \<Longrightarrow> rxfc_swm (rx \<sigma> x) = rxfc_hwm (rx \<sigma> x)"
    and le: "\<And>a. a \<in> insert c S \<Longrightarrow> rxfc_swm (rx \<sigma> a) \<le> rxfc_cwm (rx \<sigma> a)"
    using rx by (auto simp: rx_inv_def)
  have lim: "txfc_swm (tx \<sigma> a) \<le> rxfc_cwm (rx \<sigma> a)" if "a \<in> insert c S" for a
    using tx cwm [OF that] that by (fastforce simp: tx_inv_def intro: order.trans)
  show ?thesis
  proof (cases "e > rxfc_hwm (rx \<sigma> s)")
    case True
    have d: "unat (e - rxfc_hwm (rx \<sigma> s)) = unat e - unat (rxfc_hwm (rx \<sigma> s))"
      using True by (intro unat_sub_u64) simp
    have "(\<Sum>x\<in>S - {s}. unat (rxfc_swm (rx \<sigma> x))) \<le> (\<Sum>x\<in>S - {s}. unat (txfc_swm (tx \<sigma> x)))"
      using hwm swm by (intro sum_mono) (auto simp: u64_le_nat)
    then have "unat (rxfc_swm (rx \<sigma> c)) + (unat e - unat (rxfc_hwm (rx \<sigma> s))) \<le> unat (txfc_swm (tx \<sigma> c))"
      using tx rx sum.remove [OF S s, of "\<lambda>x. unat (rxfc_swm (rx \<sigma> x))"]
        sum.remove [OF S s, of "\<lambda>x. unat (txfc_swm (tx \<sigma> x))"] e swm [OF s] True
      by (simp add: tx_inv_def rx_inv_def u64_nat)
    then have "e - rxfc_hwm (rx \<sigma> s) \<le> rx_credit_of (rx \<sigma> c)"
      using lim [of c] unat_sub_u64 [OF le, of c] by (simp add: u64_le_nat d)
    moreover have "e - rxfc_hwm (rx \<sigma> s) \<le> rx_credit_of (rx \<sigma> s)"
      using lim [of s] s e unat_sub_u64 [OF le, of s] swm [OF s] by (simp add: u64_le_nat d)
    moreover have "\<not> rxfc_is_fin (rx \<sigma> s)"
      using inv s e True unfolding fc_inv_def by force
    ultimately show ?thesis using True by (simp add: rx_frame_ok_def less_imp_le)
  next
    case False
    then show ?thesis using fin hwm [OF s] by (auto simp: rx_frame_ok_def)
  qed
qed

lemma fc_inv_receive:
  assumes inv: "fc_inv c S \<sigma>" and S: "finite S" "c \<notin> S" and f: "(s, e, fin) \<in> frames \<sigma>"
  shows "fc_inv c S (\<sigma>\<lparr>rx := snd (ossl_quic_rxfc_on_rx_stream_frame (rx \<sigma>) s e fin)\<rparr>)"
proof -
  have s: "s \<in> S" and rx: "rx_inv c S (rx \<sigma>)" and e: "e \<le> txfc_swm (tx \<sigma> s)"
    and fin: "fin \<Longrightarrow> s \<in> finished \<sigma> \<and> e = txfc_swm (tx \<sigma> s)"
    using inv f unfolding fc_inv_def by blast+
  note ok = fc_frame_ok [OF inv S(1) f]
  note res = on_rx_stream_frame_ok [OF rx s S(2) ok]
  have "s \<noteq> c" using s S by auto
  show ?thesis
  proof (rule fc_inv_rx [OF inv rx_inv_frame [OF rx S(1) s S(2) ok]])
    fix x assume x: "x \<in> S"
    then have "x \<noteq> c" using S by auto
    show "rxfc_hwm (snd (ossl_quic_rxfc_on_rx_stream_frame (rx \<sigma>) s e fin) x) \<le> txfc_swm (tx \<sigma> x)"
      using inv x e \<open>x \<noteq> c\<close> by (auto simp: res rx_extend_def fc_inv_def)
    assume "rxfc_is_fin (snd (ossl_quic_rxfc_on_rx_stream_frame (rx \<sigma>) s e fin) x)"
    then show "x \<in> finished \<sigma> \<and> rxfc_hwm (snd (ossl_quic_rxfc_on_rx_stream_frame (rx \<sigma>) s e fin) x)
        = txfc_swm (tx \<sigma> x)"
      using inv x e fin ok \<open>x \<noteq> c\<close>
      by (auto simp: res rx_extend_def fc_inv_def rx_frame_ok_def split: if_splits)
  qed (use \<open>s \<noteq> c\<close> in \<open>auto simp: res rx_extend_def rx_count_def\<close>)
qed

lemma fc_inv_retire:
  assumes inv: "fc_inv c S \<sigma>" and S: "finite S" "s \<in> S" "c \<notin> S"
    and n: "unat (rxfc_rwm (rx \<sigma> s)) + unat n \<le> unat (rxfc_swm (rx \<sigma> s))"
    and ret: "ossl_quic_rxfc_on_retire now w (rx \<sigma>) s n rtt = (ok, h, w')"
  shows "fc_inv c S (\<sigma>\<lparr>rx := h\<rparr>)"
proof -
  have rx: "rx_inv c S (rx \<sigma>)" using inv by (simp add: fc_inv_def)
  obtain rs rc where h: "h = (rx \<sigma>)(s := rs, c := rc)"
    and r: "rx_retired (rx \<sigma> s) n rs" "rx_retired (rx \<sigma> c) n rc"
    using rxfc_on_retire_stream [OF rx S(2,3) n, of now w rtt] ret by (metis prod.inject)
  show ?thesis
    unfolding h
    by (rule fc_inv_rx [OF inv rx_inv_retired [OF rx S n r]])
      (use inv r S in \<open>auto simp: fc_inv_def rx_retired_def split: if_splits\<close>)
qed

lemma fc_inv_advertise:
  assumes inv: "fc_inv c S \<sigma>" and a: "a \<in> insert c S"
  shows "fc_inv c S (\<sigma>\<lparr>rx := (rx \<sigma>)(a := snd (ossl_quic_rxfc_has_cwm_changed (rx \<sigma> a) True)),
    credits := insert (a, ossl_quic_rxfc_get_cwm (rx \<sigma> a)) (credits \<sigma>)\<rparr>)"
proof -
  let ?h = "(rx \<sigma>)(a := snd (ossl_quic_rxfc_has_cwm_changed (rx \<sigma> a) True))"
  have same: "rxfc_swm (?h x) = rxfc_swm (rx \<sigma> x)" "rxfc_rwm (?h x) = rxfc_rwm (rx \<sigma> x)"
    "rxfc_cwm (?h x) = rxfc_cwm (rx \<sigma> x)" "rxfc_hwm (?h x) = rxfc_hwm (rx \<sigma> x)"
    "rxfc_parent (?h x) = rxfc_parent (rx \<sigma> x)" "rxfc_standalone (?h x) = rxfc_standalone (rx \<sigma> x)"
    "rxfc_error_code (?h x) = rxfc_error_code (rx \<sigma> x)" "rxfc_is_fin (?h x) = rxfc_is_fin (rx \<sigma> x)" for x
    by (simp_all add: ossl_quic_rxfc_has_cwm_changed_def)
  have "rx_inv c S ?h = rx_inv c S (rx \<sigma>)"
    unfolding rx_inv_def same ..
  then show ?thesis
    using inv a by (auto simp: fc_inv_def ossl_quic_rxfc_get_cwm_def same simp del: fun_upd_apply)
qed

lemma fc_inv_resize:
  assumes inv: "fc_inv c S \<sigma>"
  shows "fc_inv c S (\<sigma>\<lparr>rx := (rx \<sigma>)(a := ossl_quic_rxfc_set_max_window_size (rx \<sigma> a) m)\<rparr>)"
proof -
  let ?h = "(rx \<sigma>)(a := ossl_quic_rxfc_set_max_window_size (rx \<sigma> a) m)"
  have same: "rxfc_swm (?h x) = rxfc_swm (rx \<sigma> x)" "rxfc_rwm (?h x) = rxfc_rwm (rx \<sigma> x)"
    "rxfc_cwm (?h x) = rxfc_cwm (rx \<sigma> x)" "rxfc_hwm (?h x) = rxfc_hwm (rx \<sigma> x)"
    "rxfc_parent (?h x) = rxfc_parent (rx \<sigma> x)" "rxfc_standalone (?h x) = rxfc_standalone (rx \<sigma> x)"
    "rxfc_error_code (?h x) = rxfc_error_code (rx \<sigma> x)" "rxfc_is_fin (?h x) = rxfc_is_fin (rx \<sigma> x)" for x
    by (simp_all add: ossl_quic_rxfc_set_max_window_size_def)
  have "rx_inv c S ?h = rx_inv c S (rx \<sigma>)"
    unfolding rx_inv_def same ..
  then show ?thesis
    using inv by (auto simp: fc_inv_def same simp del: fun_upd_apply)
qed

lemma fc_inv_update:
  assumes inv: "fc_inv c S \<sigma>" and v: "(a, v) \<in> credits \<sigma>"
  shows "fc_inv c S (\<sigma>\<lparr>tx := (tx \<sigma>)(a := snd (ossl_quic_txfc_bump_cwm (tx \<sigma> a) v))\<rparr>)"
proof -
  let ?h = "(tx \<sigma>)(a := snd (ossl_quic_txfc_bump_cwm (tx \<sigma> a) v))"
  have swm: "txfc_swm (?h x) = txfc_swm (tx \<sigma> x)" for x
    by (simp add: ossl_quic_txfc_bump_cwm_def)
  have "tx_inv c S ?h" using inv tx_inv_bump [of c S "tx \<sigma>" a v] by (simp add: fc_inv_def)
  moreover have "txfc_cwm (?h x) \<le> rxfc_cwm (rx \<sigma> x)" if "x \<in> insert c S" for x
    using inv v that by (auto simp: fc_inv_def ossl_quic_txfc_bump_cwm_def)
  ultimately show ?thesis
    using inv unfolding fc_inv_def by (simp add: swm del: fun_upd_apply)
qed

lemma fc_inv_blocked:
  assumes inv: "fc_inv c S \<sigma>"
  shows "fc_inv c S (\<sigma>\<lparr>tx := (tx \<sigma>)(a := snd (ossl_quic_txfc_has_become_blocked (tx \<sigma> a) True))\<rparr>)"
proof -
  let ?h = "(tx \<sigma>)(a := snd (ossl_quic_txfc_has_become_blocked (tx \<sigma> a) True))"
  have same: "txfc_swm (?h x) = txfc_swm (tx \<sigma> x)" "txfc_cwm (?h x) = txfc_cwm (tx \<sigma> x)"
    "txfc_parent (?h x) = txfc_parent (tx \<sigma> x)" for x
    by (simp_all add: ossl_quic_txfc_has_become_blocked_def)
  have "tx_inv c S ?h = tx_inv c S (tx \<sigma>)"
    unfolding tx_inv_def same ..
  then show ?thesis
    using inv unfolding fc_inv_def by (simp add: same del: fun_upd_apply)
qed

lemma fc_inv_step:
  assumes "fc_step now c S \<sigma> \<sigma>'" "fc_inv c S \<sigma>" "finite S" "c \<notin> S"
  shows "fc_inv c S \<sigma>'"
  using assms
  by cases (hypsubst, blast intro: fc_inv_send fc_inv_receive fc_inv_retire fc_inv_advertise fc_inv_update
      fc_inv_resize fc_inv_blocked)+

lemma fc_inv_reachable:
  "fc_reachable now c S \<sigma>0 \<sigma> \<Longrightarrow> fc_inv c S \<sigma>0 \<Longrightarrow> finite S \<Longrightarrow> c \<notin> S \<Longrightarrow> fc_inv c S \<sigma>"
  by (induction rule: fc_reachable.induct) (auto intro: fc_inv_step)

section \<open>Initial states\<close>

lemma tx_init_fold:
  assumes "c \<notin> set ss" "txfc_parent (h c) = None"
  shows "fold (\<lambda>s h. snd (ossl_quic_txfc_init h s (Some c))) ss h a =
    (if a \<in> set ss then \<lparr>txfc_parent = Some c, txfc_swm = 0, txfc_cwm = 0, txfc_blocked = False\<rparr>
     else h a)"
  using assms
  by (induction ss arbitrary: h) (auto simp: ossl_quic_txfc_init_def)

lemma rx_init_fold:
  assumes "c \<notin> set ss" "rxfc_parent (h c) = None"
  shows "fold (\<lambda>s h. snd (ossl_quic_rxfc_init h s (Some c) win m)) ss h a =
    (if a \<in> set ss then
       \<lparr>rxfc_cwm = win, rxfc_swm = 0, rxfc_rwm = 0, rxfc_esrwm = 0, rxfc_hwm = 0,
        rxfc_cur_window_size = win, rxfc_max_window_size = m, rxfc_epoch_start = ossl_time_zero,
        rxfc_parent = Some c, rxfc_error_code = 0, rxfc_cwm_changed = False, rxfc_is_fin = False,
        rxfc_standalone = False\<rparr>
     else h a)"
  using assms
  by (induction ss arbitrary: h) (auto simp: ossl_quic_rxfc_init_def)

lemma fc_inv_init:
  assumes "c \<notin> set ss"
  shows "fc_inv c (set ss) (fc_init ht hr c ss cw sw m)"
proof -
  let ?ht = "snd (ossl_quic_txfc_init ht c None)" and ?hr = "snd (ossl_quic_rxfc_init hr c None cw m)"
  have "txfc_parent (?ht c) = None" "rxfc_parent (?hr c) = None"
    by (simp_all add: ossl_quic_txfc_init_def ossl_quic_rxfc_init_def)
  note init = tx_init_fold [OF assms, of ?ht, OF this(1)] rx_init_fold [OF assms, of ?hr, OF this(2)]
  show ?thesis
    using assms
    by (simp add: fc_inv_def fc_init_def tx_inv_def rx_inv_def init)
      (simp add: ossl_quic_txfc_init_def ossl_quic_rxfc_init_def)
qed

lemma fc_inv_from_init:
  assumes "c \<notin> set ss" "fc_reachable now c (set ss) (fc_init ht hr c ss cw sw m) \<sigma>"
  shows "fc_inv c (set ss) \<sigma>"
  using fc_inv_reachable [OF assms(2) fc_inv_init] assms(1) by simp

subsection \<open>An example run\<close>

definition demo_net :: fc_net where
  "demo_net = fc_init (\<lambda>_. \<lparr>txfc_parent = None, txfc_swm = 0, txfc_cwm = 0, txfc_blocked = False\<rparr>)
     (\<lambda>_. \<lparr>rxfc_cwm = 0, rxfc_swm = 0, rxfc_rwm = 0, rxfc_esrwm = 0, rxfc_hwm = 0,
        rxfc_cur_window_size = 0, rxfc_max_window_size = 0, rxfc_epoch_start = 0,
        rxfc_parent = None, rxfc_error_code = 0, rxfc_cwm_changed = False, rxfc_is_fin = False,
        rxfc_standalone = False\<rparr>) 0 [1] 100 50 1000"

abbreviation demo_clock :: "u64 clock" where
  "demo_clock \<equiv> \<lambda>w. (w, w + 1)"

lemma demo_net_simps [simp]:
  "tx demo_net 0 = \<lparr>txfc_parent = None, txfc_swm = 0, txfc_cwm = 0, txfc_blocked = False\<rparr>"
  "tx demo_net (Suc 0) = \<lparr>txfc_parent = Some 0, txfc_swm = 0, txfc_cwm = 0, txfc_blocked = False\<rparr>"
  "rx demo_net 0 =
     \<lparr>rxfc_cwm = 100, rxfc_swm = 0, rxfc_rwm = 0, rxfc_esrwm = 0, rxfc_hwm = 0,
      rxfc_cur_window_size = 100, rxfc_max_window_size = 1000, rxfc_epoch_start = 0,
      rxfc_parent = None, rxfc_error_code = 0, rxfc_cwm_changed = False, rxfc_is_fin = False,
      rxfc_standalone = False\<rparr>"
  "rx demo_net (Suc 0) =
     \<lparr>rxfc_cwm = 50, rxfc_swm = 0, rxfc_rwm = 0, rxfc_esrwm = 0, rxfc_hwm = 0,
      rxfc_cur_window_size = 50, rxfc_max_window_size = 1000, rxfc_epoch_start = 0,
      rxfc_parent = Some 0, rxfc_error_code = 0, rxfc_cwm_changed = False, rxfc_is_fin = False,
      rxfc_standalone = False\<rparr>"
  "frames demo_net = {}" "credits demo_net = {}" "finished demo_net = {}"
  by (simp_all add: demo_net_def fc_init_def ossl_quic_txfc_init_def ossl_quic_rxfc_init_def)

text \<open>The receiver offers its initial windows, the sender sends 10 bytes with FIN, and the frame
  arrives.\<close>

lemma demo_run:
  "\<exists>\<sigma>. fc_reachable demo_clock 0 {1} demo_net \<sigma> \<and> frames \<sigma> = {(1, 10, True)} \<and> rxfc_hwm (rx \<sigma> 1) = 10"
proof -
  define n1 where "n1 = demo_net\<lparr>
    rx := (rx demo_net)(0 := snd (ossl_quic_rxfc_has_cwm_changed (rx demo_net 0) True)),
    credits := insert (0, ossl_quic_rxfc_get_cwm (rx demo_net 0)) (credits demo_net)\<rparr>"
  define n2 where "n2 = n1\<lparr>
    rx := (rx n1)(1 := snd (ossl_quic_rxfc_has_cwm_changed (rx n1 1) True)),
    credits := insert (1, ossl_quic_rxfc_get_cwm (rx n1 1)) (credits n1)\<rparr>"
  define n3 where "n3 = n2\<lparr>tx := (tx n2)(0 := snd (ossl_quic_txfc_bump_cwm (tx n2 0) 100))\<rparr>"
  define n4 where "n4 = n3\<lparr>tx := (tx n3)(1 := snd (ossl_quic_txfc_bump_cwm (tx n3 1) 50))\<rparr>"
  define h where "h = snd (the (ossl_quic_txfc_consume_credit (tx n4) 1 10))"
  define n5 where "n5 = n4\<lparr>tx := h, frames := insert (1, ossl_quic_txfc_get_swm (h 1), True) (frames n4),
    finished := (if True then insert 1 (finished n4) else finished n4)\<rparr>"
  define n6 where "n6 = n5\<lparr>rx := snd (ossl_quic_rxfc_on_rx_stream_frame (rx n5) 1 10 True)\<rparr>"
  have n2: "rx n2 0 = rx demo_net 0" "rx n2 1 = rx demo_net 1" "tx n2 = tx demo_net"
      "credits n2 = {(0, 100), (1, 50)}" "frames n2 = {}" "finished n2 = {}"
    by (auto simp: n2_def n1_def ossl_quic_rxfc_has_cwm_changed_def ossl_quic_rxfc_get_cwm_def)
  have n4: "tx n4 0 = (tx demo_net 0)\<lparr>txfc_cwm := 100\<rparr>" "tx n4 1 = (tx demo_net 1)\<lparr>txfc_cwm := 50\<rparr>"
      "rx n4 = rx n2" "frames n4 = {}" "finished n4 = {}" and n3: "credits n3 = credits n2"
    by (simp_all add: n4_def n3_def n2 ossl_quic_txfc_bump_cwm_def)
  have credit: "ossl_quic_txfc_get_credit (tx n4) 1 0 = Some 50"
    and consume: "ossl_quic_txfc_consume_credit (tx n4) 1 10 = Some (True, h)" and "txfc_swm (h 1) = 10"
    using n4 by (simp_all add: h_def ossl_quic_txfc_get_credit_def ossl_quic_txfc_consume_credit_def
        ossl_quic_txfc_get_credit_local_def ossl_quic_txfc_consume_credit_local_def Let_def)
  then have n5: "frames n5 = {(1, 10, True)}" "rx n5 = rx n2"
    using n4 by (simp_all add: n5_def ossl_quic_txfc_get_swm_def)
  have n6: "frames n6 = {(1, 10, True)}" "rxfc_hwm (rx n6 1) = 10"
    using n5 n2 by (simp_all add: n6_def ossl_quic_rxfc_on_rx_stream_frame_def on_rx_controlled_bytes_def
        Let_def)
  have "fc_step demo_clock 0 {1} demo_net n1" "fc_step demo_clock 0 {1} n1 n2"
    unfolding n1_def n2_def by (rule fc_step.advertise, simp)+
  moreover have "fc_step demo_clock 0 {1} n2 n3" "fc_step demo_clock 0 {1} n3 n4"
    unfolding n3_def n4_def by (rule fc_step.update, simp add: n2 n3 [unfolded n3_def])+
  moreover have "fc_step demo_clock 0 {1} n4 n5"
    unfolding n5_def by (rule fc_step.send [OF _ _ credit _ consume]) (simp_all add: n4)
  moreover have "fc_step demo_clock 0 {1} n5 n6"
    unfolding n6_def by (rule fc_step.receive) (simp add: n5)
  ultimately have "fc_reachable demo_clock 0 {1} demo_net n6"
    by (meson fc_reachable.intros)
  with n6 show ?thesis by blast
qed

section \<open>Properties\<close>

text \<open>C4. Two endpoints that start from the initialisation functions and only send within the
  credit they are given never see an error, however the network loses, repeats and reorders the
  STREAM, MAX_DATA and MAX_STREAM_DATA frames between them: at every reachable state the error code of
  the connection's and of every stream's receive controller is zero, every transmit assertion
  holds, and the sender can spend its whole reported credit.\<close>

theorem flow_control_no_errors:
  assumes "c \<notin> set ss" "fc_reachable now c (set ss) (fc_init ht hr c ss cw sw m) \<sigma>"
  shows "(\<forall>a\<in>insert c (set ss). fst (ossl_quic_rxfc_get_error (rx \<sigma> a) False) = 0) \<and>
    (\<forall>s\<in>set ss. \<exists>credit. ossl_quic_txfc_get_credit (tx \<sigma>) s 0 = Some credit \<and>
       (\<forall>n\<le>credit. \<exists>h. ossl_quic_txfc_consume_credit (tx \<sigma>) s n = Some (True, h)))"
proof -
  have inv: "tx_inv c (set ss) (tx \<sigma>)" "rx_inv c (set ss) (rx \<sigma>)"
    using fc_inv_from_init [OF assms] by (simp_all add: fc_inv_def)
  show ?thesis
    using inv(2) txfc_get_credit_stream [OF inv(1)] txfc_consume_credit_stream [OF inv(1) _ assms(1)]
    by (simp add: rx_inv_def ossl_quic_rxfc_get_error_def)
qed

theorem flow_control_no_errors_witness:
  "\<exists>\<sigma>. fc_reachable demo_clock 0 (set [1]) demo_net \<sigma> \<and> frames \<sigma> = {(1, 10, True)} \<and> rxfc_hwm (rx \<sigma> 1) = 10 \<and>
     fst (ossl_quic_rxfc_get_error (rx \<sigma> 1) False) = 0 \<and> fst (ossl_quic_rxfc_get_error (rx \<sigma> 0) False) = 0"
proof -
  obtain \<sigma> where r: "fc_reachable demo_clock 0 (set [1]) demo_net \<sigma>" and
    \<sigma>: "frames \<sigma> = {(1, 10, True)}" "rxfc_hwm (rx \<sigma> 1) = 10"
    using demo_run by auto
  from flow_control_no_errors [OF _ r [unfolded demo_net_def]] r \<sigma> show ?thesis
    by (intro exI [of _ \<sigma>]) auto
qed

text \<open>C13. In the same states the connection-level controllers count exactly what their streams count
  together, on both ends, and no more is retired than was received, no more received than sent,
  no more sent than granted, and no more granted than the receiver offers.\<close>

theorem flow_control_accounts:
  assumes "c \<notin> set ss" "fc_reachable now c (set ss) (fc_init ht hr c ss cw sw m) \<sigma>"
  shows "unat (txfc_swm (tx \<sigma> c)) = (\<Sum>s\<in>set ss. unat (txfc_swm (tx \<sigma> s))) \<and>
    unat (rxfc_swm (rx \<sigma> c)) = (\<Sum>s\<in>set ss. unat (rxfc_swm (rx \<sigma> s))) \<and>
    unat (rxfc_rwm (rx \<sigma> c)) = (\<Sum>s\<in>set ss. unat (rxfc_rwm (rx \<sigma> s))) \<and>
    (\<forall>s\<in>set ss. rxfc_rwm (rx \<sigma> s) \<le> rxfc_swm (rx \<sigma> s) \<and> rxfc_swm (rx \<sigma> s) \<le> txfc_swm (tx \<sigma> s)) \<and>
    (\<forall>a\<in>insert c (set ss). txfc_swm (tx \<sigma> a) \<le> txfc_cwm (tx \<sigma> a) \<and> txfc_cwm (tx \<sigma> a) \<le> rxfc_cwm (rx \<sigma> a))"
  using fc_inv_from_init [OF assms] unfolding fc_inv_def tx_inv_def rx_inv_def by auto

theorem flow_control_accounts_witness:
  "\<exists>\<sigma>. fc_reachable demo_clock 0 (set [1]) demo_net \<sigma> \<and> frames \<sigma> = {(1, 10, True)} \<and> rxfc_hwm (rx \<sigma> 1) = 10 \<and>
     txfc_swm (tx \<sigma> 0) = txfc_swm (tx \<sigma> 1) \<and> rxfc_swm (rx \<sigma> 0) = rxfc_swm (rx \<sigma> 1)"
proof -
  obtain \<sigma> where r: "fc_reachable demo_clock 0 (set [1]) demo_net \<sigma>" and
    \<sigma>: "frames \<sigma> = {(1, 10, True)}" "rxfc_hwm (rx \<sigma> 1) = 10"
    using demo_run by auto
  from flow_control_accounts [OF _ r [unfolded demo_net_def]] r \<sigma> show ?thesis
    by (intro exI [of _ \<sigma>]) (simp add: u64_eq_nat)
qed

end
