(* ===== verification/UintSet.thy ===== *)
theory UintSet
  imports Prelude
begin

text \<open>
  Sets of 64-bit integers kept as a sorted list of inclusive ranges
  (\<open>ssl/quic/uint_set.c\<close>, \<open>include/internal/uint_set.h\<close>). The doubly linked list of range
  items is the list of its ranges from head to tail. The two loops that walk the list backwards
  from a node \<open>z\<close> are recursions over the reversed list of the nodes not yet visited (its head is
  \<open>z\<close>, the next element is \<open>prev(z)\<close>) and the list of the nodes already passed.

  The theory shows that insertion, removal and query implement union, difference and membership of
  the set of integers the list denotes and keep the list sorted and disjoint, and says exactly
  what is kept of the promise that no two stored ranges border one another.
\<close>

section \<open>The model\<close>

record uint_range =
  r_start :: u64
  r_end :: u64

type_synonym uint_set = "uint_range list"

definition ossl_uint_set_init :: uint_set where
  "ossl_uint_set_init = []"

definition u64_min :: "u64 \<Rightarrow> u64 \<Rightarrow> u64" where
  "u64_min x y = (if x < y then x else y)"

definition u64_max :: "u64 \<Rightarrow> u64 \<Rightarrow> u64" where
  "u64_max x y = (if x > y then x else y)"

definition uint_range_overlaps :: "uint_range \<Rightarrow> uint_range \<Rightarrow> bool" where
  "uint_range_overlaps a b \<longleftrightarrow> u64_min (r_end a) (r_end b) \<ge> u64_max (r_start a) (r_start b)"

text \<open>\<open>create_set_item\<close>: \<open>None\<close> is the NULL of a failed allocation.\<close>

definition create_set_item :: "mem_ok \<Rightarrow> u64 \<Rightarrow> u64 \<Rightarrow> uint_range option" where
  "create_set_item mem s e = (if mem then Some \<lparr>r_start = s, r_end = e\<rparr> else None)"

text \<open>Merging \<open>x\<close> with its predecessor; the first argument lists the nodes before \<open>x\<close>, nearest first.\<close>

definition uint_set_merge_adjacent ::
  "uint_range list \<Rightarrow> uint_range \<Rightarrow> uint_range list \<times> uint_range" where
  "uint_set_merge_adjacent pre x =
     (case pre of
        [] \<Rightarrow> (pre, x)
      | xprev # pre' \<Rightarrow>
          if r_start x - 1 \<noteq> r_end xprev then (pre, x)
          else (pre', x\<lparr>r_start := r_start xprev\<rparr>))"

text \<open>The inner loop of the insertion: the earliest node that overlaps the range, and the nodes before it.\<close>

fun earliest_overlap ::
  "uint_range \<Rightarrow> uint_range list \<Rightarrow> uint_range \<Rightarrow> uint_range \<times> uint_range list" where
  "earliest_overlap z [] rng = (z, [])"
| "earliest_overlap z (zprev # zs) rng =
     (if uint_range_overlaps zprev rng then earliest_overlap zprev zs rng
      else (z, zprev # zs))"

fun insert_walk ::
  "mem_ok \<Rightarrow> uint_range \<Rightarrow> uint_range list \<Rightarrow> uint_range list \<Rightarrow> bool \<times> uint_set" where
  "insert_walk mem rng [] post = (True, post)"
| "insert_walk mem rng (z # zs) post =
     (if r_start z \<le> r_start rng \<and> r_end z \<ge> r_end rng then (True, rev zs @ z # post)
      else if uint_range_overlaps z rng then
        (let ovend_end = u64_max (r_end rng) (r_end z);
             (z', zs') = earliest_overlap z zs rng;
             ovend = \<lparr>r_start = u64_min (r_start rng) (r_start z'), r_end = ovend_end\<rparr>
         in (True, rev zs' @ ovend # post))
      else if r_end rng < r_start z \<and> (zs = [] \<or> r_start rng > r_end (hd zs)) then
        (if r_start z = r_end rng + 1 then
           (let (zs', z') = uint_set_merge_adjacent zs (z\<lparr>r_start := r_start rng\<rparr>)
            in (True, rev zs' @ z' # post))
         else if zs \<noteq> [] \<and> r_end (hd zs) + 1 = r_start rng then
           (let (zs', z') = uint_set_merge_adjacent ((hd zs)\<lparr>r_end := r_end rng\<rparr> # tl zs) z
            in (True, rev zs' @ z' # post))
         else
           (case create_set_item mem (r_start rng) (r_end rng) of
              None \<Rightarrow> (False, rev zs @ z # post)
            | Some x \<Rightarrow> (True, rev zs @ x # z # post)))
      else insert_walk mem rng zs (z # post))"

definition ossl_uint_set_insert :: "mem_ok \<Rightarrow> uint_set \<Rightarrow> uint_range \<Rightarrow> bool \<times> uint_set" where
  "ossl_uint_set_insert mem s rng =
     (if \<not> r_start rng \<le> r_end rng then (False, s)
      else if s = [] then
        (case create_set_item mem (r_start rng) (r_end rng) of
           None \<Rightarrow> (False, s)
         | Some x \<Rightarrow> (True, [x]))
      else
        (let z = last s; f = hd s in
         if r_start rng > r_end z then
           (if r_end z + 1 = r_start rng then (True, butlast s @ [z\<lparr>r_end := r_end rng\<rparr>])
            else
              (case create_set_item mem (r_start rng) (r_end rng) of
                 None \<Rightarrow> (False, s)
               | Some x \<Rightarrow> (True, s @ [x])))
         else if r_start rng \<le> r_start f \<and> r_end rng \<ge> r_end z then
           (True, [f\<lparr>r_start := r_start rng, r_end := r_end rng\<rparr>])
         else if r_end rng < r_start f then insert_walk mem rng [f] (tl s)
         else insert_walk mem rng (rev s) []))"

text \<open>
  Removal does not test the result of \<open>create_set_item\<close> before it links the new node, so a failed
  allocation is a NULL dereference: the outcome \<open>None\<close>. The assertions of the loop restate the
  conditions of the branches they stand in.
\<close>

fun remove_walk ::
  "mem_ok \<Rightarrow> uint_range \<Rightarrow> uint_range list \<Rightarrow> uint_range list \<Rightarrow> uint_set option" where
  "remove_walk mem rng [] post = Some post"
| "remove_walk mem rng (z # zs) post =
     (if r_start rng > r_end z then Some (rev zs @ z # post)
      else if r_start rng \<le> r_start z \<and> r_end rng \<ge> r_end z then
        remove_walk mem rng zs post
      else if r_start rng \<le> r_start z \<and> r_end rng \<ge> r_start z then
        remove_walk mem rng zs (z\<lparr>r_start := r_end rng + 1\<rparr> # post)
      else if r_end rng \<ge> r_end z then
        Some (rev zs @ z\<lparr>r_end := r_start rng - 1\<rparr> # post)
      else if r_start rng > r_start z \<and> r_end rng < r_end z then
        (case create_set_item mem (r_end rng + 1) (r_end z) of
           None \<Rightarrow> None
         | Some y \<Rightarrow> Some (rev zs @ z\<lparr>r_end := r_start rng - 1\<rparr> # y # post))
      else remove_walk mem rng zs (z # post))"

definition ossl_uint_set_remove ::
  "mem_ok \<Rightarrow> uint_set \<Rightarrow> uint_range \<Rightarrow> (bool \<times> uint_set) option" where
  "ossl_uint_set_remove mem s rng =
     (if \<not> r_start rng \<le> r_end rng then Some (False, s)
      else map_option (Pair True) (remove_walk mem rng (rev s) []))"

fun query_walk :: "u64 \<Rightarrow> uint_range list \<Rightarrow> bool" where
  "query_walk v [] = False"
| "query_walk v (x # xs) =
     (if r_start x \<le> v \<and> r_end x \<ge> v then True
      else if r_end x < v then False
      else query_walk v xs)"

definition ossl_uint_set_query :: "uint_set \<Rightarrow> u64 \<Rightarrow> bool" where
  "ossl_uint_set_query s v = (if s = [] then False else query_walk v (rev s))"


section \<open>Meaning and invariants\<close>

definition range_elems :: "uint_range \<Rightarrow> u64 set" where
  "range_elems r = {r_start r..r_end r}"

definition uset_elems :: "uint_set \<Rightarrow> u64 set" where
  "uset_elems s = (\<Union>r \<in> set s. range_elems r)"

text \<open>Sorted, disjoint, no empty range: three of the five invariants \<open>uint_set.c\<close> lists.\<close>

definition uset_inv :: "uint_set \<Rightarrow> bool" where
  "uset_inv s \<longleftrightarrow>
     sorted_wrt (\<lambda>a b. r_end a < r_start b) s \<and> (\<forall>r \<in> set s. r_start r \<le> r_end r)"

text \<open>Two ranges with nothing between them, and a list in which no two stored ranges are so placed.\<close>

definition borders :: "uint_range \<Rightarrow> uint_range \<Rightarrow> bool" where
  "borders a b \<longleftrightarrow> r_end a < r_start b \<and> r_end a + 1 = r_start b"

definition uset_gaps :: "uint_set \<Rightarrow> bool" where
  "uset_gaps s \<longleftrightarrow> (\<forall>a \<in> set s. \<forall>b \<in> set s. \<not> borders a b)"

lemma uset_elems_simps [simp]:
  "uset_elems [] = {}"
  "uset_elems (r # s) = range_elems r \<union> uset_elems s"
  "uset_elems (s @ t) = uset_elems s \<union> uset_elems t"
  "uset_elems (rev s) = uset_elems s"
  by (auto simp: uset_elems_def)

lemma uset_inv_simps [simp]:
  "uset_inv []"
  "uset_inv (r # s) \<longleftrightarrow>
     r_start r \<le> r_end r \<and> (\<forall>x \<in> set s. r_end r < r_start x) \<and> uset_inv s"
  "uset_inv (s @ t) \<longleftrightarrow>
     uset_inv s \<and> uset_inv t \<and> (\<forall>x \<in> set s. \<forall>y \<in> set t. r_end x < r_start y)"
  by (auto simp: uset_inv_def sorted_wrt_append)

lemma uset_inv_wf: "uset_inv s \<Longrightarrow> r \<in> set s \<Longrightarrow> r_start r \<le> r_end r"
  by (simp add: uset_inv_def)

lemma uint_range_eta [simp]: "\<lparr>r_start = r_start r, r_end = r_end r\<rparr> = r"
  by simp

lemma u64_min_max [simp]: "u64_min x y = min x y" "u64_max x y = max x y"
  by (auto simp: u64_min_def u64_max_def min_def max_def)

lemma borders_start: "r_start b = r_start c \<Longrightarrow> borders a b \<longleftrightarrow> borders a c"
  by (simp add: borders_def)

lemma borders_end: "r_end a = r_end b \<Longrightarrow> borders a c \<longleftrightarrow> borders b c"
  by (simp add: borders_def)

lemma borders_irrefl: "r_start a \<le> r_end a \<Longrightarrow> \<not> borders a a"
  by (auto simp: borders_def)

text \<open>A range in between, or an order the wrong way round, excludes that two ranges border.\<close>

lemma not_borders_between:
  assumes "r_end a < r_start m" "r_start m \<le> r_end m" "r_end m < r_start b"
  shows "\<not> borders a b"
proof -
  have "unat (r_end a + 1) = unat (r_end a) + 1" using assms(1) by (rule unat_succ_less)
  with assms show ?thesis by (auto simp: borders_def u64_eq_nat u64_nat)
qed

lemma not_borders_after: "r_start b \<le> r_end a \<Longrightarrow> \<not> borders a b"
  by (auto simp: borders_def)

lemma overlaps_iff:
  "r_start a \<le> r_end a \<Longrightarrow> r_start b \<le> r_end b \<Longrightarrow>
     uint_range_overlaps a b \<longleftrightarrow> r_start a \<le> r_end b \<and> r_start b \<le> r_end a"
  by (auto simp: uint_range_overlaps_def)


subsection \<open>Bordering ranges in a sorted list\<close>

lemma uset_gaps_mid:
  assumes "uset_inv (pre @ m # post)"
  shows "uset_gaps (pre @ m # post) \<longleftrightarrow>
    uset_gaps (pre @ post) \<and> (\<forall>x \<in> set pre. \<not> borders x m) \<and> (\<forall>p \<in> set post. \<not> borders m p)"
proof -
  have m: "r_start m \<le> r_end m" using assms by simp
  have "\<not> borders m x" if "x \<in> set pre" for x
  proof -
    have "r_start x \<le> r_end x" "r_end x < r_start m"
      using assms that by (auto simp: uset_inv_wf)
    with m show ?thesis by (intro not_borders_after) order
  qed
  moreover have "\<not> borders p m" if "p \<in> set post" for p
  proof -
    have "r_start p \<le> r_end p" "r_end m < r_start p"
      using assms that by (auto simp: uset_inv_wf)
    with m show ?thesis by (intro not_borders_after) order
  qed
  ultimately show ?thesis using borders_irrefl [OF m] by (auto simp: uset_gaps_def)
qed

lemma uset_gaps_subset: "uset_gaps s \<Longrightarrow> set s' \<subseteq> set s \<Longrightarrow> uset_gaps s'"
  by (auto simp: uset_gaps_def)

lemma uset_inv_cases:
  "uset_inv s \<Longrightarrow> x \<in> set s \<Longrightarrow> z \<in> set s \<Longrightarrow> x = z \<or> r_end x < r_start z \<or> r_end z < r_start x"
  by (induction s) auto

lemma borders_nearest_before:
  assumes "uset_inv (rev (y # ys) @ [m])" and "\<not> borders y m" and "x \<in> set (y # ys)"
  shows "\<not> borders x m"
  using assms not_borders_between [of x y m] by auto

lemma borders_nearest_after:
  assumes "uset_inv (m # q # qs)" and "\<not> borders m q" and "p \<in> set (q # qs)"
  shows "\<not> borders m p"
  using assms not_borders_between [of m q p] by auto

text \<open>
  The one situation in which an insertion leaves two bordering ranges: the new range overlaps one
  stored range and borders another.
\<close>

definition touches :: "uint_set \<Rightarrow> uint_range \<Rightarrow> bool" where
  "touches s rng \<longleftrightarrow>
     (\<exists>z \<in> set s. uint_range_overlaps z rng) \<and> (\<exists>x \<in> set s. borders x rng \<or> borders rng x)"

definition gaps_result :: "uint_range \<Rightarrow> uint_set \<Rightarrow> uint_set \<Rightarrow> bool" where
  "gaps_result rng s s' \<longleftrightarrow> (uset_gaps s \<longrightarrow> (uset_gaps s' \<longleftrightarrow> \<not> touches s rng))"

lemma gaps_resultI: "(\<And>z. z \<in> set s \<Longrightarrow> \<not> uint_range_overlaps z rng) \<Longrightarrow>
    (uset_gaps s \<Longrightarrow> uset_gaps s') \<Longrightarrow> gaps_result rng s s'"
  by (auto simp: gaps_result_def touches_def)


section \<open>Insertion\<close>

lemma earliest_overlap_spec:
  assumes "earliest_overlap z zs rng = (z', zs')"
    and "uset_inv (rev zs @ [z])" and "uint_range_overlaps z rng"
    and "r_start rng \<le> r_end rng"
  shows "uset_inv (rev zs') \<and> set zs' \<subseteq> set zs \<and> z' \<in> insert z (set zs)
    \<and> set zs \<subseteq> set zs' \<union> {x. uint_range_overlaps x rng}
    \<and> r_start z' \<le> r_start z \<and> r_start z' \<le> r_end rng
    \<and> (\<forall>x \<in> set zs'. r_end x < r_start z' \<and> r_end x < r_start rng)
    \<and> {min (r_start rng) (r_start z')..max (r_end rng) (r_end z)} \<union> uset_elems zs'
       = range_elems z \<union> uset_elems zs \<union> range_elems rng"
  using assms
proof (induction z zs rng rule: earliest_overlap.induct)
  case (1 z rng)
  then show ?case
    by (auto simp: overlaps_iff range_elems_def u64_Icc_overlap_Un min.commute max.commute)
next
  case (2 z zprev zs rng)
  have wf: "r_start z \<le> r_end z" "r_start zprev \<le> r_end zprev" "r_end zprev < r_start z"
    using "2.prems"(2) by auto
  have ov: "r_start z \<le> r_end rng" "r_start rng \<le> r_end z"
    using "2.prems"(3,4) wf by (auto simp: overlaps_iff)
  show ?case
  proof (cases "uint_range_overlaps zprev rng")
    case True
    with "2" have ih: "uset_inv (rev zs') \<and> set zs' \<subseteq> set zs \<and> z' \<in> insert zprev (set zs)
      \<and> set zs \<subseteq> set zs' \<union> {x. uint_range_overlaps x rng}
      \<and> r_start z' \<le> r_start zprev \<and> r_start z' \<le> r_end rng
      \<and> (\<forall>x \<in> set zs'. r_end x < r_start z' \<and> r_end x < r_start rng)
      \<and> {min (r_start rng) (r_start z')..max (r_end rng) (r_end zprev)} \<union> uset_elems zs'
         = range_elems zprev \<union> uset_elems zs \<union> range_elems rng"
      by auto
    have "{min (r_start rng) (r_start z')..max (r_end rng) (r_end z)} =
        {min (r_start rng) (r_start z')..max (r_end rng) (r_end zprev)} \<union> range_elems z"
      using wf ov ih by (auto simp: range_elems_def min_def max_def split: if_splits)
    with ih wf True show ?thesis by auto
  next
    case False
    then have ze: "z' = z" "zs' = zprev # zs" using "2.prems"(1) by auto
    have "r_end zprev < r_start rng"
      using False wf ov "2.prems"(4) by (auto simp: overlaps_iff not_le)
    moreover have "r_end x < r_start zprev" if "x \<in> set zs" for x
      using that "2.prems"(2) by auto
    ultimately have "\<forall>x \<in> set zs'. r_end x < r_start rng"
      using ze wf by fastforce
    moreover have "\<forall>x \<in> set zs'. r_end x < r_start z"
      using ze "2.prems"(2) by auto
    moreover have "{min (r_start rng) (r_start z)..max (r_end rng) (r_end z)}
        = range_elems z \<union> range_elems rng"
      using u64_Icc_overlap_Un [of "r_start z" "r_end rng" "r_start rng" "r_end z"] wf ov "2.prems"(4)
      by (simp add: range_elems_def min.commute max.commute)
    ultimately show ?thesis using ze "2.prems"(2) ov by auto
  qed
qed

lemma merge_adjacent_spec:
  assumes "uint_set_merge_adjacent pre x = (pre', x')"
    and "uset_inv (rev pre @ [x])"
  shows "uset_inv (rev pre' @ [x']) \<and> set pre' \<subseteq> set pre \<and> r_end x' = r_end x
    \<and> uset_elems pre' \<union> range_elems x' = uset_elems pre \<union> range_elems x"
proof (cases pre)
  case Nil
  with assms show ?thesis by (simp add: uint_set_merge_adjacent_def)
next
  case (Cons xp pre0)
  have *: "r_start xp \<le> r_end xp" "r_end xp < r_start x" "r_start x \<le> r_end x"
    using assms(2) Cons by auto
  show ?thesis
  proof (cases "r_start x - 1 = r_end xp")
    case True
    then have eq: "pre' = pre0" "x' = x\<lparr>r_start := r_start xp\<rparr>"
      using assms(1) Cons by (auto simp: uint_set_merge_adjacent_def)
    have "r_end xp + 1 = r_start x" using True by (metis diff_add_cancel)
    then have "{r_start xp..r_end x} = range_elems xp \<union> range_elems x"
      using u64_Icc_join [OF *(1,2) _ *(3)] by (simp add: range_elems_def)
    with eq Cons assms(2) * show ?thesis by (auto simp: range_elems_def)
  next
    case False
    with assms Cons show ?thesis by (auto simp: uint_set_merge_adjacent_def)
  qed
qed

text \<open>What an insertion into \<open>s\<close> must deliver.\<close>

definition insert_result :: "mem_ok \<Rightarrow> uint_range \<Rightarrow> uint_set \<Rightarrow> bool \<times> uint_set \<Rightarrow> bool" where
  "insert_result mem rng s res \<longleftrightarrow>
     uset_inv (snd res) \<and> (mem \<longrightarrow> fst res) \<and> (\<not> fst res \<longrightarrow> snd res = s)
     \<and> (fst res \<longrightarrow> uset_elems (snd res) = uset_elems s \<union> range_elems rng
                    \<and> gaps_result rng s (snd res))"

lemma gaps_overlapping:
  assumes inv: "uset_inv (rev zs @ z # post)" and rng: "r_start rng \<le> r_end rng"
    and post: "\<forall>p \<in> set post. r_end rng < r_start p" and ov: "uint_range_overlaps z rng"
    and z': "z' \<in> insert z (set zs)"
    and zs': "set zs' \<subseteq> set zs" "set zs \<subseteq> set zs' \<union> {x. uint_range_overlaps x rng}"
      "\<forall>x \<in> set zs'. r_end x < r_start z' \<and> r_end x < r_start rng"
    and hull: "r_start h = min (r_start rng) (r_start z')" "r_end h = max (r_end rng) (r_end z)"
    and inv': "uset_inv (rev zs' @ h # post)"
  shows "gaps_result rng (rev zs @ z # post) (rev zs' @ h # post)"
proof -
  have zle: "r_start z \<le> r_end rng" "r_start rng \<le> r_end z"
    using ov inv rng by (auto simp: overlaps_iff)
  have left: "borders x h \<longleftrightarrow> borders x rng" if "x \<in> set zs'" "uset_gaps (rev zs @ z # post)" for x
  proof -
    have nb: "\<not> borders x z'" using that zs'(1) z' by (auto simp: uset_gaps_def)
    have xs: "r_end x < r_start z'" "r_end x < r_start rng" using that zs'(3) by auto
    show ?thesis
    proof (cases "r_start rng \<le> r_start z'")
      case True
      then show ?thesis using hull(1) by (intro borders_start) simp
    next
      case False
      then have "borders x h \<longleftrightarrow> borders x z'" using hull(1) by (intro borders_start) simp
      moreover have "\<not> borders x rng"
        using False xs nb less_succ_iff_le [OF xs(1), of "r_start z'"] by (auto simp: borders_def)
      ultimately show ?thesis using nb by simp
    qed
  qed
  have right: "borders h p \<longleftrightarrow> borders rng p" if "p \<in> set post" "uset_gaps (rev zs @ z # post)" for p
  proof -
    have nb: "\<not> borders z p" using that by (auto simp: uset_gaps_def)
    have ps: "r_end z < r_start p" "r_end rng < r_start p" using that inv post by auto
    show ?thesis
    proof (cases "r_end z \<le> r_end rng")
      case True
      then show ?thesis using hull(2) by (intro borders_end) simp
    next
      case False
      then have "borders h p \<longleftrightarrow> borders z p" using hull(2) by (intro borders_end) simp
      moreover have "\<not> borders rng p"
        using False ps succ_le_iff_less [OF ps(2), of "r_end z"] by (auto simp: borders_def)
      ultimately show ?thesis using nb by simp
    qed
  qed
  have away: "\<not> borders x rng \<and> \<not> borders rng x" if "uint_range_overlaps x rng" "r_start x \<le> r_end x" for x
    using that rng by (auto simp: overlaps_iff borders_def)
  have rl: "\<not> borders rng x" if "x \<in> set zs'" for x
    using that zs'(1,3) inv rng uset_inv_wf [OF inv, of x] by (intro not_borders_after) fastforce
  have lr: "\<not> borders p rng" if "p \<in> set post" for p
    using that post rng uset_inv_wf [OF inv, of p] by (intro not_borders_after) fastforce
  have "(\<exists>x \<in> set (rev zs @ z # post). borders x rng \<or> borders rng x) \<longleftrightarrow>
      (\<exists>x \<in> set zs'. borders x rng) \<or> (\<exists>p \<in> set post. borders rng p)"
    using zs'(1,2) away uset_inv_wf [OF inv] ov rl lr by auto
  moreover have "uset_gaps (rev zs' @ post)" if "uset_gaps (rev zs @ z # post)"
    using zs'(1) by (intro uset_gaps_subset [OF that]) auto
  ultimately show ?thesis
    using uset_gaps_mid [OF inv'] left right ov by (auto simp: gaps_result_def touches_def)
qed

lemma insert_overlapping:
  assumes "uset_inv (rev zs @ z # post)" and "r_start rng \<le> r_end rng"
    and "\<forall>p \<in> set post. r_end rng < r_start p" and "uint_range_overlaps z rng"
    and "earliest_overlap z zs rng = (z', zs')"
  shows "insert_result mem rng (rev zs @ z # post)
    (True, rev zs' @ \<lparr>r_start = u64_min (r_start rng) (r_start z'),
                      r_end = u64_max (r_end rng) (r_end z)\<rparr> # post)"
proof -
  have "uset_inv (rev zs @ [z])" using assms(1) by auto
  from earliest_overlap_spec [OF assms(5) this assms(4,2)]
  have spec: "uset_inv (rev zs')" "set zs' \<subseteq> set zs" "r_start z' \<le> r_start z"
    "z' \<in> insert z (set zs)" "set zs \<subseteq> set zs' \<union> {x. uint_range_overlaps x rng}"
    "\<forall>x \<in> set zs'. r_end x < r_start z' \<and> r_end x < r_start rng"
    and els: "{min (r_start rng) (r_start z')..max (r_end rng) (r_end z)} \<union> uset_elems zs'
       = range_elems z \<union> uset_elems zs \<union> range_elems rng"
    by auto
  have "min (r_start rng) (r_start z') \<le> max (r_end rng) (r_end z)"
    using assms(2) by (meson max.coboundedI1 min.coboundedI1)
  moreover have "\<forall>p \<in> set post. max (r_end rng) (r_end z) < r_start p"
    using assms(1,3) by auto
  moreover have "\<forall>x \<in> set zs'. \<forall>p \<in> set post. r_end x < r_start p"
    using assms(1) spec(2) by auto
  ultimately have inv': "uset_inv (rev zs' @ \<lparr>r_start = u64_min (r_start rng) (r_start z'),
      r_end = u64_max (r_end rng) (r_end z)\<rparr> # post)"
    using assms(1) spec by auto
  from gaps_overlapping [OF assms(1-4) spec(4,2,5,6) _ _ this] els inv' show ?thesis
    by (auto simp: insert_result_def range_elems_def)
qed

lemma insert_between:
  assumes "uset_inv (rev zs @ z # post)" and "r_start rng \<le> r_end rng"
    and "r_end rng < r_start z" and "zs = [] \<or> r_start rng > r_end (hd zs)"
  shows "uset_inv (rev zs @ rng # z # post)"
proof -
  have "r_end x < r_start rng" if "x \<in> set zs" for x
  proof (cases zs)
    case (Cons y ys)
    then have "x = y \<or> r_end x < r_start y" "r_start y \<le> r_end y" "r_end y < r_start rng"
      using that assms(1,4) by auto
    then show ?thesis by auto
  qed (use that in simp)
  moreover have "r_end rng < r_start p" if "p \<in> set post" for p
  proof -
    have "r_start z \<le> r_end z" "r_end z < r_start p" using that assms(1) by auto
    with assms(3) show ?thesis by order
  qed
  ultimately show ?thesis using assms by auto
qed

lemma no_overlap_between:
  assumes "uset_inv (rev zs @ rng # z # post)" and "x \<in> set (rev zs @ z # post)"
  shows "\<not> uint_range_overlaps x rng"
proof -
  have "r_start rng \<le> r_end rng" "r_start x \<le> r_end x" "r_end x < r_start rng \<or> r_end rng < r_start x"
    using assms uset_inv_wf [OF assms(1), of x] by auto
  then show ?thesis by (auto simp: overlaps_iff)
qed

lemma insert_extend_back:
  assumes "uset_inv (rev zs @ z # post)" and "r_start rng \<le> r_end rng"
    and "r_end rng < r_start z" and "zs = [] \<or> r_start rng > r_end (hd zs)"
    and "r_start z = r_end rng + 1"
    and m: "uint_set_merge_adjacent zs (z\<lparr>r_start := r_start rng\<rparr>) = (zs', z')"
  shows "insert_result mem rng (rev zs @ z # post) (True, rev zs' @ z' # post)"
proof -
  note btw = insert_between [OF assms(1-4)]
  then have iv: "uset_inv (rev zs @ [rng])" "\<forall>x \<in> set zs. \<forall>p \<in> set post. r_end x < r_start p"
    "\<forall>p \<in> set post. r_end z < r_start p" "uset_inv post" "r_start z \<le> r_end z"
    by auto
  have z: "range_elems (z\<lparr>r_start := r_start rng\<rparr>) = range_elems rng \<union> range_elems z"
    using u64_Icc_join [OF assms(2,3) assms(5) [symmetric] iv(5)] by (simp add: range_elems_def)
  have inv1: "uset_inv (rev zs @ [z\<lparr>r_start := r_start rng\<rparr>])"
    using iv assms(2,3) by auto
  note ms = merge_adjacent_spec [OF m inv1]
  then have inv': "uset_inv (rev zs' @ z' # post)" using iv by auto
  have "uset_gaps (rev zs' @ z' # post)" if g: "uset_gaps (rev zs @ z # post)"
  proof -
    have "\<not> borders x z'" if "x \<in> set zs'" for x
    proof (cases zs)
      case Nil
      with m \<open>x \<in> set zs'\<close> show ?thesis by (simp add: uint_set_merge_adjacent_def)
    next
      case (Cons y ys)
      show ?thesis
      proof (cases "r_start rng - 1 = r_end y")
        case True
        with m Cons have "zs' = ys" "r_start z' = r_start y"
          by (auto simp: uint_set_merge_adjacent_def)
        with g Cons that show ?thesis using borders_start [of z' y x] by (auto simp: uset_gaps_def)
      next
        case False
        with m Cons have eq: "zs' = y # ys" "z' = z\<lparr>r_start := r_start rng\<rparr>"
          by (auto simp: uint_set_merge_adjacent_def)
        have "\<not> borders y z'" using False eq by (simp add: borders_def u64_pred_eq_iff)
        with borders_nearest_before [of y ys z' x] inv1 Cons eq that show ?thesis by simp
      qed
    qed
    moreover have "\<not> borders z' p" if "p \<in> set post" for p
      using g that ms borders_end [of z' z p] by (auto simp: uset_gaps_def)
    moreover have "uset_gaps (rev zs' @ post)" using ms by (intro uset_gaps_subset [OF g]) auto
    ultimately show ?thesis using uset_gaps_mid [OF inv'] by simp
  qed
  with no_overlap_between [OF btw] have "gaps_result rng (rev zs @ z # post) (rev zs' @ z' # post)"
    by (intro gaps_resultI) auto
  with ms z iv inv' show ?thesis by (auto simp: insert_result_def)
qed

text \<open>
  The preceding range is only extended when the following one does not start right after the new
  one, so the merge that the code attempts next never happens.
\<close>

lemma insert_extend_forward:
  assumes inv: "uset_inv (rev (zp # zs) @ z # post)" and "r_start rng \<le> r_end rng"
    and "r_end rng < r_start z" and "r_start rng > r_end zp"
    and "r_start z \<noteq> r_end rng + 1" and "r_end zp + 1 = r_start rng"
    and m: "uint_set_merge_adjacent (zp\<lparr>r_end := r_end rng\<rparr> # zs) z = (zs', z')"
  shows "insert_result mem rng (rev (zp # zs) @ z # post) (True, rev zs' @ z' # post)"
proof -
  have "r_start z - 1 \<noteq> r_end rng" using assms(5) by (simp add: u64_pred_eq_iff)
  with m have eq: "zs' = zp\<lparr>r_end := r_end rng\<rparr> # zs" "z' = z"
    by (auto simp: uint_set_merge_adjacent_def)
  have iv: "r_start zp \<le> r_end zp" "uset_inv (rev zs @ z # post)"
    using inv by auto
  have "range_elems (zp\<lparr>r_end := r_end rng\<rparr>) = range_elems zp \<union> range_elems rng"
    using u64_Icc_join [OF iv(1) assms(4,6,2)] by (simp add: range_elems_def)
  moreover have inv': "uset_inv (rev zs @ zp\<lparr>r_end := r_end rng\<rparr> # z # post)"
    using insert_between [OF inv assms(2,3)] assms(2,4) iv by auto
  moreover have "gaps_result rng (rev (zp # zs) @ z # post) (rev zs @ zp\<lparr>r_end := r_end rng\<rparr> # z # post)"
  proof (rule gaps_resultI)
    show "\<not> uint_range_overlaps x rng" if "x \<in> set (rev (zp # zs) @ z # post)" for x
      using no_overlap_between [OF insert_between [OF inv assms(2,3)]] assms(4) that by simp
    assume g: "uset_gaps (rev (zp # zs) @ z # post)"
    have "\<not> borders x (zp\<lparr>r_end := r_end rng\<rparr>)" if "x \<in> set zs" for x
      using g that borders_start [of "zp\<lparr>r_end := r_end rng\<rparr>" zp x] by (auto simp: uset_gaps_def)
    moreover have "\<not> borders (zp\<lparr>r_end := r_end rng\<rparr>) p" if "p \<in> set (z # post)" for p
    proof (rule borders_nearest_after [OF _ _ that])
      show "uset_inv (zp\<lparr>r_end := r_end rng\<rparr> # z # post)" using inv' by simp
      show "\<not> borders (zp\<lparr>r_end := r_end rng\<rparr>) z" using assms(5) by (auto simp: borders_def)
    qed
    moreover have "uset_gaps (rev zs @ z # post)" using g by (auto simp: uset_gaps_def)
    ultimately show "uset_gaps (rev zs @ zp\<lparr>r_end := r_end rng\<rparr> # z # post)"
      using uset_gaps_mid [OF inv'] by simp
  qed
  ultimately show ?thesis using eq by (auto simp: insert_result_def)
qed

lemma insert_new:
  assumes inv: "uset_inv (rev zs @ z # post)"
    and btw: "uset_inv (rev zs @ rng # z # post)"
    and "r_start z \<noteq> r_end rng + 1" and "zs = [] \<or> r_end (hd zs) + 1 \<noteq> r_start rng"
  shows "insert_result mem rng (rev zs @ z # post) (True, rev zs @ rng # z # post)"
proof -
  have "uset_gaps (rev zs @ rng # z # post)" if g: "uset_gaps (rev zs @ z # post)"
  proof -
    have "\<not> borders x rng" if "x \<in> set zs" for x
    proof (cases zs)
      case (Cons y ys)
      then show ?thesis
        using borders_nearest_before [of y ys rng x] btw assms(4) that by (auto simp: borders_def)
    qed (use that in simp)
    moreover have "\<not> borders rng p" if "p \<in> set (z # post)" for p
    proof (rule borders_nearest_after [OF _ _ that])
      show "uset_inv (rng # z # post)" using btw by simp
      show "\<not> borders rng z" using assms(3) by (auto simp: borders_def)
    qed
    ultimately show ?thesis using uset_gaps_mid [OF btw] g by simp
  qed
  with no_overlap_between [OF btw] have "gaps_result rng (rev zs @ z # post) (rev zs @ rng # z # post)"
    by (intro gaps_resultI) auto
  with btw show ?thesis by (auto simp: insert_result_def)
qed

text \<open>A range within a stored one borders no stored range.\<close>

lemma gaps_within:
  assumes inv: "uset_inv s" and z: "z \<in> set s" and rng: "r_start rng \<le> r_end rng"
    and "r_start z \<le> r_start rng" "r_end rng \<le> r_end z"
  shows "gaps_result rng s s"
proof -
  have "\<not> borders x rng \<and> \<not> borders rng x" if g: "uset_gaps s" and x: "x \<in> set s" for x
  proof -
    have wx: "r_start x \<le> r_end x" using inv x by (rule uset_inv_wf)
    have nb: "\<not> borders x z" "\<not> borders z x" using g x z by (auto simp: uset_gaps_def)
    from uset_inv_cases [OF inv x z] consider (eq) "x = z" | (before) "r_end x < r_start z"
      | (after) "r_end z < r_start x" by blast
    then show ?thesis
    proof cases
      case eq
      then show ?thesis using rng assms(4,5) by (auto simp: borders_def)
    next
      case before
      then have "\<not> borders x rng"
        using nb(1) assms(4) less_succ_iff_le [OF before, of "r_start z"] by (auto simp: borders_def)
      moreover have "\<not> borders rng x" using before wx assms(4) rng by (intro not_borders_after) order
      ultimately show ?thesis by simp
    next
      case after
      then have e: "r_end rng < r_start x" using assms(5) by order
      have "\<not> borders rng x"
        using nb(2) after e assms(5) succ_le_iff_less [OF e, of "r_end z"] by (auto simp: borders_def)
      moreover have "\<not> borders x rng" using e wx rng by (intro not_borders_after) order
      ultimately show ?thesis by simp
    qed
  qed
  then show ?thesis by (auto simp: gaps_result_def touches_def)
qed

text \<open>An iteration of the backward walk that leaves the loop.\<close>

lemma insert_walk_stop:
  assumes inv: "uset_inv (rev zs @ z # post)" and rng: "r_start rng \<le> r_end rng"
    and post: "\<forall>p \<in> set post. r_end rng < r_start p"
    and stop: "uint_range_overlaps z rng
      \<or> (r_end rng < r_start z \<and> (zs = [] \<or> r_start rng > r_end (hd zs)))"
  shows "insert_result mem rng (rev zs @ z # post) (insert_walk mem rng (z # zs) post)"
proof -
  consider (dwarf) "r_start z \<le> r_start rng \<and> r_end z \<ge> r_end rng"
    | (overlap) "\<not> (r_start z \<le> r_start rng \<and> r_end z \<ge> r_end rng)" "uint_range_overlaps z rng"
    | (gap) "\<not> (r_start z \<le> r_start rng \<and> r_end z \<ge> r_end rng)" "\<not> uint_range_overlaps z rng"
        "r_end rng < r_start z" "zs = [] \<or> r_start rng > r_end (hd zs)"
    using stop by blast
  then show ?thesis
  proof cases
    case dwarf
    then have "range_elems rng \<subseteq> range_elems z" by (auto simp: range_elems_def)
    moreover have "gaps_result rng (rev zs @ z # post) (rev zs @ z # post)"
      using gaps_within [OF inv, of z rng] rng dwarf by simp
    ultimately show ?thesis using dwarf inv by (auto simp: insert_result_def)
  next
    case overlap
    obtain z' zs' where "earliest_overlap z zs rng = (z', zs')" by fastforce
    with overlap show ?thesis using insert_overlapping [OF inv rng post] by auto
  next
    case gap
    note btw = insert_between [OF inv rng gap(3,4)]
    consider (bwd) "r_start z = r_end rng + 1"
      | (fwd) zp zs0 where "r_start z \<noteq> r_end rng + 1" "zs = zp # zs0" "r_end zp + 1 = r_start rng"
      | (new) "r_start z \<noteq> r_end rng + 1" "\<not> (zs \<noteq> [] \<and> r_end (hd zs) + 1 = r_start rng)"
      by (cases zs) auto
    then show ?thesis
    proof cases
      case bwd
      obtain zs' z' where m: "uint_set_merge_adjacent zs (z\<lparr>r_start := r_start rng\<rparr>) = (zs', z')"
        by fastforce
      have "insert_walk mem rng (z # zs) post = (True, rev zs' @ z' # post)"
        using gap bwd m by (simp only: insert_walk.simps) auto
      then show ?thesis using insert_extend_back [OF inv rng gap(3,4) bwd m] by (simp only:)
    next
      case fwd
      obtain zs' z' where m: "uint_set_merge_adjacent (zp\<lparr>r_end := r_end rng\<rparr> # zs0) z = (zs', z')"
        by fastforce
      have "insert_walk mem rng (z # zs) post = (True, rev zs' @ z' # post)"
        using gap fwd m by auto
      moreover have "insert_result mem rng (rev zs @ z # post) (True, rev zs' @ z' # post)"
        unfolding fwd(2) using inv rng gap fwd m
        by (intro insert_extend_forward) auto
      ultimately show ?thesis by (simp only:)
    next
      case new
      then have "insert_walk mem rng (z # zs) post =
          (if mem then (True, rev zs @ rng # z # post) else (False, rev zs @ z # post))"
        using gap by (auto simp: create_set_item_def)
      moreover have "insert_result mem rng (rev zs @ z # post) (False, rev zs @ z # post)" if "\<not> mem"
        using inv that by (simp add: insert_result_def)
      ultimately show ?thesis using insert_new [OF inv btw new(1)] new(2) by auto
    qed
  qed
qed

text \<open>
  The backward walk started at a node \<open>z\<close> that does not lie entirely before the range, with
  everything behind \<open>z\<close> after the range.
\<close>

lemma insert_walk_spec:
  assumes "uset_inv (rev zs @ z # post)" and "r_start rng \<le> r_end rng"
    and "r_start rng \<le> r_end z" and "\<forall>p \<in> set post. r_end rng < r_start p"
  shows "insert_result mem rng (rev zs @ z # post) (insert_walk mem rng (z # zs) post)"
  using assms
proof (induction zs arbitrary: z post)
  case Nil
  then show ?case by (intro insert_walk_stop) (auto simp: overlaps_iff)
next
  case (Cons zp zs)
  have wf: "r_start z \<le> r_end z" using Cons.prems(1) by auto
  show ?case
  proof (cases "uint_range_overlaps z rng \<or> (r_end rng < r_start z \<and> r_start rng > r_end zp)")
    case True
    with Cons.prems show ?thesis by (intro insert_walk_stop) auto
  next
    case False
    then have "r_end rng < r_start z" "r_start rng \<le> r_end zp"
      using wf Cons.prems by (auto simp: overlaps_iff not_le)
    with Cons.prems have "insert_result mem rng (rev zs @ zp # z # post)
        (insert_walk mem rng (zp # zs) (z # post))"
      by (intro Cons.IH) auto
    moreover have "insert_walk mem rng (z # zp # zs) post = insert_walk mem rng (zp # zs) (z # post)"
      using False \<open>r_end rng < r_start z\<close> Cons.prems(2) by auto
    ultimately show ?thesis by (simp del: insert_walk.simps)
  qed
qed

lemma uset_inv_last_hd:
  assumes "uset_inv s" "s \<noteq> []"
  shows "r \<in> set s \<Longrightarrow> r_start (hd s) \<le> r_start r \<and> r_end r \<le> r_end (last s)"
proof -
  assume r: "r \<in> set s"
  obtain t z where s: "s = t @ [z]" using assms(2) by (metis append_butlast_last_id)
  have "r_end r \<le> r_end z" using r assms(1) s by fastforce
  moreover have "r_start (hd s) \<le> r_start r"
    using r assms by (cases s) fastforce+
  ultimately show ?thesis using s by simp
qed

lemma gaps_single:
  assumes "r_start rng \<le> r_end rng"
    and "\<forall>x \<in> set s. r_start rng \<le> r_start x \<and> r_start x \<le> r_end x \<and> r_end x \<le> r_end rng"
  shows "gaps_result rng s [rng]"
  using assms by (fastforce simp: gaps_result_def touches_def uset_gaps_def borders_def)

text \<open>Appending after the last range.\<close>

lemma insert_after_last:
  assumes inv: "uset_inv (t @ [z])" and rng: "r_start rng \<le> r_end rng"
    and after: "r_end z < r_start rng"
  shows "r_end z + 1 = r_start rng \<Longrightarrow>
      insert_result mem rng (t @ [z]) (True, t @ [z\<lparr>r_end := r_end rng\<rparr>])"
    and "r_end z + 1 \<noteq> r_start rng \<Longrightarrow>
      insert_result mem rng (t @ [z]) (True, t @ [z, rng])"
proof -
  have wz: "r_start z \<le> r_end z" "\<forall>x \<in> set t. r_end x < r_start z" using inv by auto
  have le: "r_start z \<le> r_end rng" using wz after rng by order
  have all: "\<forall>x \<in> set t. r_end x < r_start rng" using wz after by auto
  have no: "\<not> uint_range_overlaps x rng" if "x \<in> set (t @ [z])" for x
    using that all after rng uset_inv_wf [OF inv that] by (auto simp: overlaps_iff)
  { assume b: "r_end z + 1 = r_start rng"
    have inv': "uset_inv (t @ [z\<lparr>r_end := r_end rng\<rparr>])" using inv le by auto
    have "range_elems (z\<lparr>r_end := r_end rng\<rparr>) = range_elems z \<union> range_elems rng"
      using u64_Icc_join [OF wz(1) after b rng] by (simp add: range_elems_def)
    moreover have "uset_gaps (t @ [z\<lparr>r_end := r_end rng\<rparr>])" if "uset_gaps (t @ [z])"
      using that uset_gaps_mid [OF inv'] uset_gaps_mid [OF inv]
        borders_start [of "z\<lparr>r_end := r_end rng\<rparr>" z] by simp
    ultimately show "insert_result mem rng (t @ [z]) (True, t @ [z\<lparr>r_end := r_end rng\<rparr>])"
      using inv' no by (auto simp: insert_result_def intro: gaps_resultI) }
  { assume b: "r_end z + 1 \<noteq> r_start rng"
    have inv': "uset_inv ((t @ [z]) @ rng # [])" using inv all after rng by auto
    have "\<not> borders x rng" if "x \<in> set (t @ [z])" for x
    proof (rule borders_nearest_before [of z "rev t"])
      show "uset_inv (rev (z # rev t) @ [rng])" using inv' by simp
      show "\<not> borders z rng" using b by (simp add: borders_def)
    qed (use that in auto)
    then have "uset_gaps (t @ [z, rng])" if "uset_gaps (t @ [z])"
      using that uset_gaps_mid [OF inv'] by simp
    then show "insert_result mem rng (t @ [z]) (True, t @ [z, rng])"
      using inv' no by (auto simp: insert_result_def intro: gaps_resultI) }
qed

text \<open>The contract of \<open>ossl_uint_set_insert\<close> for a range whose bounds are in order.\<close>

lemma insert_spec:
  assumes inv: "uset_inv s" and rng: "r_start rng \<le> r_end rng"
  shows "insert_result mem rng s (ossl_uint_set_insert mem s rng)"
proof (cases "s = []")
  case True
  with rng show ?thesis
    using gaps_single [of rng "[]"]
    by (auto simp: ossl_uint_set_insert_def insert_result_def create_set_item_def)
next
  case False
  then obtain t z where s: "s = t @ [z]" by (metis append_butlast_last_id)
  obtain f t' where f: "s = f # t'" using False by (cases s) auto
  have lh: "last s = z" "hd s = f" by (simp add: s) (simp add: f)
  have wz: "r_start z \<le> r_end z" using inv s by simp
  consider (after) "r_start rng > r_end z"
    | (dwarf) "r_start rng \<le> r_end z" "r_start rng \<le> r_start f" "r_end rng \<ge> r_end z"
    | (before) "r_start rng \<le> r_end z" "\<not> (r_start rng \<le> r_start f \<and> r_end rng \<ge> r_end z)"
        "r_end rng < r_start f"
    | (walk) "r_start rng \<le> r_end z" "\<not> (r_start rng \<le> r_start f \<and> r_end rng \<ge> r_end z)"
        "\<not> r_end rng < r_start f"
    by force
  then show ?thesis
  proof cases
    case after
    then have "ossl_uint_set_insert mem s rng =
        (if r_end z + 1 = r_start rng then (True, t @ [z\<lparr>r_end := r_end rng\<rparr>])
         else if mem then (True, t @ [z, rng]) else (False, s))"
      using rng s by (auto simp: ossl_uint_set_insert_def create_set_item_def)
    moreover have "insert_result mem rng s (False, s)" if "\<not> mem"
      using inv that by (simp add: insert_result_def)
    ultimately show ?thesis
      using insert_after_last [OF inv [unfolded s] rng after] s by auto
  next
    case dwarf
    have "range_elems r \<subseteq> range_elems rng" if "r \<in> set s" for r
      using uset_inv_last_hd [OF inv False that] dwarf lh by (auto simp: range_elems_def)
    then have "uset_elems s \<union> range_elems rng = range_elems rng" by (auto simp: uset_elems_def)
    moreover have "ossl_uint_set_insert mem s rng = (True, [rng])"
      using dwarf lh False rng by (auto simp: ossl_uint_set_insert_def Let_def)
    moreover have "gaps_result rng s [rng]"
      using uset_inv_last_hd [OF inv False] dwarf lh uset_inv_wf [OF inv] rng
      by (intro gaps_single) fastforce+
    ultimately show ?thesis using rng by (simp add: insert_result_def)
  next
    case before
    then have "insert_result mem rng s (insert_walk mem rng [f] t')"
      using insert_walk_spec [of "[]" f t' rng mem] inv f rng by fastforce
    moreover have "ossl_uint_set_insert mem s rng = insert_walk mem rng [f] t'"
      using before lh False f rng
      by (auto simp: ossl_uint_set_insert_def Let_def simp del: insert_walk.simps)
    ultimately show ?thesis by (simp only:)
  next
    case walk
    then have "insert_result mem rng s (insert_walk mem rng (rev s) [])"
      using insert_walk_spec [of "rev t" z "[]" rng mem] inv s rng by simp
    moreover have "ossl_uint_set_insert mem s rng = insert_walk mem rng (rev s) []"
      using walk lh False rng
      by (auto simp: ossl_uint_set_insert_def Let_def simp del: insert_walk.simps)
    ultimately show ?thesis by (simp only:)
  qed
qed


section \<open>Removal and query\<close>

text \<open>What a removal must deliver: the difference, and no new neighbours.\<close>


definition remove_result :: "uint_range \<Rightarrow> uint_set \<Rightarrow> uint_set \<Rightarrow> bool" where
  "remove_result rng s s' \<longleftrightarrow>
     uset_inv s' \<and> uset_elems s' = uset_elems s - range_elems rng \<and> (uset_gaps s \<longrightarrow> uset_gaps s')"

text \<open>Cutting the range out of one stored range.\<close>

lemma range_elems_cut_front:
  assumes "r_start rng \<le> r_start z" "r_start z \<le> r_end rng" "r_end rng < r_end z"
  shows "range_elems (z\<lparr>r_start := r_end rng + 1\<rparr>) = range_elems z - range_elems rng"
  using assms(1,2)
  by (auto simp: range_elems_def succ_le_iff_less [OF assms(3)])

lemma range_elems_cut_back:
  assumes "r_start z < r_start rng" "r_start rng \<le> r_end z" "r_end z \<le> r_end rng"
  shows "range_elems (z\<lparr>r_end := r_start rng - 1\<rparr>) = range_elems z - range_elems rng"
  using assms(2,3) by (auto simp: range_elems_def le_pred_iff_less [OF assms(1)])

lemma range_elems_cut_middle:
  assumes "r_start z < r_start rng" "r_start rng \<le> r_end rng" "r_end rng < r_end z"
  shows "range_elems (z\<lparr>r_end := r_start rng - 1\<rparr>)
      \<union> range_elems \<lparr>r_start = r_end rng + 1, r_end = r_end z\<rparr> = range_elems z - range_elems rng"
  using assms
  by (auto simp: range_elems_def le_pred_iff_less [OF assms(1)] succ_le_iff_less [OF assms(3)])

lemma before_range_disjoint:
  assumes "uset_inv (rev zs @ [z])" "r_end z < r_start rng"
  shows "(uset_elems zs \<union> range_elems z) \<inter> range_elems rng = {}"
proof -
  have "r_end x < r_start rng" if "x \<in> insert z (set zs)" for x
    using assms that by auto
  then show ?thesis by (fastforce simp: range_elems_def uset_elems_def)
qed

lemma remove_front:
  assumes inv: "uset_inv (rev zs @ z # post)"
    and rng: "r_start rng \<le> r_start z" "r_start z \<le> r_end rng" "r_end rng < r_end z"
  shows "uset_inv (rev zs @ z\<lparr>r_start := r_end rng + 1\<rparr> # post)"
    and "uset_gaps (rev zs @ z # post) \<Longrightarrow> uset_gaps (rev zs @ z\<lparr>r_start := r_end rng + 1\<rparr> # post)"
proof -
  let ?z = "z\<lparr>r_start := r_end rng + 1\<rparr>"
  have lt: "r_end rng < r_end rng + 1" using less_succ_iff_le [OF rng(3)] by simp
  have before: "r_end x < r_end rng" if "x \<in> set zs" for x using inv that rng by auto
  have "r_end x < r_end rng + 1" if "x \<in> set zs" for x using before [OF that] lt by order
  then show inv': "uset_inv (rev zs @ ?z # post)"
    using inv succ_le_iff_less [OF rng(3), of "r_end z"] rng(3) by auto
  assume g: "uset_gaps (rev zs @ z # post)"
  have "\<not> borders x ?z" if "x \<in> set zs" for x using before [OF that] by (auto simp: borders_def)
  moreover have "\<not> borders ?z p" if "p \<in> set post" for p
    using g that borders_end [of ?z z p] by (auto simp: uset_gaps_def)
  ultimately show "uset_gaps (rev zs @ ?z # post)"
    using g uset_gaps_mid [OF inv] uset_gaps_mid [OF inv'] by auto
qed

lemma remove_tail:
  assumes inv: "uset_inv (rev zs @ z # post)"
    and rng: "r_start z < r_start rng" "r_start rng \<le> r_end z"
  shows "uset_inv (rev zs @ z\<lparr>r_end := r_start rng - 1\<rparr> # post)"
    and "uset_gaps (rev zs @ z # post) \<Longrightarrow> uset_gaps (rev zs @ z\<lparr>r_end := r_start rng - 1\<rparr> # post)"
    and "\<forall>p \<in> set post. \<not> borders (z\<lparr>r_end := r_start rng - 1\<rparr>) p"
proof -
  let ?z = "z\<lparr>r_end := r_start rng - 1\<rparr>"
  have lt: "r_start z \<le> r_start rng - 1" "r_start rng - 1 < r_start rng"
    using le_pred_iff_less [OF rng(1), of "r_start z"] le_pred_iff_less [OF rng(1), of "r_start rng - 1"]
      rng(1) by auto
  have "r_start rng < r_start p" if "p \<in> set post" for p using inv that rng(2) by auto
  note after = this
  have "r_start rng - 1 < r_start p" if "p \<in> set post" for p using after [OF that] lt(2) by order
  then show inv': "uset_inv (rev zs @ ?z # post)" using inv lt(1) by auto
  show nb: "\<forall>p \<in> set post. \<not> borders ?z p" using after by (fastforce simp: borders_def)
  assume g: "uset_gaps (rev zs @ z # post)"
  have "\<not> borders x ?z" if "x \<in> set zs" for x
    using g that borders_start [of ?z z x] by (auto simp: uset_gaps_def)
  with nb show "uset_gaps (rev zs @ ?z # post)"
    using g uset_gaps_mid [OF inv] uset_gaps_mid [OF inv'] by auto
qed

lemma remove_mid:
  fixes z post
  defines "z1 \<equiv> \<lambda>rng. z\<lparr>r_end := r_start rng - 1\<rparr>"
    and "y \<equiv> \<lambda>rng. \<lparr>r_start = r_end rng + 1, r_end = r_end z\<rparr>"
  assumes inv: "uset_inv (rev zs @ z # post)"
    and rng: "r_start z < r_start rng" "r_start rng \<le> r_end rng" "r_end rng < r_end z"
  shows "uset_inv (rev zs @ z1 rng # y rng # post)"
    and "uset_gaps (rev zs @ z # post) \<Longrightarrow> uset_gaps (rev zs @ z1 rng # y rng # post)"
proof -
  have le: "r_start rng \<le> r_end z" using rng by order
  have lt: "r_end rng < r_end rng + 1" "r_end rng + 1 \<le> r_end z"
    using less_succ_iff_le [OF rng(3)] succ_le_iff_less [OF rng(3), of "r_end z"] rng(3) by auto
  note t = remove_tail [OF inv rng(1) le, folded z1_def]
  have p: "r_start rng - 1 < r_start rng" using le_pred_iff_less [OF rng(1), of "r_start rng - 1"] by auto
  have y: "r_end (z1 rng) < r_start (y rng)"
    using p rng(2) lt(1) unfolding z1_def y_def by simp
  have xs: "r_end x < r_end rng + 1" "r_end x \<noteq> r_end rng" if "x \<in> set zs" for x
  proof -
    have "r_end x < r_start z" using inv that by auto
    then show "r_end x < r_end rng + 1" "r_end x \<noteq> r_end rng" using rng lt(1) by auto
  qed
  show inv': "uset_inv (rev zs @ z1 rng # y rng # post)"
    using t(1) y inv lt(2) xs(1) by (auto simp: y_def z1_def)
  assume g: "uset_gaps (rev zs @ z # post)"
  have "\<not> borders (z1 rng) (y rng)" using rng(2) lt(1) by (auto simp: borders_def z1_def y_def)
  moreover have "\<not> borders x (y rng)" if "x \<in> set zs" for x
    using xs(2) [OF that] by (auto simp: borders_def y_def)
  moreover have "\<not> borders (y rng) q" if "q \<in> set post" for q
    using g that borders_end [of "y rng" z q] by (auto simp: uset_gaps_def y_def)
  moreover have "uset_gaps ((rev zs @ [z1 rng]) @ post)" using t(2) [OF g] by (simp add: z1_def)
  ultimately show "uset_gaps (rev zs @ z1 rng # y rng # post)"
    using uset_gaps_mid [of "rev zs @ [z1 rng]" "y rng" post] inv' by auto
qed

lemma remove_walk_spec:
  assumes "uset_inv (rev zs @ post)" and "r_start rng \<le> r_end rng"
    and "\<forall>p \<in> set post. r_end rng < r_start p" and "mem"
  shows "\<exists>s'. remove_walk mem rng zs post = Some s'
    \<and> remove_result rng (rev zs @ post) s'"
  using assms
proof (induction zs arbitrary: post)
  case Nil
  then have "uset_elems post \<inter> range_elems rng = {}" by (fastforce simp: range_elems_def uset_elems_def)
  with Nil show ?case by (auto simp: remove_result_def)
next
  case (Cons z zs)
  have full: "uset_inv (rev zs @ z # post)" using Cons.prems(1) by simp
  have inv: "uset_inv (rev zs @ [z])" "uset_inv (rev zs @ post)" "r_start z \<le> r_end z"
    "\<forall>x \<in> set zs. r_end x < r_start z" "\<forall>p \<in> set post. r_end z < r_start p"
    using Cons.prems(1) by auto
  have post: "uset_elems post \<inter> range_elems rng = {}"
    using Cons.prems(3) by (fastforce simp: range_elems_def uset_elems_def)
  have zs: "uset_elems zs \<inter> range_elems rng = {}" if "r_start z < r_start rng"
    using that inv(4) by (fastforce simp: range_elems_def uset_elems_def)
  consider (stop) "r_start rng > r_end z"
    | (all) "\<not> r_start rng > r_end z" "r_start rng \<le> r_start z" "r_end rng \<ge> r_end z"
    | (front) "r_start rng \<le> r_end z" "r_start rng \<le> r_start z" "r_end rng < r_end z" "r_end rng \<ge> r_start z"
    | (tail) "r_start rng \<le> r_end z" "r_start z < r_start rng" "r_end rng \<ge> r_end z"
    | (mid) "r_start rng \<le> r_end z" "r_start z < r_start rng" "r_end rng < r_end z"
    | (skip) "r_start rng \<le> r_end z" "r_end rng < r_start z"
    using inv(3) Cons.prems(2) by force
  then show ?case
  proof cases
    case stop
    then have "remove_walk mem rng (z # zs) post = Some (rev (z # zs) @ post)" by simp
    moreover have "uset_elems (rev (z # zs) @ post) \<inter> range_elems rng = {}"
      using before_range_disjoint [OF inv(1) stop] post by auto
    ultimately show ?thesis using Cons.prems(1) by (auto simp: remove_result_def)
  next
    case all
    have "range_elems z \<subseteq> range_elems rng" using all by (auto simp: range_elems_def)
    moreover obtain s' where "remove_walk mem rng zs post = Some s'"
      "remove_result rng (rev zs @ post) s'"
      using Cons.IH [OF inv(2) Cons.prems(2-4)] by blast
    moreover have "uset_gaps (rev zs @ post)" if "uset_gaps (rev (z # zs) @ post)"
      by (rule uset_gaps_subset [OF that]) auto
    ultimately show ?thesis using all by (auto simp: remove_result_def)
  next
    case front
    note f = remove_front [OF full front(2,4,3)]
    have "\<forall>p \<in> set (z\<lparr>r_start := r_end rng + 1\<rparr> # post). r_end rng < r_start p"
      using Cons.prems(3) less_succ_iff_le [OF front(3)] by simp
    from Cons.IH [OF f(1) Cons.prems(2) this Cons.prems(4)] obtain s' where
      "remove_walk mem rng zs (z\<lparr>r_start := r_end rng + 1\<rparr> # post) = Some s'"
      "remove_result rng (rev zs @ z\<lparr>r_start := r_end rng + 1\<rparr> # post) s'"
      by blast
    moreover have "remove_walk mem rng (z # zs) post =
        remove_walk mem rng zs (z\<lparr>r_start := r_end rng + 1\<rparr> # post)"
      using front by (auto simp del: remove_walk.simps(1))
    moreover have "uset_elems (rev zs @ z\<lparr>r_start := r_end rng + 1\<rparr> # post) - range_elems rng
        = uset_elems (rev (z # zs) @ post) - range_elems rng"
      unfolding uset_elems_simps range_elems_cut_front [OF front(2,4,3)] by auto
    ultimately show ?thesis using f(2) by (simp add: remove_result_def)
  next
    case tail
    note t = remove_tail [OF full tail(2,1)]
    from tail t zs post show ?thesis
      using range_elems_cut_back [OF tail(2,1,3)] by (auto simp: remove_result_def)
  next
    case mid
    note m = remove_mid [OF full mid(2) Cons.prems(2) mid(3)]
    have "uset_elems (rev zs @ z\<lparr>r_end := r_start rng - 1\<rparr> # \<lparr>r_start = r_end rng + 1, r_end = r_end z\<rparr> # post)
        = uset_elems (rev (z # zs) @ post) - range_elems rng"
      using range_elems_cut_middle [OF mid(2) Cons.prems(2) mid(3)] zs [OF mid(2)] post by auto
    with mid m Cons.prems(4) show ?thesis by (auto simp: remove_result_def create_set_item_def)
  next
    case skip
    then have "\<forall>p \<in> set (z # post). r_end rng < r_start p" using Cons.prems(3) by simp
    note ih = Cons.IH [OF full Cons.prems(2) this Cons.prems(4)]
    have "\<not> r_start z < r_start rng" "\<not> r_end z \<le> r_end rng" "\<not> r_start z \<le> r_end rng"
      using skip inv(3) Cons.prems(2) by auto
    then have "remove_walk mem rng (z # zs) post = remove_walk mem rng zs (z # post)"
      using skip by auto
    with ih show ?thesis by simp
  qed
qed

lemma query_walk_spec:
  "uset_inv (rev xs) \<Longrightarrow> query_walk v xs \<longleftrightarrow> v \<in> uset_elems xs"
proof (induction xs)
  case (Cons x xs)
  have "v \<notin> uset_elems xs" if "r_end x < v \<or> r_start x \<le> v"
    using that Cons.prems by (fastforce simp: uset_elems_def range_elems_def)
  with Cons show ?case by (auto simp: range_elems_def)
qed simp


text \<open>
  Without memory, the walk comes to the same list unless it has to split a stored range in two, when
  it dereferences the missing item.
\<close>

definition splits :: "uint_range \<Rightarrow> uint_range \<Rightarrow> bool" where
  "splits rng z \<longleftrightarrow> r_start z < r_start rng \<and> r_end rng < r_end z"

lemma remove_walk_no_memory:
  assumes "uset_inv (rev zs @ post)" and "r_start rng \<le> r_end rng"
  shows "remove_walk False rng zs post =
    (if \<exists>z \<in> set zs. splits rng z then None else remove_walk True rng zs post)"
  using assms
proof (induction zs arbitrary: post)
  case (Cons z zs)
  have inv: "uset_inv (rev zs @ post)" "\<forall>x \<in> set zs. r_end x < r_start z" "r_start z \<le> r_end z"
    using Cons.prems(1) by auto
  have no: "\<not> splits rng x" if "x \<in> set zs" "r_start z \<le> r_end rng" for x
    using that inv(2) by (fastforce simp: splits_def)
  have full: "uset_inv (rev zs @ z # post)" using Cons.prems(1) by simp
  show ?case
  proof (cases "r_start rng \<le> r_start z \<and> r_start z \<le> r_end rng \<and> r_end rng < r_end z")
    case True
    then have "uset_inv (rev zs @ z\<lparr>r_start := r_end rng + 1\<rparr> # post)"
      using remove_front [OF full] by blast
    from Cons.IH [OF this Cons.prems(2)] True no show ?thesis by (auto simp: splits_def)
  next
    case False
    then show ?thesis
      using no inv Cons.prems(2) Cons.IH [OF inv(1) Cons.prems(2)] Cons.IH [OF full Cons.prems(2)]
      by (auto simp: splits_def create_set_item_def)
  qed
qed simp

lemma remove_spec:
  assumes "uset_inv s" and "r_start rng \<le> r_end rng"
  obtains s' where "ossl_uint_set_remove True s rng = Some (True, s')" "remove_result rng s s'"
  using remove_walk_spec [of "rev s" "[]" rng True] assms
  by (auto simp: ossl_uint_set_remove_def)

lemma query_spec: "uset_inv s \<Longrightarrow> ossl_uint_set_query s v \<longleftrightarrow> v \<in> uset_elems s"
  using query_walk_spec [of "rev s" v] by (auto simp: ossl_uint_set_query_def)


section \<open>The interface the clients rely on\<close>

text \<open>
  A client of an integer set sees a set of integers: what the operations do to that set and when an
  insertion can fail. \<open>run_ops\<close> is a client that performs a list of operations with memory
  available, \<open>spec_ops\<close> the same on mathematical sets.
\<close>

datatype set_op = Ins uint_range | Rem uint_range

definition op_range :: "set_op \<Rightarrow> uint_range" where
  "op_range x = (case x of Ins r \<Rightarrow> r | Rem r \<Rightarrow> r)"

fun spec_ops :: "set_op list \<Rightarrow> u64 set \<Rightarrow> u64 set" where
  "spec_ops [] A = A"
| "spec_ops (Ins r # xs) A = spec_ops xs (A \<union> range_elems r)"
| "spec_ops (Rem r # xs) A = spec_ops xs (A - range_elems r)"

fun run_ops :: "(mem_ok \<Rightarrow> 's \<Rightarrow> uint_range \<Rightarrow> bool \<times> 's) \<Rightarrow>
    (mem_ok \<Rightarrow> 's \<Rightarrow> uint_range \<Rightarrow> (bool \<times> 's) option) \<Rightarrow> set_op list \<Rightarrow> 's \<Rightarrow> 's option" where
  "run_ops ins rem [] s = Some s"
| "run_ops ins rem (Ins r # xs) s = run_ops ins rem xs (snd (ins True s r))"
| "run_ops ins rem (Rem r # xs) s =
     (case rem True s r of None \<Rightarrow> None | Some (ok, s') \<Rightarrow> run_ops ins rem xs s')"

locale int_set =
  fixes inv :: "'s \<Rightarrow> bool" and elems :: "'s \<Rightarrow> u64 set" and empty :: 's
    and ins :: "mem_ok \<Rightarrow> 's \<Rightarrow> uint_range \<Rightarrow> bool \<times> 's"
    and rem :: "mem_ok \<Rightarrow> 's \<Rightarrow> uint_range \<Rightarrow> (bool \<times> 's) option"
    and qry :: "'s \<Rightarrow> u64 \<Rightarrow> bool"
  assumes inv_empty: "inv empty" and elems_empty: "elems empty = {}"
    and inv_ins: "inv s \<Longrightarrow> r_start r \<le> r_end r \<Longrightarrow> inv (snd (ins mem s r))"
    and elems_ins: "inv s \<Longrightarrow> r_start r \<le> r_end r \<Longrightarrow>
      elems (snd (ins mem s r)) = (if fst (ins mem s r) then elems s \<union> range_elems r else elems s)"
    and ins_mem: "inv s \<Longrightarrow> r_start r \<le> r_end r \<Longrightarrow> fst (ins True s r)"
    and ins_reject: "\<not> r_start r \<le> r_end r \<Longrightarrow> ins mem s r = (False, s)"
    and rem_mem: "inv s \<Longrightarrow> r_start r \<le> r_end r \<Longrightarrow>
      \<exists>s'. rem True s r = Some (True, s') \<and> inv s' \<and> elems s' = elems s - range_elems r"
    and rem_reject: "\<not> r_start r \<le> r_end r \<Longrightarrow> rem mem s r = Some (False, s)"
    and qry_iff: "inv s \<Longrightarrow> qry s v \<longleftrightarrow> v \<in> elems s"
begin

lemma ins_inv: "inv s \<Longrightarrow> inv (snd (ins mem s r))"
  using inv_ins ins_reject by (cases "r_start r \<le> r_end r") auto

lemma elems_ins_mono: "inv s \<Longrightarrow> elems s \<subseteq> elems (snd (ins mem s r))"
  using elems_ins ins_reject by (cases "r_start r \<le> r_end r") auto

lemma elems_ins_upper: "inv s \<Longrightarrow> elems (snd (ins mem s r)) \<subseteq> elems s \<union> range_elems r"
  using elems_ins ins_reject by (cases "r_start r \<le> r_end r") auto

lemma qry_after_ins:
  "inv s \<Longrightarrow> r_start r \<le> r_end r \<Longrightarrow> qry (snd (ins True s r)) v \<longleftrightarrow> qry s v \<or> v \<in> range_elems r"
  using qry_iff inv_ins elems_ins ins_mem by auto

lemma run_ops_spec:
  assumes "inv s" and "\<forall>x \<in> set xs. r_start (op_range x) \<le> r_end (op_range x)"
  shows "\<exists>s'. run_ops ins rem xs s = Some s' \<and> inv s' \<and> elems s' = spec_ops xs (elems s)"
  using assms
proof (induction xs arbitrary: s)
  case (Cons x xs)
  show ?case
  proof (cases x)
    case (Ins r)
    then show ?thesis
      using Cons.prems Cons.IH [of "snd (ins True s r)"] inv_ins elems_ins ins_mem
      by (auto simp: op_range_def)
  next
    case (Rem r)
    then obtain s' where "rem True s r = Some (True, s')" "inv s'" "elems s' = elems s - range_elems r"
      using Cons.prems rem_mem [of s r] by (auto simp: op_range_def)
    with Rem Cons.prems Cons.IH [of s'] show ?thesis by auto
  qed
qed simp

end

interpretation us: int_set uset_inv uset_elems ossl_uint_set_init ossl_uint_set_insert
  ossl_uint_set_remove ossl_uint_set_query
proof
  show "uset_inv ossl_uint_set_init" "uset_elems ossl_uint_set_init = {}"
    by (simp_all add: ossl_uint_set_init_def)
next
  fix s :: uint_set and r :: uint_range and mem :: mem_ok assume "uset_inv s" "r_start r \<le> r_end r"
  from insert_spec [OF this, of mem] show "uset_inv (snd (ossl_uint_set_insert mem s r))"
    "uset_elems (snd (ossl_uint_set_insert mem s r)) =
      (if fst (ossl_uint_set_insert mem s r) then uset_elems s \<union> range_elems r else uset_elems s)"
    by (auto simp: insert_result_def)
next
  fix s :: uint_set and r :: uint_range assume "uset_inv s" "r_start r \<le> r_end r"
  from insert_spec [OF this, of True] show "fst (ossl_uint_set_insert True s r)"
    by (simp add: insert_result_def)
  from remove_spec [OF \<open>uset_inv s\<close> \<open>r_start r \<le> r_end r\<close>] show
    "\<exists>s'. ossl_uint_set_remove True s r = Some (True, s') \<and> uset_inv s'
       \<and> uset_elems s' = uset_elems s - range_elems r"
    by (metis remove_result_def)
next
  fix r :: uint_range and s :: uint_set and mem :: mem_ok assume "\<not> r_start r \<le> r_end r"
  then show "ossl_uint_set_insert mem s r = (False, s)" "ossl_uint_set_remove mem s r = Some (False, s)"
    by (simp_all add: ossl_uint_set_insert_def ossl_uint_set_remove_def)
next
  fix s v assume "uset_inv s"
  then show "ossl_uint_set_query s v \<longleftrightarrow> v \<in> uset_elems s" by (rule query_spec)
qed


section \<open>Properties\<close>

text \<open>C7. As long as memory is available, a client that starts from the empty set and performs any sequence
  of insertions and removals of ranges whose bounds are in order never runs into the NULL
  dereference, and afterwards a query
  answers exactly whether the integer is in the mathematical set the sequence denotes.\<close>

theorem uint_set_refines_set:
  assumes "\<forall>x \<in> set xs. r_start (op_range x) \<le> r_end (op_range x)"
  shows "\<exists>s. run_ops ossl_uint_set_insert ossl_uint_set_remove xs ossl_uint_set_init = Some s
    \<and> (\<forall>v. ossl_uint_set_query s v \<longleftrightarrow> v \<in> spec_ops xs {})"
  using us.run_ops_spec [OF us.inv_empty assms] us.qry_iff us.elems_empty by auto

theorem uint_set_refines_set_witness:
  "\<exists>s. run_ops ossl_uint_set_insert ossl_uint_set_remove
      [Ins \<lparr>r_start = 1, r_end = 6\<rparr>, Rem \<lparr>r_start = 3, r_end = 4\<rparr>] ossl_uint_set_init = Some s
    \<and> ossl_uint_set_query s 5 \<and> \<not> ossl_uint_set_query s 4"
  using uint_set_refines_set [of "[Ins \<lparr>r_start = 1, r_end = 6\<rparr>, Rem \<lparr>r_start = 3, r_end = 4\<rparr>]"]
  by (auto simp: op_range_def range_elems_def)

text \<open>C16. Inserting a range whose bounds are in order keeps the list sorted and disjoint and stores the union;
  it fails only when memory is short, and then leaves the set as it was.\<close>

theorem uint_set_insert_union:
  assumes "uset_inv s" and "r_start rng \<le> r_end rng"
  shows "case ossl_uint_set_insert mem s rng of (ok, s') \<Rightarrow>
    uset_inv s' \<and> (mem \<longrightarrow> ok) \<and> (ok \<longrightarrow> uset_elems s' = uset_elems s \<union> {r_start rng..r_end rng})
    \<and> (\<not> ok \<longrightarrow> s' = s)"
  using insert_spec [OF assms, of mem]
  by (cases "ossl_uint_set_insert mem s rng") (simp add: insert_result_def range_elems_def)

theorem uint_set_insert_union_witness:
  "uset_inv [\<lparr>r_start = 1, r_end = 6\<rparr>] \<and>
   (case ossl_uint_set_insert True [\<lparr>r_start = 1, r_end = 6\<rparr>] \<lparr>r_start = 9, r_end = 10\<rparr> of (ok, s') \<Rightarrow>
      ok \<and> uset_elems s' = uset_elems [\<lparr>r_start = 1, r_end = 6\<rparr>] \<union> {9..10})"
  using uint_set_insert_union [of "[\<lparr>r_start = 1, r_end = 6\<rparr>]" "\<lparr>r_start = 9, r_end = 10\<rparr>" True]
  by (cases "ossl_uint_set_insert True [\<lparr>r_start = 1, r_end = 6\<rparr>] \<lparr>r_start = 9, r_end = 10\<rparr>") simp

text \<open>C17. The comment in \<open>uint_set.c\<close> promises that bordering ranges are always merged. A successful
  insertion keeps that promise exactly when the new range does not both overlap one stored range
  and border another: in that case the bordering range is left unmerged.\<close>

theorem uint_set_insert_gaps:
  assumes "uset_inv s" and "uset_gaps s" and "r_start rng \<le> r_end rng"
    and "ossl_uint_set_insert mem s rng = (True, s')"
  shows "uset_gaps s' \<longleftrightarrow>
    \<not> ((\<exists>z \<in> set s. uint_range_overlaps z rng) \<and> (\<exists>x \<in> set s. borders x rng \<or> borders rng x))"
  using insert_spec [OF assms(1,3), of mem] assms(2,4)
  by (simp add: insert_result_def gaps_result_def touches_def)

theorem uint_set_insert_gaps_witness:
  "uset_gaps [\<lparr>r_start = 1, r_end = 6\<rparr>, \<lparr>r_start = 11, r_end = 20\<rparr>]
   \<and> ossl_uint_set_insert True [\<lparr>r_start = 1, r_end = 6\<rparr>, \<lparr>r_start = 11, r_end = 20\<rparr>]
        \<lparr>r_start = 5, r_end = 10\<rparr>
      = (True, [\<lparr>r_start = 1, r_end = 10\<rparr>, \<lparr>r_start = 11, r_end = 20\<rparr>])
   \<and> \<not> uset_gaps [\<lparr>r_start = 1, r_end = 10\<rparr>, \<lparr>r_start = 11, r_end = 20\<rparr>]"
proof -
  let ?s = "[\<lparr>r_start = 1, r_end = 6\<rparr>, \<lparr>r_start = 11, r_end = 20\<rparr>]"
  let ?s' = "[\<lparr>r_start = 1, r_end = 10\<rparr>, \<lparr>r_start = 11, r_end = 20\<rparr>]"
  have g: "uset_inv ?s" "uset_gaps ?s" by (simp_all add: uset_gaps_def borders_def)
  have i: "ossl_uint_set_insert True ?s \<lparr>r_start = 5, r_end = 10\<rparr> = (True, ?s')"
    by (simp add: ossl_uint_set_insert_def uint_range_overlaps_def)
  have "\<not> uset_gaps ?s'"
    using uint_set_insert_gaps [OF g _ i] by (simp add: uint_range_overlaps_def borders_def)
  with g i show ?thesis by blast
qed

text \<open>C18. Removing a range whose bounds are in order, with memory available, keeps the list sorted and
  disjoint, stores the difference and creates no bordering ranges.\<close>

theorem uint_set_remove_diff:
  assumes "uset_inv s" and "r_start rng \<le> r_end rng"
  shows "\<exists>s'. ossl_uint_set_remove True s rng = Some (True, s') \<and> uset_inv s'
    \<and> uset_elems s' = uset_elems s - {r_start rng..r_end rng} \<and> (uset_gaps s \<longrightarrow> uset_gaps s')"
  using remove_spec [OF assms] by (metis remove_result_def range_elems_def)

theorem uint_set_remove_diff_witness:
  "uset_inv [\<lparr>r_start = 1, r_end = 9\<rparr>]
   \<and> (\<exists>s'. ossl_uint_set_remove True [\<lparr>r_start = 1, r_end = 9\<rparr>] \<lparr>r_start = 4, r_end = 5\<rparr> = Some (True, s')
      \<and> uset_elems s' = uset_elems [\<lparr>r_start = 1, r_end = 9\<rparr>] - {4..5})"
  using uint_set_remove_diff [of "[\<lparr>r_start = 1, r_end = 9\<rparr>]" "\<lparr>r_start = 4, r_end = 5\<rparr>"] by auto

text \<open>C19. When memory is short, a removal dereferences NULL exactly when the range lies strictly inside a
  stored one, so that it would have to be split; the documented behaviour (the call returns 0 and
  the set is unchanged) never happens.\<close>

theorem uint_set_remove_no_memory:
  assumes "uset_inv s" and "r_start rng \<le> r_end rng"
  shows "ossl_uint_set_remove False s rng =
    (if \<exists>z \<in> set s. r_start z < r_start rng \<and> r_end rng < r_end z then None
     else ossl_uint_set_remove True s rng)"
  using remove_walk_no_memory [of "rev s" "[]" rng] assms
  by (auto simp: ossl_uint_set_remove_def splits_def)

theorem uint_set_remove_no_memory_witness:
  "uset_inv [\<lparr>r_start = 1, r_end = 9\<rparr>]
   \<and> ossl_uint_set_remove False [\<lparr>r_start = 1, r_end = 9\<rparr>] \<lparr>r_start = 4, r_end = 5\<rparr> = None"
  using uint_set_remove_no_memory [of "[\<lparr>r_start = 1, r_end = 9\<rparr>]" "\<lparr>r_start = 4, r_end = 5\<rparr>"] by simp

end
