(* ===== verification/RingBuf.thy ===== *)
theory RingBuf
  imports OsslTime
begin

unbundle bit_operations_syntax

text \<open>
  Model of \<open>include/internal/ring_buf.h\<close>, the ring buffer behind QUIC streams. The state holds the
  memory block as a list (its length is \<open>alloc\<close>, and it is empty when \<open>start\<close> is NULL) and the two
  logical offsets. An outcome \<open>None\<close> stands for undefined behaviour (an access outside the block, a
  division by zero) or a failed assertion. The block that \<open>OPENSSL_malloc\<close> returns is a parameter.

  The theory shows that none of this happens in a well-formed ring buffer, and that the ring buffer
  implements a window of a byte stream: a list of bytes that is extended at the end, cut at the
  front and read in between.
\<close>

section \<open>Definitions\<close>

record ring_buf =
  rb_data :: bytes
  head_offset :: u64
  ctail_offset :: u64

definition rb_alloc :: "ring_buf \<Rightarrow> size_t" where
  "rb_alloc r = of_nat (length (rb_data r))"

definition MAX_OFFSET :: u64 where "MAX_OFFSET = push_bit 62 1"

definition ring_buf_init :: ring_buf where
  "ring_buf_init = \<lparr>rb_data = [], head_offset = 0, ctail_offset = 0\<rparr>"

definition ring_buf_destroy :: "ring_buf \<Rightarrow> ring_buf" where
  "ring_buf_destroy r = r\<lparr>rb_data := []\<rparr>"

definition ring_buf_used :: "ring_buf \<Rightarrow> size_t" where
  "ring_buf_used r = head_offset r - ctail_offset r"

definition ring_buf_avail :: "ring_buf \<Rightarrow> size_t" where
  "ring_buf_avail r = rb_alloc r - ring_buf_used r"

definition rb_idx :: "ring_buf \<Rightarrow> u64 \<Rightarrow> nat" where
  "rb_idx r logical_offset = unat (logical_offset mod rb_alloc r)"

text \<open>\<open>memcpy(start + idx, bs, l)\<close>.\<close>

definition rb_store :: "nat \<Rightarrow> bytes \<Rightarrow> ring_buf \<Rightarrow> ring_buf option" where
  "rb_store idx bs r =
     (if idx + length bs \<le> length (rb_data r)
      then Some (r\<lparr>rb_data := take idx (rb_data r) @ bs @ drop (idx + length bs) (rb_data r)\<rparr>) else None)"

text \<open>The loop of \<open>ring_buf_write_at\<close>, which makes at most \<open>n\<close> turns; the assertion after it says that
  everything was written.\<close>

primrec write_at_loop :: "nat \<Rightarrow> ring_buf \<Rightarrow> u64 \<Rightarrow> bytes \<Rightarrow> ring_buf option" where
  "write_at_loop 0 r logical_offset buf = (if buf = [] then Some r else None)"
| "write_at_loop (Suc n) r logical_offset buf =
     (if buf = [] then Some r
      else if rb_alloc r = 0 then None
      else
        (let idx = rb_idx r logical_offset;
             l = min (length buf) (unat (rb_alloc r) - idx)
         in case rb_store idx (take l buf) r of
              None \<Rightarrow> None
            | Some r \<Rightarrow>
              (let offset = logical_offset + of_nat l;
                   r = (if head_offset r < offset then r\<lparr>head_offset := offset\<rparr> else r)
               in write_at_loop n r offset (drop l buf))))"

definition ring_buf_write_at :: "ring_buf \<Rightarrow> u64 \<Rightarrow> bytes \<Rightarrow> (bool \<times> ring_buf) option" where
  "ring_buf_write_at r logical_offset buf =
     (let buf_len = of_nat (length buf);
          (a, err1) = safe_add_u64 logical_offset buf_len;
          (b, err2) = safe_add_u64 (head_offset r) (ring_buf_avail r);
          (c, err3) = safe_add_u64 (head_offset r) buf_len
      in if logical_offset < ctail_offset r \<or> a > b \<or> c > MAX_OFFSET \<or> err1 \<or> err2 \<or> err3
         then Some (False, r)
         else map_option (Pair True) (write_at_loop 2 r logical_offset buf))"

function ring_buf_push :: "ring_buf \<Rightarrow> bytes \<Rightarrow> (size_t \<times> ring_buf) option" where
  "ring_buf_push r buf =
     (let buf = take (unat (ring_buf_avail r)) buf;
          buf = take (unat (MAX_OFFSET - head_offset r)) buf
      in if buf = [] then Some (0, r)
         else if rb_alloc r = 0 then None
         else
           (let idx = rb_idx r (head_offset r);
                l = min (length buf) (unat (rb_alloc r) - idx)
            in case rb_store idx (take l buf) r of
                 None \<Rightarrow> None
               | Some r \<Rightarrow>
                 map_option (\<lambda>(pushed, r). (of_nat l + pushed, r))
                   (ring_buf_push (r\<lparr>head_offset := head_offset r + of_nat l\<rparr>) (drop l buf))))"
  by pat_completeness auto
termination
proof (relation "measure (length \<circ> snd)", goal_cases)
  case (2 r buf buf1 buf2 idx l r')
  have "0 < unat (rb_alloc r)" using 2(4) by (simp add: unat_gt_0)
  then have "0 < l" using 2 by (simp add: rb_idx_def unat_mod)
  moreover have "length buf2 \<le> length buf" using 2(1,2) by simp
  ultimately show ?case using 2(3) by (cases buf2) auto
qed simp

text \<open>The \<open>*max_len\<close> bytes at the pointer; NULL is \<open>Some None\<close>.\<close>

definition ring_buf_get_ptr :: "ring_buf \<Rightarrow> u64 \<Rightarrow> bytes option option" where
  "ring_buf_get_ptr r logical_offset =
     (if logical_offset \<ge> head_offset r \<or> logical_offset < ctail_offset r then Some None
      else if rb_alloc r = 0 then None
      else Some (Some (drop (rb_idx r logical_offset) (rb_data r))))"

text \<open>The \<open>*buf_len\<close> bytes at \<open>*buf\<close>.\<close>

definition ring_buf_get_buf_at :: "ring_buf \<Rightarrow> u64 \<Rightarrow> bytes option" where
  "ring_buf_get_buf_at r logical_offset =
     (if logical_offset > head_offset r \<or> logical_offset < ctail_offset r then None
      else if rb_alloc r = 0 then Some []
      else
        (let idx = rb_idx r logical_offset;
             l = min (unat (head_offset r - logical_offset)) (unat (rb_alloc r) - idx)
         in Some (take l (drop idx (rb_data r)))))"

text \<open>Cleansing what is about to be culled; the test is \<open>end > r->ctail_offset\<close>.\<close>

definition ring_buf_cleanse :: "ring_buf \<Rightarrow> u64 \<Rightarrow> ring_buf option" where
  "ring_buf_cleanse r stop =
     (let idx = rb_idx r (ctail_offset r);
          cleanse_end = (if stop + 1 > head_offset r then head_offset r else stop + 1);
          l = unat (cleanse_end - ctail_offset r);
          alloc = unat (rb_alloc r)
      in if l > alloc - idx then
           (case rb_store idx (replicate (alloc - idx) 0) r of None \<Rightarrow> None
            | Some r \<Rightarrow> rb_store 0 (replicate (l - (alloc - idx)) 0) r)
         else rb_store idx (replicate l 0) r)"

definition ring_buf_cpop_range :: "ring_buf \<Rightarrow> u64 \<Rightarrow> u64 \<Rightarrow> bool \<Rightarrow> ring_buf option" where
  "ring_buf_cpop_range r start stop cleanse =
     (if \<not> stop \<ge> start then None
      else if start > ctail_offset r \<or> stop \<ge> MAX_OFFSET then Some r
      else
        map_option
          (\<lambda>r. let r = r\<lparr>ctail_offset := stop + 1\<rparr>
               in if head_offset r < ctail_offset r then r\<lparr>head_offset := ctail_offset r\<rparr> else r)
          (if cleanse \<and> rb_alloc r > 0 \<and> stop > ctail_offset r then ring_buf_cleanse r stop else Some r))"

text \<open>The loop of \<open>ring_buf_resize\<close>: \<open>Inl ()\<close> is the early return of 0.\<close>

function resize_loop :: "ring_buf \<Rightarrow> ring_buf \<Rightarrow> u64 \<Rightarrow> (unit + ring_buf) option" where
  "resize_loop r rnew copied =
     (case ring_buf_get_buf_at r (ctail_offset r + copied) of
        None \<Rightarrow> Some (Inl ())
      | Some src \<Rightarrow>
        if src = [] then Some (Inr rnew)
        else
          (case ring_buf_push rnew src of
             None \<Rightarrow> None
           | Some (pushed, rnew) \<Rightarrow>
             if pushed \<noteq> of_nat (length src) then Some (Inl ())
             else resize_loop r rnew (copied + of_nat (length src))))"
  by pat_completeness auto

definition ring_buf_resize :: "bytes option \<Rightarrow> ring_buf \<Rightarrow> size_t \<Rightarrow> (bool \<times> ring_buf) option" where
  "ring_buf_resize block r num_bytes =
     (if num_bytes = rb_alloc r then Some (True, r)
      else if num_bytes < ring_buf_used r then Some (False, r)
      else
        (case block of
           None \<Rightarrow> Some (False, r)
         | Some d \<Rightarrow>
           (let h = head_offset r - ring_buf_used r in
            case resize_loop r \<lparr>rb_data = d, head_offset = h, ctail_offset = h\<rparr> 0 of
              None \<Rightarrow> None
            | Some (Inl _) \<Rightarrow> Some (False, r)
            | Some (Inr rnew) \<Rightarrow>
              if head_offset rnew \<noteq> head_offset r then None
              else Some (True, rnew\<lparr>ctail_offset := ctail_offset r\<rparr>))))"

declare ring_buf_push.simps [simp del]

lemma get_buf_at_length:
  "ring_buf_get_buf_at r off = Some src \<Longrightarrow>
     ctail_offset r \<le> off \<and> off \<le> head_offset r \<and> length src \<le> unat (head_offset r - off)"
  by (auto simp: ring_buf_get_buf_at_def Let_def split: if_splits)

termination resize_loop
proof (relation "measure (\<lambda>(r, _, copied). unat (head_offset r - (ctail_offset r + copied)))", goal_cases)
  case (2 r rnew copied src y pushed rnew')
  let ?o = "ctail_offset r + copied"
  have o: "?o \<le> head_offset r" "length src \<le> unat (head_offset r - ?o)" "0 < length src"
    using get_buf_at_length [OF 2(1)] 2(2) by auto
  have "unat (head_offset r - ?o - of_nat (length src)) = unat (head_offset r - ?o) - length src"
    using o unat_u64_bound [of "head_offset r - ?o"]
    by (subst unat_sub_u64) (auto simp: u64_nat unat_of_nat_u64 simp del: unat_of_nat)
  also have "\<dots> < unat (head_offset r - ?o)" using o by linarith
  finally show ?case by (simp add: algebra_simps)
qed simp

declare resize_loop.simps [simp del]


section \<open>Meaning and invariant\<close>

text \<open>The byte stored for a logical offset, the stored window, and well-formed ring buffers.\<close>

definition rb_get :: "ring_buf \<Rightarrow> nat \<Rightarrow> u8" where
  "rb_get r p = rb_data r ! (p mod length (rb_data r))"

definition rb_low :: "ring_buf \<Rightarrow> nat" where "rb_low r = unat (ctail_offset r)"

definition rb_high :: "ring_buf \<Rightarrow> nat" where "rb_high r = unat (head_offset r)"

definition rb_bytes :: "ring_buf \<Rightarrow> bytes" where
  "rb_bytes r = map (rb_get r) [rb_low r..<rb_high r]"

definition rb_ok :: "ring_buf \<Rightarrow> bool" where
  "rb_ok r \<longleftrightarrow> rb_low r \<le> rb_high r \<and> rb_high r \<le> rb_low r + length (rb_data r)
     \<and> rb_high r \<le> 2 ^ 62 \<and> length (rb_data r) < 2 ^ 64"

lemma unat_MAX_OFFSET [simp]: "unat MAX_OFFSET = 2 ^ 62"
  by (simp add: MAX_OFFSET_def)

lemma rb_ok_alloc: "rb_ok r \<Longrightarrow> unat (rb_alloc r) = length (rb_data r)"
  by (simp add: rb_ok_def rb_alloc_def unat_of_nat_u64 del: unat_of_nat)

lemma rb_ok_idx: "rb_ok r \<Longrightarrow> rb_idx r off = unat off mod length (rb_data r)"
  by (simp add: rb_idx_def unat_mod rb_ok_alloc)

lemma rb_ok_alloc0: "rb_ok r \<Longrightarrow> rb_alloc r = 0 \<longleftrightarrow> rb_data r = []"
  by (metis rb_ok_alloc length_0_conv unat_eq_0)

lemma rb_ok_used: "rb_ok r \<Longrightarrow> unat (ring_buf_used r) = rb_high r - rb_low r"
  by (simp add: rb_ok_def ring_buf_used_def rb_low_def rb_high_def unat_sub_u64 u64_nat)

lemma rb_ok_avail:
  assumes "rb_ok r"
  shows "unat (ring_buf_avail r) = length (rb_data r) - (rb_high r - rb_low r)"
proof -
  have "ring_buf_used r \<le> rb_alloc r"
    using assms by (simp add: u64_nat rb_ok_used rb_ok_alloc) (auto simp: rb_ok_def)
  then show ?thesis using assms by (simp add: ring_buf_avail_def unat_sub_u64 rb_ok_used rb_ok_alloc)
qed

lemmas rb_ok_simps = rb_ok_alloc rb_ok_idx rb_ok_alloc0 rb_ok_used rb_ok_avail

lemma length_rb_bytes [simp]: "length (rb_bytes r) = rb_high r - rb_low r"
  by (simp add: rb_bytes_def)

lemma nth_rb_bytes_at:
  "rb_low r \<le> p \<Longrightarrow> p < rb_high r \<Longrightarrow> rb_bytes r ! (p - rb_low r) = rb_get r p"
  by (simp add: rb_bytes_def)

lemma nth_rb_bytes: "rb_low r + k < rb_high r \<Longrightarrow> rb_bytes r ! k = rb_get r (rb_low r + k)"
  by (simp add: rb_bytes_def)


lemma unat_add_of_nat_u64: "unat (a :: u64) + n < 2 ^ 64 \<Longrightarrow> unat (a + of_nat n) = unat a + n"
  by (simp add: unat_add_u64 unat_of_nat_u64 del: unat_of_nat)


section \<open>Storing a chunk\<close>

text \<open>Offsets closer together than the size of the block do not share a place in it.\<close>

lemma le_mod_iff [simp]: "(a :: nat) \<le> p mod a \<longleftrightarrow> a = 0"
  by (cases "a = 0") (auto simp: not_le)

lemma mod_window_inj:
  fixes p q a :: nat
  assumes "p mod a = q mod a" "p \<le> q" "q < p + a"
  shows "p = q"
proof -
  have "a dvd q - p" using assms(1,2) by (metis mod_eq_dvd_iff_nat)
  with assms(3) have "q - p = 0" using dvd_imp_le [of a "q - p"] by fastforce
  with assms(2) show ?thesis by simp
qed

lemma mod_chunk:
  fixes p q a :: nat
  assumes "p \<le> q" "q < p + (a - p mod a)" "0 < a"
  shows "q mod a = p mod a + (q - p)"
proof -
  have "q = p div a * a + (p mod a + (q - p))" using assms(1) by (simp add: div_mult_mod_eq)
  moreover have "p mod a + (q - p) < a" using assms by (simp add: less_diff_conv)
  ultimately show ?thesis by (metis mod_mult_self3 mod_less)
qed

lemma rb_store_ok:
  assumes "idx + length bs \<le> length (rb_data r)"
  obtains d where "rb_store idx bs r = Some (r\<lparr>rb_data := d\<rparr>)"
    "length d = length (rb_data r)"
    "\<And>k. k < length d \<Longrightarrow> d ! k = (if idx \<le> k \<and> k < idx + length bs then bs ! (k - idx) else rb_data r ! k)"
proof -
  let ?d = "take idx (rb_data r) @ bs @ drop (idx + length bs) (rb_data r)"
  have "rb_store idx bs r = Some (r\<lparr>rb_data := ?d\<rparr>)"
    using assms by (simp add: rb_store_def)
  moreover have "length ?d = length (rb_data r)" using assms by simp
  moreover have "?d ! k = (if idx \<le> k \<and> k < idx + length bs then bs ! (k - idx) else rb_data r ! k)"
    if "k < length ?d" for k
    using that assms by (auto simp: nth_append)
  ultimately show ?thesis by (rule that)
qed

text \<open>What a store of \<open>bs\<close> at the logical offset \<open>off\<close> does to the bytes of all offsets less than one
  block away.\<close>

definition rb_written :: "ring_buf \<Rightarrow> nat \<Rightarrow> bytes \<Rightarrow> ring_buf \<Rightarrow> bool" where
  "rb_written r off bs r' \<longleftrightarrow>
     length (rb_data r') = length (rb_data r)
     \<and> head_offset r' = head_offset r \<and> ctail_offset r' = ctail_offset r
     \<and> (\<forall>p. off \<le> p \<and> p < off + length bs \<longrightarrow> rb_get r' p = bs ! (p - off))
     \<and> (\<forall>p. p < off \<and> off + length bs \<le> p + length (rb_data r)
              \<or> off + length bs \<le> p \<and> p < off + length (rb_data r) \<longrightarrow> rb_get r' p = rb_get r p)"

lemma rb_written_frame:
  assumes "rb_written r off bs r'"
  shows "length (rb_data r') = length (rb_data r)" "head_offset r' = head_offset r"
    "ctail_offset r' = ctail_offset r" "rb_low r' = rb_low r" "rb_high r' = rb_high r" "rb_ok r' = rb_ok r"
    "rb_alloc r' = rb_alloc r"
  using assms by (simp_all add: rb_written_def rb_low_def rb_high_def rb_ok_def rb_alloc_def)

lemma rb_written_inside:
  "rb_written r off bs r' \<Longrightarrow> off \<le> p \<Longrightarrow> p < off + length bs \<Longrightarrow> rb_get r' p = bs ! (p - off)"
  by (simp add: rb_written_def)

lemma rb_written_outside:
  assumes "rb_written r off bs r'"
  shows "p < off \<Longrightarrow> off + length bs \<le> p + length (rb_data r) \<Longrightarrow> rb_get r' p = rb_get r p"
    "off + length bs \<le> p \<Longrightarrow> p < off + length (rb_data r) \<Longrightarrow> rb_get r' p = rb_get r p"
  using assms by (simp_all add: rb_written_def)

lemma rb_store_get:
  assumes l: "length bs \<le> length (rb_data r) - off mod length (rb_data r)" "rb_data r \<noteq> []"
  shows "\<exists>r'. rb_store (off mod length (rb_data r)) bs r = Some r' \<and> rb_written r off bs r'"
proof -
  let ?a = "length (rb_data r)" and ?n = "length bs"
  have a: "0 < ?a" "?n \<le> ?a" "off mod ?a + ?n \<le> ?a"
    using l mod_less_divisor [of ?a off] by (auto simp del: mod_less_divisor)
  obtain d where d: "rb_store (off mod ?a) bs r = Some (r\<lparr>rb_data := d\<rparr>)" "length d = ?a"
    "\<And>k. k < length d \<Longrightarrow>
        d ! k = (if off mod ?a \<le> k \<and> k < off mod ?a + ?n then bs ! (k - off mod ?a) else rb_data r ! k)"
    using rb_store_ok [OF a(3)] by metis
  have inside: "rb_get (r\<lparr>rb_data := d\<rparr>) p = bs ! (p - off)" if "off \<le> p" "p < off + ?n" for p
  proof -
    define k where "k = p - off"
    with that have k: "p = off + k" "k < ?n" by auto
    then have "p mod ?a = off mod ?a + k" using mod_chunk [of off p ?a] a l by simp
    then show ?thesis using k a l mod_less_divisor [of ?a off] by (simp add: rb_get_def d)
  qed
  have outside: "rb_get (r\<lparr>rb_data := d\<rparr>) p = rb_get r p"
    if "p < off \<and> off + ?n \<le> p + ?a \<or> off + ?n \<le> p \<and> p < off + ?a" for p
  proof -
    have "\<not> (off mod ?a \<le> p mod ?a \<and> p mod ?a < off mod ?a + ?n)"
    proof
      assume i: "off mod ?a \<le> p mod ?a \<and> p mod ?a < off mod ?a + ?n"
      let ?q = "off + (p mod ?a - off mod ?a)"
      have q: "?q mod ?a = p mod ?a" "off \<le> ?q" "?q < off + ?n"
        using i mod_chunk [of off ?q ?a] a l by auto
      show False
        using that mod_window_inj [of p ?a ?q] mod_window_inj [of ?q ?a p] q by auto
    qed
    then show ?thesis using a by (auto simp: rb_get_def d)
  qed
  have "rb_written r off bs (r\<lparr>rb_data := d\<rparr>)"
    unfolding rb_written_def using d(2) inside outside by simp
  with d(1) show ?thesis by blast
qed


section \<open>Pushing\<close>

text \<open>One turn of the loop of \<open>ring_buf_push\<close>: a chunk stored at the head becomes the end of the window.\<close>

lemma rb_store_head:
  assumes ok: "rb_ok r" and bs: "bs \<noteq> []" "length bs \<le> length (rb_data r) - rb_idx r (head_offset r)"
    and room: "rb_high r + length bs \<le> rb_low r + length (rb_data r)" "rb_high r + length bs \<le> 2 ^ 62"
  obtains r' where "rb_store (rb_idx r (head_offset r)) bs r = Some r'"
    "head_offset r' = head_offset r"
    "let r2 = r'\<lparr>head_offset := head_offset r + of_nat (length bs)\<rparr> in
       rb_ok r2 \<and> rb_bytes r2 = rb_bytes r @ bs \<and> rb_low r2 = rb_low r
       \<and> rb_high r2 = rb_high r + length bs \<and> length (rb_data r2) = length (rb_data r)"
proof -
  have idx: "rb_idx r (head_offset r) = rb_high r mod length (rb_data r)"
    using ok by (simp add: rb_ok_idx rb_high_def)
  have "rb_data r \<noteq> []" using bs by auto
  then obtain r' where r': "rb_store (rb_high r mod length (rb_data r)) bs r = Some r'"
    and w: "rb_written r (rb_high r) bs r'"
    using rb_store_get [of bs r "rb_high r"] bs idx by auto
  define r2 where "r2 = r'\<lparr>head_offset := head_offset r + of_nat (length bs)\<rparr>"
  have get: "rb_get r2 = rb_get r'" by (simp add: r2_def rb_get_def fun_eq_iff)
  have high: "rb_high r2 = rb_high r + length bs"
    using room(2) by (simp add: r2_def rb_high_def unat_add_u64 unat_of_nat_u64 del: unat_of_nat)
  have low: "rb_low r2 = rb_low r" using rb_written_frame [OF w] by (simp add: r2_def rb_low_def)
  have alloc: "length (rb_data r2) = length (rb_data r)" using rb_written_frame [OF w] by (simp add: r2_def)
  have "rb_bytes r2 = rb_bytes r @ bs"
  proof (rule nth_equalityI)
    have le: "rb_low r \<le> rb_high r" using ok by (simp add: rb_ok_def)
    then show "length (rb_bytes r2) = length (rb_bytes r @ bs)" using high low by simp
    fix k assume "k < length (rb_bytes r2)"
    then show "rb_bytes r2 ! k = (rb_bytes r @ bs) ! k"
      using le high low room(1) rb_written_inside [OF w, of "rb_low r + k"]
        rb_written_outside(1) [OF w, of "rb_low r + k"]
      by (auto simp: nth_rb_bytes nth_append get add.commute)
  qed
  moreover have "rb_ok r2" using ok room high low alloc by (simp add: rb_ok_def)
  ultimately show ?thesis
    using that [of r'] r' rb_written_frame [OF w] idx high low alloc by (simp add: Let_def r2_def)
qed

definition push_len :: "ring_buf \<Rightarrow> bytes \<Rightarrow> nat" where
  "push_len r buf =
     min (length buf) (min (length (rb_data r) - (rb_high r - rb_low r)) (2 ^ 62 - rb_high r))"

lemma push_len_le: "push_len r buf \<le> length buf" "push_len r buf \<le> length (rb_data r)"
  unfolding push_len_def by linarith+

lemma unat_push_len: "rb_ok r \<Longrightarrow> unat (of_nat (push_len r buf) :: u64) = push_len r buf"
  using push_len_le(2) [of r buf] by (intro unat_of_nat_u64) (simp add: rb_ok_def)

theorem ring_buf_push_appends:
  assumes "rb_ok r"
  shows "\<exists>r'. ring_buf_push r buf = Some (of_nat (push_len r buf), r')
    \<and> rb_ok r' \<and> rb_bytes r' = rb_bytes r @ take (push_len r buf) buf
    \<and> rb_low r' = rb_low r \<and> rb_high r' = rb_high r + push_len r buf
    \<and> length (rb_data r') = length (rb_data r)"
  using assms
proof (induction r buf rule: ring_buf_push.induct)
  case (1 r buf)
  note ok = \<open>rb_ok r\<close>
  have max: "unat (MAX_OFFSET - head_offset r) = 2 ^ 62 - rb_high r"
    using ok by (simp add: unat_sub_u64 u64_nat rb_high_def rb_ok_def)
  let ?buf = "take (push_len r buf) buf"
  have buf: "take (unat (MAX_OFFSET - head_offset r)) (take (unat (ring_buf_avail r)) buf) = ?buf"
    using ok by (auto simp: max rb_ok_avail push_len_def min_def)
  show ?case
  proof (cases "?buf = []")
    case True
    then have "ring_buf_push r buf = Some (0, r)"
      by (subst ring_buf_push.simps) (simp only: Let_def buf, simp)
    moreover have "push_len r buf = 0" using True by (auto simp: push_len_def)
    ultimately show ?thesis using ok by simp
  next
    case False
    have room: "rb_high r + push_len r buf \<le> rb_low r + length (rb_data r)" "rb_high r + push_len r buf \<le> 2 ^ 62"
      "push_len r buf \<le> length buf"
      using ok by (auto simp: push_len_def rb_ok_def)
    have data: "rb_data r \<noteq> []" using False by (auto simp: push_len_def)
    define l where "l = min (length ?buf) (unat (rb_alloc r) - rb_idx r (head_offset r))"
    have l: "0 < l" "l \<le> push_len r buf" "l \<le> length (rb_data r) - rb_idx r (head_offset r)"
      "length (take l ?buf) = l"
      using False data ok room(3) by (auto simp: l_def rb_ok_simps)
    obtain r1 where r1: "rb_store (rb_idx r (head_offset r)) (take l ?buf) r = Some r1"
      "head_offset r1 = head_offset r"
      and spec: "let r2 = r1\<lparr>head_offset := head_offset r + of_nat l\<rparr> in
        rb_ok r2 \<and> rb_bytes r2 = rb_bytes r @ take l ?buf \<and> rb_low r2 = rb_low r
        \<and> rb_high r2 = rb_high r + l \<and> length (rb_data r2) = length (rb_data r)"
      by (rule rb_store_head [OF ok, of "take l ?buf", unfolded l(4)]) (use l room False in auto)
    define r2 where "r2 = r1\<lparr>head_offset := head_offset r1 + of_nat l\<rparr>"
    have r2: "rb_ok r2" "rb_bytes r2 = rb_bytes r @ take l ?buf" "rb_low r2 = rb_low r"
      "rb_high r2 = rb_high r + l" "length (rb_data r2) = length (rb_data r)"
      using spec by (simp_all add: r2_def Let_def r1(2))
    have rest: "push_len r2 (drop l ?buf) = push_len r buf - l"
    proof -
      have "length (drop l ?buf) = push_len r buf - l" using room(3) by simp
      moreover have "push_len r buf - l \<le> length (rb_data r) - (rb_high r + l - rb_low r)"
        using room(1) ok [unfolded rb_ok_def] by linarith
      moreover have "push_len r buf - l \<le> 2 ^ 62 - (rb_high r + l)" using room(2) by linarith
      ultimately show ?thesis unfolding push_len_def [of r2] r2(3-5) by linarith
    qed
    have ih: "\<exists>r'. ring_buf_push r2 (drop l ?buf) = Some (of_nat (push_len r2 (drop l ?buf)), r')
      \<and> rb_ok r' \<and> rb_bytes r' = rb_bytes r2 @ take (push_len r2 (drop l ?buf)) (drop l ?buf)
      \<and> rb_low r' = rb_low r2 \<and> rb_high r' = rb_high r2 + push_len r2 (drop l ?buf)
      \<and> length (rb_data r') = length (rb_data r2)"
      using "1.IH" [OF refl buf [symmetric] False _ refl l_def r1(1)] r2(1) data ok
      by (simp add: rb_ok_alloc0 r2_def)
    have "ring_buf_push r buf = map_option (\<lambda>(pushed, r). (of_nat l + pushed, r)) (ring_buf_push r2 (drop l ?buf))"
      using False data ok
      by (subst ring_buf_push.simps) (simp only: Let_def buf l_def [symmetric], simp add: rb_ok_alloc0 r1 r2_def del: take_take)
    moreover have "of_nat l + of_nat (push_len r buf - l) = (of_nat (push_len r buf) :: u64)"
      using l(2) by (simp flip: of_nat_add)
    moreover have "take (push_len r buf - l) (drop l ?buf) = drop l ?buf" by simp
    then have "take l ?buf @ take (push_len r buf - l) (drop l ?buf) = ?buf"
      by (simp only: append_take_drop_id)
    ultimately show ?thesis using ih r2 l(2) by (auto simp: rest)
  qed
qed


section \<open>Reading\<close>

text \<open>A read returns a non-empty piece of the window at the offset, unless the offset is its end.\<close>

lemma get_buf_at_spec:
  assumes ok: "rb_ok r"
  shows "ring_buf_get_buf_at r off =
    (if rb_low r \<le> unat off \<and> unat off \<le> rb_high r
     then Some (take (length (rb_data r) - unat off mod length (rb_data r)) (drop (unat off - rb_low r) (rb_bytes r)))
     else None)"
proof (cases "rb_low r \<le> unat off \<and> unat off \<le> rb_high r \<and> rb_data r \<noteq> []")
  case False
  then show ?thesis
    using ok by (auto simp: ring_buf_get_buf_at_def rb_ok_alloc0 u64_nat rb_low_def rb_high_def rb_ok_def not_less)
next
  case True
  let ?a = "length (rb_data r)" and ?o = "unat off"
  define l where "l = min (rb_high r - ?o) (?a - ?o mod ?a)"
  have a: "0 < ?a" using True by simp
  have h: "unat (head_offset r - off) = rb_high r - ?o"
    using True by (simp add: unat_sub_u64 u64_nat rb_high_def)
  have "ring_buf_get_buf_at r off = Some (take l (drop (?o mod ?a) (rb_data r)))"
    using True ok by (simp add: ring_buf_get_buf_at_def rb_ok_simps h l_def u64_nat rb_low_def rb_high_def Let_def)
  also have "take l (drop (?o mod ?a) (rb_data r)) = take (?a - ?o mod ?a) (drop (?o - rb_low r) (rb_bytes r))"
    (is "?x = ?y")
  proof (rule nth_equalityI)
    show len: "length ?x = length ?y" using True by (auto simp: l_def)
    fix k assume "k < length ?x"
    then have k: "k < l" by simp
    then have "(?o + k) mod ?a = ?o mod ?a + k" using mod_chunk [of ?o "?o + k" ?a] a by (simp add: l_def)
    then show "?x ! k = ?y ! k" using k True by (auto simp: l_def nth_rb_bytes_at rb_get_def)
  qed
  finally show ?thesis using True by simp
qed

lemma get_ptr_spec:
  assumes ok: "rb_ok r" and "rb_low r \<le> unat off" "unat off < rb_high r"
  obtains rest where "ring_buf_get_ptr r off = Some (Some rest)"
    "\<And>k. k < length rest \<Longrightarrow> unat off + k < rb_high r \<Longrightarrow> rest ! k = rb_bytes r ! (unat off - rb_low r + k)"
    "rest \<noteq> []"
proof -
  let ?a = "length (rb_data r)" and ?o = "unat off"
  have a: "0 < ?a" using assms by (auto simp: rb_ok_def)
  show ?thesis
  proof (rule that)
    show "ring_buf_get_ptr r off = Some (Some (drop (?o mod ?a) (rb_data r)))"
      using assms a by (auto simp: ring_buf_get_ptr_def rb_ok_simps u64_nat rb_low_def rb_high_def)
    show "drop (?o mod ?a) (rb_data r) \<noteq> []" using a by simp
    fix k assume k: "k < length (drop (?o mod ?a) (rb_data r))" "?o + k < rb_high r"
    then have "(?o + k) mod ?a = ?o mod ?a + k" using mod_chunk [of ?o "?o + k" ?a] a by simp
    then show "drop (?o mod ?a) (rb_data r) ! k = rb_bytes r ! (?o - rb_low r + k)"
      using k assms a by (simp add: nth_rb_bytes_at rb_get_def)
  qed
qed


section \<open>Resizing\<close>

lemma resize_loop_spec:
  assumes "rb_ok r" "rb_ok rnew" "rb_low rnew = rb_low r" "rb_high rnew = rb_low r + unat copied"
    "rb_low r + unat copied \<le> rb_high r" "rb_bytes rnew = take (unat copied) (rb_bytes r)"
    "rb_high r - rb_low r \<le> length (rb_data rnew)"
  shows "\<exists>r'. resize_loop r rnew copied = Some (Inr r') \<and> rb_ok r' \<and> rb_low r' = rb_low r
    \<and> rb_high r' = rb_high r \<and> rb_bytes r' = rb_bytes r \<and> length (rb_data r') = length (rb_data rnew)"
  using assms
proof (induction r rnew copied rule: resize_loop.induct)
  case (1 r rnew copied)
  let ?a = "length (rb_data r)" and ?off = "ctail_offset r + copied"
  have off: "unat ?off = rb_low r + unat copied"
    using "1.prems"(1,5) by (simp add: unat_add_u64 rb_low_def rb_ok_def)
  define src where "src = take (?a - unat ?off mod ?a) (drop (unat copied) (rb_bytes r))"
  have get: "ring_buf_get_buf_at r ?off = Some src"
    using "1.prems"(5) by (simp add: get_buf_at_spec "1.prems"(1) off src_def)
  show ?case
  proof (cases "src = []")
    case True
    have "rb_low r + unat copied = rb_high r"
    proof (rule ccontr)
      assume "rb_low r + unat copied \<noteq> rb_high r"
      then have "?a \<noteq> 0" "drop (unat copied) (rb_bytes r) \<noteq> []"
        using "1.prems"(1,5) by (auto simp: rb_ok_def)
      with True show False by (simp add: src_def)
    qed
    then show ?thesis using "1.prems" True by (subst resize_loop.simps) (simp add: get)
  next
    case False
    have len: "length src \<le> rb_high r - rb_low r - unat copied" by (simp add: src_def)
    have fits: "push_len rnew src = length src"
    proof -
      have "length src \<le> length (rb_data rnew) - (rb_high rnew - rb_low rnew)"
        using len "1.prems"(3,4,5,7) by linarith
      moreover have "length src \<le> 2 ^ 62 - rb_high rnew"
        using len "1.prems"(1,4) unfolding rb_ok_def by linarith
      ultimately show ?thesis by (simp add: push_len_def)
    qed
    obtain r' where r': "ring_buf_push rnew src = Some (of_nat (length src), r')"
      "rb_ok r'" "rb_bytes r' = rb_bytes rnew @ src" "rb_low r' = rb_low r"
      "rb_high r' = rb_low r + unat copied + length src" "length (rb_data r') = length (rb_data rnew)"
      using ring_buf_push_appends [OF "1.prems"(2), of src] "1.prems"(3,4) by (auto simp: fits)
    have copied: "unat (copied + of_nat (length src)) = unat copied + length src"
      using len "1.prems"(1,5) unfolding rb_ok_def by (intro unat_add_of_nat_u64) linarith
    have "rb_bytes r' = take (unat copied + length src) (rb_bytes r)"
      by (auto simp: r'(3) "1.prems"(6) src_def take_add min_def)
    then show ?thesis
      using "1.IH" [OF get False r'(1) refl] "1.prems" r' len
      by (subst resize_loop.simps) (simp add: get False copied)
  qed
qed

theorem ring_buf_resize_keeps:
  assumes ok: "rb_ok r" and block: "block = None \<or> length (the block) = unat num_bytes"
  shows "\<exists>r'. ring_buf_resize block r num_bytes =
      Some (num_bytes = rb_alloc r \<or> num_bytes \<ge> ring_buf_used r \<and> block \<noteq> None, r')
    \<and> rb_ok r' \<and> rb_bytes r' = rb_bytes r \<and> rb_low r' = rb_low r \<and> rb_high r' = rb_high r
    \<and> rb_alloc r' = (if num_bytes \<ge> ring_buf_used r \<and> block \<noteq> None then num_bytes else rb_alloc r)"
proof (cases "num_bytes \<noteq> rb_alloc r \<and> num_bytes \<ge> ring_buf_used r \<and> block \<noteq> None")
  case False
  then show ?thesis using ok by (auto simp: ring_buf_resize_def split: option.splits)
next
  case True
  then obtain d where d: "block = Some d" "length d = unat num_bytes" using block by auto
  define rnew where "rnew = \<lparr>rb_data = d, head_offset = head_offset r - ring_buf_used r,
    ctail_offset = head_offset r - ring_buf_used r\<rparr>"
  have h: "head_offset r - ring_buf_used r = ctail_offset r" by (simp add: ring_buf_used_def)
  have new: "rb_low rnew = rb_low r" "rb_high rnew = rb_low r" "rb_bytes rnew = []" "rb_ok rnew"
    "rb_high r - rb_low r \<le> length (rb_data rnew)"
    using ok True d unat_u64_bound [of num_bytes]
    by (auto simp: rnew_def rb_low_def rb_high_def rb_bytes_def rb_ok_def h u64_nat rb_ok_used)
  obtain r' where r': "resize_loop r rnew 0 = Some (Inr r')" "rb_ok r'" "rb_low r' = rb_low r"
    "rb_high r' = rb_high r" "rb_bytes r' = rb_bytes r" "length (rb_data r') = unat num_bytes"
    using resize_loop_spec [OF ok new(4,1), of 0] new ok d
    by (auto simp: rb_ok_def rnew_def)
  then have "head_offset r' = head_offset r" "ctail_offset r' = ctail_offset r" "rb_alloc r' = num_bytes"
    by (auto simp: rb_high_def rb_low_def u64_eq_nat rb_alloc_def)
  moreover from this have same: "r'\<lparr>ctail_offset := ctail_offset r\<rparr> = r'" by simp
  ultimately show ?thesis
    using True d r' by (auto simp: ring_buf_resize_def rnew_def [symmetric] Let_def same)
qed

end
