(* ===== verification/RingWindow.thy ===== *)
theory RingWindow
  imports RingBuf
begin

text \<open>
  The operations of the ring buffer that reach across the end of the block, culling and writing at
  an offset (\<open>include/internal/ring_buf.h\<close>), and the contract of a byte window that clients of
  the ring buffer rely on.
\<close>

section \<open>Stores that wrap around\<close>

text \<open>A store of up to a whole block in two chunks, the second one from the start of the block.\<close>

lemma rb_written_append:
  assumes w: "rb_written r off xs r1" "rb_written r1 (off + length xs) ys r2"
    and le: "length (xs @ ys) \<le> length (rb_data r)"
  shows "rb_written r off (xs @ ys) r2"
proof -
  note f = rb_written_frame [OF w(1)] rb_written_frame [OF w(2)]
  have "rb_get r2 p = (xs @ ys) ! (p - off)" if "off \<le> p" "p < off + length (xs @ ys)" for p
  proof (cases "p < off + length xs")
    case True
    then show ?thesis
      using that le rb_written_outside(1) [OF w(2), of p] rb_written_inside [OF w(1), of p] f
      by (auto simp: nth_append)
  next
    case False
    then show ?thesis
      using that rb_written_inside [OF w(2), of p] by (auto simp: nth_append diff_diff_left)
  qed
  moreover have "rb_get r2 p = rb_get r p"
    if "p < off \<and> off + length (xs @ ys) \<le> p + length (rb_data r)
      \<or> off + length (xs @ ys) \<le> p \<and> p < off + length (rb_data r)" for p
    using that rb_written_outside [OF w(1), of p] rb_written_outside [OF w(2), of p] f by auto
  ultimately show ?thesis using f by (simp add: rb_written_def)
qed

lemma rb_store_wrap:
  fixes off :: nat
  assumes a: "length bs \<le> length (rb_data r)" "rb_data r \<noteq> []"
  defines "l \<equiv> min (length bs) (length (rb_data r) - off mod length (rb_data r))"
  obtains r1 r2 where "rb_store (off mod length (rb_data r)) (take l bs) r = Some r1"
    "rb_written r off (take l bs) r1"
    "rb_store ((off + l) mod length (rb_data r)) (drop l bs) r1 = Some r2" "rb_written r off bs r2"
    "l < length bs \<Longrightarrow> (off + l) mod length (rb_data r) = 0"
proof -
  let ?a = "length (rb_data r)"
  have l: "length (take l bs) = l" "l \<le> ?a - off mod ?a" by (auto simp: l_def)
  obtain r1 where r1: "rb_store (off mod ?a) (take l bs) r = Some r1" "rb_written r off (take l bs) r1"
    using rb_store_get [of "take l bs" r off] a(2) l by auto
  have mod: "(off + l) mod ?a = 0" if "l < length bs"
  proof -
    have "l = ?a - off mod ?a" using that by (simp add: l_def min_def split: if_splits)
    moreover have "off mod ?a \<le> ?a" using a(2) by (simp add: less_imp_le)
    ultimately have "off + l = off div ?a * ?a + ?a" using div_mult_mod_eq [of off ?a] by linarith
    then show ?thesis by simp
  qed
  have "length (drop l bs) \<le> ?a - (off + l) mod ?a" using mod a(1) by (cases "l < length bs") auto
  moreover have "rb_data r1 \<noteq> []" using a(2) rb_written_frame(1) [OF r1(2)] by auto
  ultimately obtain r2 where r2: "rb_store ((off + l) mod ?a) (drop l bs) r1 = Some r2"
    "rb_written r1 (off + l) (drop l bs) r2"
    using rb_store_get [of "drop l bs" r1 "off + l"] rb_written_frame(1) [OF r1(2)] by auto
  have "rb_written r off (take l bs @ drop l bs) r2"
    by (rule rb_written_append [OF r1(2)]) (use r2(2) l a(1) in auto)
  then show ?thesis using that [OF r1 r2(1)] mod by simp
qed


section \<open>Culling\<close>

text \<open>Cleansing overwrites the culled part of the window with zeros and nothing else of it.\<close>

lemma ring_buf_cleanse_zeros:
  assumes ok: "rb_ok r" and "rb_data r \<noteq> []" "rb_low r \<le> unat stop + 1" "unat stop < 2 ^ 62"
  defines "n \<equiv> min (unat stop + 1) (rb_high r) - rb_low r"
  shows "\<exists>r'. ring_buf_cleanse r stop = Some r' \<and> rb_written r (rb_low r) (replicate n 0) r'"
proof -
  let ?a = "length (rb_data r)" and ?idx = "rb_low r mod length (rb_data r)"
  have idx: "rb_idx r (ctail_offset r) = ?idx" using ok by (simp add: rb_ok_idx rb_low_def)
  have stop: "unat (stop + 1) = unat stop + 1"
    using assms(4) by (subst unat_add_u64) auto
  define ce where "ce = (if stop + 1 > head_offset r then head_offset r else stop + 1)"
  have ce: "unat ce = min (unat stop + 1) (rb_high r)"
    by (simp add: ce_def u64_nat stop rb_high_def)
  have n: "unat (ce - ctail_offset r) = n"
    using assms(3) ok by (subst unat_sub_u64) (auto simp: u64_nat ce n_def rb_ok_def rb_low_def rb_high_def)
  have le: "n \<le> ?a" using ok by (auto simp: n_def rb_ok_def)
  let ?l = "min (length (replicate n (0::u8))) (?a - ?idx)"
  obtain r1 r2 where r: "rb_store ?idx (take ?l (replicate n 0)) r = Some r1"
    "rb_written r (rb_low r) (take ?l (replicate n 0)) r1"
    "rb_store ((rb_low r + ?l) mod ?a) (drop ?l (replicate n 0)) r1 = Some r2"
    "rb_written r (rb_low r) (replicate n 0) r2" "?l < length (replicate n (0::u8)) \<Longrightarrow> (rb_low r + ?l) mod ?a = 0"
    by (rule rb_store_wrap [of "replicate n 0" r "rb_low r"]) (use le assms(2) in auto)
  show ?thesis
  proof (cases "n > ?a - ?idx")
    case True
    then have "ring_buf_cleanse r stop = Some r2"
      using r by (simp add: ring_buf_cleanse_def Let_def idx n rb_ok_alloc [OF ok] flip: ce_def)
    with r(4) show ?thesis by blast
  next
    case False
    then have "r2 = r1" using r(3) by (auto simp: rb_store_def split: if_splits)
    then have "ring_buf_cleanse r stop = Some r2"
      using r(1) False by (simp add: ring_buf_cleanse_def Let_def idx n rb_ok_alloc [OF ok] flip: ce_def)
    with r(4) show ?thesis by blast
  qed
qed

lemma rb_bytes_drop:
  assumes "rb_ok r" "rb_low r' = m" "rb_low r \<le> m" "rb_high r' = max (rb_high r) m"
    and "\<And>p. m \<le> p \<Longrightarrow> p < rb_high r \<Longrightarrow> rb_get r' p = rb_get r p"
  shows "rb_bytes r' = drop (m - rb_low r) (rb_bytes r)"
proof -
  have "[m..<max (rb_high r) m] = [m..<rb_high r]" by (simp add: max_def)
  then show ?thesis using assms by (simp add: rb_bytes_def drop_map)
qed

text \<open>Culling up to \<open>stop\<close> drops the front of the window, or all of it and more.\<close>

theorem ring_buf_cpop_drops:
  assumes ok: "rb_ok r" and rng: "start \<le> stop" "unat start \<le> rb_low r" "rb_low r \<le> unat stop + 1"
    "unat stop < 2 ^ 62"
  shows "\<exists>r'. ring_buf_cpop_range r start stop cleanse = Some r' \<and> rb_ok r'
    \<and> rb_low r' = unat stop + 1 \<and> rb_high r' = max (rb_high r) (unat stop + 1)
    \<and> rb_bytes r' = drop (unat stop + 1 - rb_low r) (rb_bytes r)
    \<and> length (rb_data r') = length (rb_data r)"
proof -
  define r1o where "r1o = (if cleanse \<and> rb_alloc r > 0 \<and> stop > ctail_offset r then ring_buf_cleanse r stop else Some r)"
  have "\<exists>r1. r1o = Some r1 \<and> length (rb_data r1) = length (rb_data r) \<and> head_offset r1 = head_offset r
      \<and> (\<forall>p. unat stop + 1 \<le> p \<and> p < rb_high r \<longrightarrow> rb_get r1 p = rb_get r p)"
  proof (cases "cleanse \<and> rb_alloc r > 0 \<and> stop > ctail_offset r")
    case True
    then have "rb_data r \<noteq> []" by (auto simp: rb_alloc_def)
    then obtain r' where r': "ring_buf_cleanse r stop = Some r'"
      "rb_written r (rb_low r) (replicate (min (unat stop + 1) (rb_high r) - rb_low r) 0) r'"
      using ring_buf_cleanse_zeros [OF ok] rng by blast
    moreover have "rb_get r' p = rb_get r p" if "unat stop + 1 \<le> p" "p < rb_high r" for p
      using that ok rng(3) rb_written_outside(2) [OF r'(2), of p] by (auto simp: rb_ok_def)
    ultimately show ?thesis using True rb_written_frame [OF r'(2)] by (auto simp: r1o_def)
  qed (auto simp: r1o_def)
  then obtain r1 where r1: "r1o = Some r1" "length (rb_data r1) = length (rb_data r)"
    "head_offset r1 = head_offset r"
    "\<And>p. unat stop + 1 \<le> p \<Longrightarrow> p < rb_high r \<Longrightarrow> rb_get r1 p = rb_get r p"
    by blast
  have stop: "unat (stop + 1) = unat stop + 1" using rng(4) by (subst unat_add_u64) auto
  define r2 where "r2 = (let r = r1\<lparr>ctail_offset := stop + 1\<rparr>
    in if head_offset r < ctail_offset r then r\<lparr>head_offset := ctail_offset r\<rparr> else r)"
  have run: "ring_buf_cpop_range r start stop cleanse = Some r2"
  proof -
    have "\<not> (start > ctail_offset r \<or> stop \<ge> MAX_OFFSET)"
      using rng by (simp add: u64_nat rb_low_def)
    then show ?thesis
      unfolding ring_buf_cpop_range_def r1o_def [symmetric] using rng(1) r1(1) by (simp add: r2_def)
  qed
  have r2: "rb_low r2 = unat stop + 1" "rb_high r2 = max (rb_high r) (unat stop + 1)"
    "length (rb_data r2) = length (rb_data r)"
    using r1 by (auto simp: r2_def rb_low_def rb_high_def stop Let_def u64_nat)
  have get: "rb_get r2 = rb_get r1" by (auto simp: r2_def Let_def rb_get_def fun_eq_iff)
  have "rb_ok r2" using ok rng(3,4) r2 by (auto simp: rb_ok_def)
  moreover have "rb_bytes r2 = drop (unat stop + 1 - rb_low r) (rb_bytes r)"
    by (rule rb_bytes_drop [OF ok r2(1) rng(3) r2(2)]) (simp add: get r1(4))
  ultimately show ?thesis using run r2 by blast
qed

lemma ring_buf_cpop_ignored:
  "start \<le> stop \<Longrightarrow> rb_low r < unat start \<or> 2 ^ 62 \<le> unat stop \<Longrightarrow>
     ring_buf_cpop_range r start stop cleanse = Some r"
  by (auto simp: ring_buf_cpop_range_def u64_nat rb_low_def)

text \<open>The test before the cleansing leaves out the case of a single byte; a range that ends before the
  tail moves the tail back.\<close>

lemma cpop_one_byte_not_cleansed:
  "ring_buf_cpop_range \<lparr>rb_data = [1, 2], head_offset = 2, ctail_offset = 0\<rparr> 0 0 True
     = Some \<lparr>rb_data = [1, 2], head_offset = 2, ctail_offset = 1\<rparr>"
  by code_simp

lemma cpop_moves_tail_back:
  "ring_buf_cpop_range \<lparr>rb_data = [1, 2], head_offset = 4, ctail_offset = 3\<rparr> 0 0 False
     = Some \<lparr>rb_data = [1, 2], head_offset = 4, ctail_offset = 1\<rparr>"
  by code_simp


section \<open>Writing at an offset\<close>

text \<open>The head after a chunk that ends at \<open>offset\<close>.\<close>

definition bump_head :: "u64 \<Rightarrow> ring_buf \<Rightarrow> ring_buf" where
  "bump_head offset r = (if head_offset r < offset then r\<lparr>head_offset := offset\<rparr> else r)"

lemma bump_head_simps [simp]:
  "rb_data (bump_head x r) = rb_data r" "ctail_offset (bump_head x r) = ctail_offset r"
  "rb_get (bump_head x r) = rb_get r" "rb_low (bump_head x r) = rb_low r"
  "rb_high (bump_head x r) = max (rb_high r) (unat x)"
  "rb_alloc (bump_head x r) = rb_alloc r"
  by (auto simp: bump_head_def rb_get_def rb_low_def rb_high_def u64_nat rb_alloc_def fun_eq_iff)

lemma bump_head_twice: "x \<le> y \<Longrightarrow> bump_head y (bump_head x r) = bump_head y r"
  by (auto simp: bump_head_def)

lemma rb_store_bump_head: "rb_store idx bs (bump_head x r) = map_option (bump_head x) (rb_store idx bs r)"
  by (auto simp: rb_store_def bump_head_def)

lemma write_at_loop_step:
  "buf \<noteq> [] \<Longrightarrow> rb_alloc r \<noteq> 0 \<Longrightarrow> l = min (length buf) (unat (rb_alloc r) - rb_idx r off) \<Longrightarrow>
   rb_store (rb_idx r off) (take l buf) r = Some r' \<Longrightarrow>
   write_at_loop (Suc n) r off buf =
     write_at_loop n (bump_head (off + of_nat l) r') (off + of_nat l) (drop l buf)"
  by (simp add: Let_def bump_head_def del: take_take)

lemma write_at_loop_two:
  assumes ok: "rb_ok r" and buf: "buf \<noteq> []" and rng: "rb_low r \<le> unat off"
    "unat off + length buf \<le> rb_low r + length (rb_data r)" "unat off + length buf \<le> 2 ^ 62"
  shows "\<exists>r'. write_at_loop 2 r off buf = Some (bump_head (off + of_nat (length buf)) r')
    \<and> rb_written r (unat off) buf r'"
proof -
  let ?a = "length (rb_data r)" and ?o = "unat off"
  have data: "rb_data r \<noteq> []" "length buf \<le> ?a" using buf rng(1,2) by (cases buf; auto)+
  define l where "l = min (length buf) (?a - ?o mod ?a)"
  obtain r1 r2 where r: "rb_store (?o mod ?a) (take l buf) r = Some r1" "rb_written r ?o (take l buf) r1"
    "rb_store ((?o + l) mod ?a) (drop l buf) r1 = Some r2" "rb_written r ?o buf r2"
    "l < length buf \<Longrightarrow> (?o + l) mod ?a = 0"
    unfolding l_def by (rule rb_store_wrap [of buf r ?o]) (use data in auto)
  note f1 = rb_written_frame [OF r(2)] 
  have l: "0 < l" "l \<le> length buf" using data buf by (auto simp: l_def)
  have off: "unat (off + of_nat l) = ?o + l" using rng(3) l by (intro unat_add_of_nat_u64) simp
  have fin: "unat (off + of_nat (length buf)) = ?o + length buf"
    using rng(3) by (intro unat_add_of_nat_u64) simp
  have idx: "rb_idx r' x = unat x mod ?a" if "rb_alloc r' = rb_alloc r" for r' x
    using that ok by (simp add: rb_idx_def unat_mod rb_ok_alloc)
  have alloc: "rb_alloc r \<noteq> 0" "unat (rb_alloc r) = ?a" using ok data by (auto simp: rb_ok_simps)
  have first: "write_at_loop 2 r off buf =
      write_at_loop (Suc 0) (bump_head (off + of_nat l) r1) (off + of_nat l) (drop l buf)"
    unfolding numeral_2_eq_2
    by (rule write_at_loop_step) (use buf alloc r(1) in \<open>auto simp: idx l_def\<close>)
  have "write_at_loop 2 r off buf = Some (bump_head (off + of_nat (length buf)) r2)"
  proof (cases "l = length buf")
    case True
    then have "r2 = r1" using r(3) by (auto simp: rb_store_def split: if_splits)
    with True show ?thesis by (simp add: first)
  next
    case False
    then have z: "(?o + l) mod ?a = 0" "drop l buf \<noteq> []" using l r(5) by auto
    have "rb_store (rb_idx (bump_head (off + of_nat l) r1) (off + of_nat l))
        (take (length (drop l buf)) (drop l buf)) (bump_head (off + of_nat l) r1)
        = Some (bump_head (off + of_nat l) r2)"
      using r(3) f1 by (simp add: rb_store_bump_head idx off)
    then have "write_at_loop (Suc 0) (bump_head (off + of_nat l) r1) (off + of_nat l) (drop l buf) =
      write_at_loop 0 (bump_head (off + of_nat l + of_nat (length (drop l buf))) (bump_head (off + of_nat l) r2))
        (off + of_nat l + of_nat (length (drop l buf))) (drop (length (drop l buf)) (drop l buf))"
      by (intro write_at_loop_step) (use z alloc f1 data in \<open>auto simp: idx off\<close>)
    moreover have "off + of_nat l + of_nat (length (drop l buf)) = off + of_nat (length buf)"
      using l by (simp add: add.assoc flip: of_nat_add)
    ultimately show ?thesis
      using off fin l by (simp add: first bump_head_twice u64_nat)
  qed
  with r(4) show ?thesis by blast
qed

theorem ring_buf_write_loop:
  assumes ok: "rb_ok r" and buf: "buf \<noteq> []" and rng: "rb_low r \<le> unat off"
    "unat off + length buf \<le> rb_low r + length (rb_data r)" "unat off + length buf \<le> 2 ^ 62"
  shows "\<exists>r'. write_at_loop 2 r off buf = Some r' \<and> rb_ok r' \<and> rb_low r' = rb_low r
    \<and> rb_high r' = max (rb_high r) (unat off + length buf) \<and> length (rb_data r') = length (rb_data r)
    \<and> (\<forall>p. unat off \<le> p \<and> p < unat off + length buf \<longrightarrow> rb_get r' p = buf ! (p - unat off))
    \<and> (\<forall>p. rb_low r \<le> p \<and> p < rb_low r + length (rb_data r)
           \<and> (p < unat off \<or> unat off + length buf \<le> p) \<longrightarrow> rb_get r' p = rb_get r p)"
proof -
  let ?a = "length (rb_data r)" and ?o = "unat off"
  obtain r2 where r2: "write_at_loop 2 r off buf = Some (bump_head (off + of_nat (length buf)) r2)"
    "rb_written r ?o buf r2"
    using write_at_loop_two [OF assms] by blast
  define r3 where "r3 = bump_head (off + of_nat (length buf)) r2"
  have "unat (off + of_nat (length buf)) = ?o + length buf"
    using rng(3) by (intro unat_add_of_nat_u64) simp
  then have "rb_high r3 = max (rb_high r) (?o + length buf)" "rb_low r3 = rb_low r"
    "length (rb_data r3) = ?a"
    by (simp_all add: r3_def rb_written_frame [OF r2(2)])
  moreover from this have "rb_ok r3" using ok rng by (auto simp: rb_ok_def)
  moreover have "rb_get r3 p = buf ! (p - ?o)" if "?o \<le> p" "p < ?o + length buf" for p
    using that rb_written_inside [OF r2(2)] by (simp add: r3_def)
  moreover have "rb_get r3 p = rb_get r p"
    if "rb_low r \<le> p" "p < rb_low r + ?a" "p < ?o \<or> ?o + length buf \<le> p" for p
    using that rng rb_written_outside [OF r2(2), of p] by (auto simp: r3_def)
  ultimately show ?thesis using r2(1) r3_def by blast
qed

text \<open>\<open>ring_buf_write_at\<close> refuses exactly the writes that do not fit into the window; it never fails its
  assertion. The limit is tested on the head instead of the end of the write, so the last
  hypothesis is not implied by the test.\<close>

lemma safe_add_exact: "unat a + unat b < 2 ^ 64 \<Longrightarrow> safe_add_u64 a b = (a + b, False)"
  using safe_add_err [of a b] by (simp add: safe_add_u64_def)

lemma ring_buf_write_at_spec:
  assumes ok: "rb_ok r" and lim: "unat off + length buf \<le> 2 ^ 62"
    and block: "rb_low r + length (rb_data r) < 2 ^ 64"
  shows "ring_buf_write_at r off buf =
    (if rb_low r \<le> unat off \<and> unat off + length buf \<le> rb_low r + length (rb_data r)
        \<and> rb_high r + length buf \<le> 2 ^ 62
     then map_option (Pair True) (write_at_loop 2 r off buf) else Some (False, r))"
proof -
  have n: "unat (of_nat (length buf) :: u64) = length buf" using lim by (intro unat_of_nat_u64) simp
  have "rb_high r + (length (rb_data r) - (rb_high r - rb_low r)) = rb_low r + length (rb_data r)"
    using ok by (simp add: rb_ok_def)
  then have avail: "rb_high r + unat (ring_buf_avail r) = rb_low r + length (rb_data r)"
    using ok by (simp add: rb_ok_avail)
  have high: "rb_high r + length buf < 2 ^ 64" using ok lim by (simp add: rb_ok_def)
  have "safe_add_u64 off (of_nat (length buf)) = (off + of_nat (length buf), False)"
    using lim n by (intro safe_add_exact) simp
  moreover have "safe_add_u64 (head_offset r) (ring_buf_avail r) = (head_offset r + ring_buf_avail r, False)"
    using avail block by (intro safe_add_exact) (simp add: rb_high_def)
  moreover have "safe_add_u64 (head_offset r) (of_nat (length buf)) = (head_offset r + of_nat (length buf), False)"
    using high n by (intro safe_add_exact) (simp add: rb_high_def)
  moreover have "unat (off + of_nat (length buf)) = unat off + length buf"
    using lim by (intro unat_add_of_nat_u64) simp
  moreover have "unat (head_offset r + of_nat (length buf)) = rb_high r + length buf"
    using high by (simp add: unat_add_of_nat_u64 rb_high_def)
  moreover have "unat (head_offset r + ring_buf_avail r) = rb_low r + length (rb_data r)"
    using avail block by (simp add: unat_add_u64 rb_high_def)
  ultimately show ?thesis
    by (auto simp: ring_buf_write_at_def u64_nat rb_low_def rb_high_def)
qed

lemma write_at_beyond_limit:
  "ring_buf_write_at \<lparr>rb_data = [0, 0], head_offset = 0x3FFFFFFFFFFFFFFF, ctail_offset = 0x3FFFFFFFFFFFFFFF\<rparr>
     0x4000000000000000 [1]
   = Some (True, \<lparr>rb_data = [1, 0], head_offset = 0x4000000000000001, ctail_offset = 0x3FFFFFFFFFFFFFFF\<rparr>)"
  by code_simp


lemmas ring_buf_push_eval = ring_buf_push.simps ring_buf_avail_def ring_buf_used_def rb_alloc_def
  MAX_OFFSET_def rb_idx_def rb_store_def


section \<open>The contract of a byte window\<close>

text \<open>
  What a client of the ring buffer relies on: the window of a byte stream is extended at its end as
  far as there is room, cut at its front, moved to another block, and read in pieces. The relation
  \<open>window_reach\<close> collects the states a client can bring it to, with the stream that was accepted so
  far and the number of bytes culled from its front. A client culls only bytes it has pushed, and
  never a range that ends before what is culled already.
\<close>

inductive window_reach ::
    "('s \<Rightarrow> bytes \<Rightarrow> (size_t \<times> 's) option) \<Rightarrow> ('s \<Rightarrow> u64 \<Rightarrow> u64 \<Rightarrow> bool \<Rightarrow> 's option) \<Rightarrow>
     (bytes option \<Rightarrow> 's \<Rightarrow> size_t \<Rightarrow> (bool \<times> 's) option) \<Rightarrow> 's \<Rightarrow> 's \<Rightarrow> bytes \<Rightarrow> nat \<Rightarrow> bool"
  for push cull resize s0 where
  start: "window_reach push cull resize s0 s0 [] 0"
| push: "window_reach push cull resize s0 s st m \<Longrightarrow> push s buf = Some (n, s') \<Longrightarrow>
    window_reach push cull resize s0 s' (st @ take (unat n) buf) m"
| cull: "window_reach push cull resize s0 s st m \<Longrightarrow> a \<le> b \<Longrightarrow> m \<le> unat b + 1 \<Longrightarrow> unat b < length st \<Longrightarrow>
    cull s a b c = Some s' \<Longrightarrow>
    window_reach push cull resize s0 s' st (if unat a \<le> m then unat b + 1 else m)"
| resize: "window_reach push cull resize s0 s st m \<Longrightarrow> block = None \<or> length (the block) = unat n \<Longrightarrow>
    resize block s n = Some (res, s') \<Longrightarrow> window_reach push cull resize s0 s' st m"

locale byte_window =
  fixes ok :: "'s \<Rightarrow> bool" and low :: "'s \<Rightarrow> nat" and contents :: "'s \<Rightarrow> bytes" and s0 :: 's
    and push :: "'s \<Rightarrow> bytes \<Rightarrow> (size_t \<times> 's) option"
    and cull :: "'s \<Rightarrow> u64 \<Rightarrow> u64 \<Rightarrow> bool \<Rightarrow> 's option"
    and resize :: "bytes option \<Rightarrow> 's \<Rightarrow> size_t \<Rightarrow> (bool \<times> 's) option"
    and peek :: "'s \<Rightarrow> u64 \<Rightarrow> bytes option"
  assumes start_law: "ok s0 \<and> low s0 = 0 \<and> contents s0 = []"
    and limit_law: "ok s \<Longrightarrow> low s + length (contents s) \<le> 2 ^ 62"
    and push_law: "ok s \<Longrightarrow> \<exists>n s'. push s buf = Some (n, s') \<and> ok s' \<and> low s' = low s
      \<and> unat n \<le> length buf \<and> contents s' = contents s @ take (unat n) buf"
    and cull_law: "ok s \<Longrightarrow> a \<le> b \<Longrightarrow> low s \<le> unat b + 1 \<Longrightarrow> unat b < 2 ^ 62 \<Longrightarrow>
      \<exists>s'. cull s a b c = Some s' \<and> ok s' \<and>
        (if unat a \<le> low s then low s' = unat b + 1 \<and> contents s' = drop (unat b + 1 - low s) (contents s)
         else s' = s)"
    and resize_law: "ok s \<Longrightarrow> block = None \<or> length (the block) = unat n \<Longrightarrow>
      \<exists>res s'. resize block s n = Some (res, s') \<and> ok s' \<and> low s' = low s \<and> contents s' = contents s"
    and peek_law: "ok s \<Longrightarrow> low s \<le> unat off \<Longrightarrow> unat off < low s + length (contents s) \<Longrightarrow>
      \<exists>l. l > 0 \<and> peek s off = Some (take l (drop (unat off - low s) (contents s)))"
begin

lemma reach_window:
  "window_reach push cull resize s0 s st m \<Longrightarrow>
     ok s \<and> low s = m \<and> m \<le> length st \<and> contents s = drop m st"
proof (induction rule: window_reach.induct)
  case start
  then show ?case using start_law by simp
next
  case (push s st m buf n s')
  then show ?case using push_law [of s buf] by auto
next
  case (cull s st m a b c s')
  then have "unat b < 2 ^ 62" using limit_law [of s] by auto
  with cull show ?case using cull_law [of s a b c] by (auto split: if_splits)
next
  case (resize s st m block n res s')
  then show ?case using resize_law [of s block n] by auto
qed

lemma reach_limit: "window_reach push cull resize s0 s st m \<Longrightarrow> length st \<le> 2 ^ 62"
  using reach_window [of s st m] limit_law [of s] by auto

lemma reach_read:
  assumes "window_reach push cull resize s0 s st m" "m \<le> unat off" "unat off < length st"
  shows "\<exists>l. l > 0 \<and> peek s off = Some (take l (drop (unat off) st))"
  using assms reach_window [OF assms(1)] peek_law [of s off] by (auto simp: less_diff_conv)

lemma reach_defined:
  assumes "window_reach push cull resize s0 s st m"
  shows "push s buf \<noteq> None"
    and "block = None \<or> length (the block) = unat n \<Longrightarrow> resize block s n \<noteq> None"
    and "a \<le> b \<Longrightarrow> m \<le> unat b + 1 \<Longrightarrow> unat b < length st \<Longrightarrow> cull s a b c \<noteq> None"
proof -
  have s: "ok s" "low s = m" using reach_window [OF assms] by auto
  show "push s buf \<noteq> None" using push_law [OF s(1), of buf] by auto
  show "resize block s n \<noteq> None" if "block = None \<or> length (the block) = unat n"
    using resize_law [OF s(1) that] by auto
  show "cull s a b c \<noteq> None" if "a \<le> b" "m \<le> unat b + 1" "unat b < length st"
    using cull_law [OF s(1), of a b c] that s(2) reach_limit [OF assms] by auto
qed

end

interpretation ring: byte_window rb_ok rb_low rb_bytes ring_buf_init ring_buf_push ring_buf_cpop_range
    ring_buf_resize ring_buf_get_buf_at
proof (unfold_locales, goal_cases)
  case 1
  then show ?case by (simp add: rb_ok_def ring_buf_init_def rb_low_def rb_high_def rb_bytes_def)
next
  case (2 s)
  then show ?case by (simp add: rb_ok_def)
next
  case (3 s buf)
  show ?case
    using ring_buf_push_appends [OF 3, of buf] push_len_le(1) [of s buf] unat_push_len [OF 3, of buf]
    by (intro exI [of _ "of_nat (push_len s buf)"]) (auto simp del: unat_of_nat)
next
  case (4 s a b c)
  then show ?case
    using ring_buf_cpop_drops [of s a b c] ring_buf_cpop_ignored [of a b s c]
    by (cases "unat a \<le> rb_low s") (auto simp: not_le)
next
  case (5 s block n)
  then show ?case using ring_buf_resize_keeps [of s block n] by blast
next
  case (6 s off)
  then have "rb_data s \<noteq> []" by (auto simp: rb_ok_def)
  with 6 show ?case
    by (intro exI [of _ "length (rb_data s) - unat off mod length (rb_data s)"])
      (auto simp: get_buf_at_spec rb_ok_def)
qed

text \<open>C9. The ring buffer carries a byte stream: whatever a client pushes, culls and resizes, with or
  without memory, no operation is undefined or fails an assertion, the head is the number of bytes
  accepted, and a read at any offset that is not culled returns at least one byte and exactly the
  bytes of the accepted stream at that offset.\<close>

theorem ring_buf_stream:
  assumes "window_reach ring_buf_push ring_buf_cpop_range ring_buf_resize ring_buf_init r st m"
  shows "unat (head_offset r) = length st \<and> length st \<le> 2 ^ 62
    \<and> (\<forall>buf. ring_buf_push r buf \<noteq> None)
    \<and> (\<forall>block n. block = None \<or> length (the block) = unat n \<longrightarrow> ring_buf_resize block r n \<noteq> None)
    \<and> (\<forall>a b c. a \<le> b \<and> m \<le> unat b + 1 \<and> unat b < length st \<longrightarrow> ring_buf_cpop_range r a b c \<noteq> None)
    \<and> (\<forall>off. m \<le> unat off \<and> unat off < length st \<longrightarrow>
         (\<exists>l > 0. ring_buf_get_buf_at r off = Some (take l (drop (unat off) st))))"
proof -
  have w: "rb_ok r" "rb_low r = m" "m \<le> length st" "rb_bytes r = drop m st"
    using ring.reach_window [OF assms] by auto
  then have "rb_high r - m = length st - m" by (metis length_rb_bytes length_drop)
  with w have "rb_high r = length st" unfolding rb_ok_def by linarith
  then show ?thesis
    using ring.reach_limit [OF assms] ring.reach_defined [OF assms] ring.reach_read [OF assms]
    by (simp add: rb_high_def)
qed

theorem ring_buf_stream_witness:
  "window_reach ring_buf_push ring_buf_cpop_range ring_buf_resize ring_buf_init
     \<lparr>rb_data = [4, 2, 3], head_offset = 4, ctail_offset = 1\<rparr> [1, 2, 3, 4] 1
   \<and> ring_buf_get_buf_at \<lparr>rb_data = [4, 2, 3], head_offset = 4, ctail_offset = 1\<rparr> 3 = Some [4]
   \<and> unat (head_offset \<lparr>rb_data = [4, 2, 3], head_offset = 4, ctail_offset = 1\<rparr>) = length [1, 2, 3, 4 :: u8]"
proof -
  let ?R = "window_reach ring_buf_push ring_buf_cpop_range ring_buf_resize ring_buf_init"
  have "ring_buf_resize (Some [9, 9, 9]) ring_buf_init 3 =
      Some (True, \<lparr>rb_data = [9, 9, 9], head_offset = 0, ctail_offset = 0\<rparr>)"
    by code_simp
  then have 1: "?R \<lparr>rb_data = [9, 9, 9], head_offset = 0, ctail_offset = 0\<rparr> [] 0"
    by (rule window_reach.resize [OF window_reach.start, rotated]) simp
  have "ring_buf_push \<lparr>rb_data = [9, 9, 9], head_offset = 0, ctail_offset = 0\<rparr> [1, 2, 3, 4] =
      Some (3, \<lparr>rb_data = [1, 2, 3], head_offset = 3, ctail_offset = 0\<rparr>)"
    by (simp add: ring_buf_push_eval)
  from window_reach.push [OF 1 this]
  have 2: "?R \<lparr>rb_data = [1, 2, 3], head_offset = 3, ctail_offset = 0\<rparr> [1, 2, 3] 0" by simp
  have "ring_buf_cpop_range \<lparr>rb_data = [1, 2, 3], head_offset = 3, ctail_offset = 0\<rparr> 0 0 False =
      Some \<lparr>rb_data = [1, 2, 3], head_offset = 3, ctail_offset = 1\<rparr>"
    by code_simp
  from window_reach.cull [OF 2 _ _ _ this]
  have 3: "?R \<lparr>rb_data = [1, 2, 3], head_offset = 3, ctail_offset = 1\<rparr> [1, 2, 3] 1" by simp
  have "ring_buf_push \<lparr>rb_data = [1, 2, 3], head_offset = 3, ctail_offset = 1\<rparr> [4] =
      Some (1, \<lparr>rb_data = [4, 2, 3], head_offset = 4, ctail_offset = 1\<rparr>)"
    by (simp add: ring_buf_push_eval)
  from window_reach.push [OF 3 this]
  have 4: "?R \<lparr>rb_data = [4, 2, 3], head_offset = 4, ctail_offset = 1\<rparr> [1, 2, 3, 4] 1" by simp
  moreover have "ring_buf_get_buf_at \<lparr>rb_data = [4, 2, 3], head_offset = 4, ctail_offset = 1\<rparr> 3 = Some [4]"
    by code_simp
  ultimately show ?thesis using ring_buf_stream [OF 4] by simp
qed

end
