(* ===== verification/SStream.thy ===== *)
theory SStream
  imports UintSet RingWindow WireFrames
begin

text \<open>
  Model of the send side of a QUIC stream (\<open>ssl/quic/quic_sstream.c\<close>): a ring buffer with the bytes
  that are not acknowledged yet, and two integer sets that say which offsets have to be sent and
  which are acknowledged. \<open>None\<close> is undefined behaviour or a failed assertion. Whether an allocation
  succeeds and the block the ring buffer gets are parameters. Freeing is not part of the state.
\<close>

section \<open>The model\<close>

record quic_sstream =
  ss_ring :: ring_buf
  new_set :: uint_set
  acked_set :: uint_set
  have_final_size :: bool
  sent_final_size :: bool
  acked_final_size :: bool
  ss_cleanse :: bool

text \<open>\<open>Some None\<close> is the NULL of a failed construction; \<open>mem\<close> is the allocation of the object,
  \<open>block\<close> that of the buffer.\<close>

definition ossl_quic_sstream_new :: "mem_ok \<Rightarrow> bytes option \<Rightarrow> size_t \<Rightarrow> quic_sstream option option" where
  "ossl_quic_sstream_new mem block init_buf_size =
     (if \<not> mem then Some None
      else
        (case ring_buf_resize block ring_buf_init init_buf_size of
           None \<Rightarrow> None
         | Some (ok, r) \<Rightarrow>
           if \<not> ok then Some None
           else Some (Some \<lparr>ss_ring = r, new_set = ossl_uint_set_init, acked_set = ossl_uint_set_init,
                            have_final_size = False, sent_final_size = False,
                            acked_final_size = False, ss_cleanse = False\<rparr>)))"

text \<open>The loop that collects the pieces of a range. The counter \<open>n\<close> is what is left of the assertion
  \<open>i < 2\<close>; \<open>Inl ()\<close> is the early return of 0. A piece is the list of its bytes.\<close>

fun frame_loop ::
    "nat \<Rightarrow> ring_buf \<Rightarrow> u64 \<Rightarrow> u64 \<Rightarrow> size_t \<Rightarrow> bytes list \<Rightarrow> (unit + size_t \<times> bytes list) option" where
  "frame_loop n r start max_len total_len iov =
     (if total_len \<ge> max_len then Some (Inr (total_len, iov))
      else
        (case ring_buf_get_buf_at r (start + total_len) of
           None \<Rightarrow> Some (Inl ())
         | Some src \<Rightarrow>
           if src = [] then Some (Inr (total_len, iov))
           else
             (case n of
                0 \<Rightarrow> None
              | Suc m \<Rightarrow>
                (let src = (if total_len + of_nat (length src) > max_len
                            then take (unat (max_len - total_len)) src else src)
                 in frame_loop m r start max_len (total_len + of_nat (length src)) (iov @ [src])))))"

declare frame_loop.simps [simp del]

text \<open>\<open>Some None\<close> is the result 0, which leaves the outputs as they are.\<close>

definition ossl_quic_sstream_get_stream_frame ::
    "quic_sstream \<Rightarrow> nat \<Rightarrow> frame_stream \<Rightarrow> size_t \<Rightarrow> (frame_stream \<times> bytes list) option option" where
  "ossl_quic_sstream_get_stream_frame qss skip hdr num_iov =
     (if num_iov < 2 then Some None
      else
        (case drop skip (new_set qss) of
           [] \<Rightarrow>
             if length (new_set qss) < skip then Some None
             else if \<not> have_final_size qss \<or> sent_final_size qss then Some None
             else Some (Some (hdr\<lparr>fs_offset := head_offset (ss_ring qss), fs_len := 0, is_fin := True\<rparr>, []))
         | rng # _ \<Rightarrow>
             (case frame_loop 2 (ss_ring qss) (r_start rng) (r_end rng - r_start rng + 1) 0 [] of
                None \<Rightarrow> None
              | Some (Inl _) \<Rightarrow> Some None
              | Some (Inr (total_len, iov)) \<Rightarrow>
                Some (Some (hdr\<lparr>fs_offset := r_start rng, fs_len := total_len,
                                is_fin := have_final_size qss
                                  \<and> r_start rng + total_len = head_offset (ss_ring qss)\<rparr>, iov)))))"

definition ossl_quic_sstream_has_pending :: "frame_stream \<Rightarrow> quic_sstream \<Rightarrow> bool option" where
  "ossl_quic_sstream_has_pending shdr qss =
     map_option (\<lambda>res. res \<noteq> None) (ossl_quic_sstream_get_stream_frame qss 0 shdr 2)"

definition ossl_quic_sstream_get_cur_size :: "quic_sstream \<Rightarrow> u64" where
  "ossl_quic_sstream_get_cur_size qss = head_offset (ss_ring qss)"

definition ossl_quic_sstream_mark_transmitted ::
    "mem_ok \<Rightarrow> quic_sstream \<Rightarrow> u64 \<Rightarrow> u64 \<Rightarrow> (bool \<times> quic_sstream) option" where
  "ossl_quic_sstream_mark_transmitted mem qss start stop =
     map_option (\<lambda>(ok, s). (ok, qss\<lparr>new_set := s\<rparr>))
       (ossl_uint_set_remove mem (new_set qss) \<lparr>r_start = start, r_end = stop\<rparr>)"

definition ossl_quic_sstream_mark_transmitted_fin :: "quic_sstream \<Rightarrow> u64 \<Rightarrow> bool \<times> quic_sstream" where
  "ossl_quic_sstream_mark_transmitted_fin qss final_sz =
     (if \<not> have_final_size qss \<or> final_sz \<noteq> head_offset (ss_ring qss) then (False, qss)
      else (True, qss\<lparr>sent_final_size := True\<rparr>))"

definition ossl_quic_sstream_mark_lost ::
    "mem_ok \<Rightarrow> quic_sstream \<Rightarrow> u64 \<Rightarrow> u64 \<Rightarrow> bool \<times> quic_sstream" where
  "ossl_quic_sstream_mark_lost mem qss start stop =
     (let (ok, s) = ossl_uint_set_insert mem (new_set qss) \<lparr>r_start = start, r_end = stop\<rparr>
      in (ok, qss\<lparr>new_set := s\<rparr>))"

definition ossl_quic_sstream_mark_lost_fin :: "quic_sstream \<Rightarrow> bool \<times> quic_sstream" where
  "ossl_quic_sstream_mark_lost_fin qss =
     (if acked_final_size qss then (False, qss) else (True, qss\<lparr>sent_final_size := False\<rparr>))"

definition qss_cull :: "quic_sstream \<Rightarrow> quic_sstream option" where
  "qss_cull qss =
     (case acked_set qss of
        [] \<Rightarrow> Some qss
      | h # _ \<Rightarrow>
        map_option (\<lambda>r. qss\<lparr>ss_ring := r\<rparr>)
          (ring_buf_cpop_range (ss_ring qss) (r_start h) (r_end h) (ss_cleanse qss)))"

definition ossl_quic_sstream_mark_acked ::
    "mem_ok \<Rightarrow> quic_sstream \<Rightarrow> u64 \<Rightarrow> u64 \<Rightarrow> (bool \<times> quic_sstream) option" where
  "ossl_quic_sstream_mark_acked mem qss start stop =
     (let (ok, s) = ossl_uint_set_insert mem (acked_set qss) \<lparr>r_start = start, r_end = stop\<rparr>;
          qss = qss\<lparr>acked_set := s\<rparr>
      in if \<not> ok then Some (False, qss) else map_option (Pair True) (qss_cull qss))"

definition ossl_quic_sstream_mark_acked_fin :: "quic_sstream \<Rightarrow> bool \<times> quic_sstream" where
  "ossl_quic_sstream_mark_acked_fin qss =
     (if \<not> have_final_size qss then (False, qss) else (True, qss\<lparr>acked_final_size := True\<rparr>))"

definition ossl_quic_sstream_fin :: "quic_sstream \<Rightarrow> quic_sstream" where
  "ossl_quic_sstream_fin qss = (if have_final_size qss then qss else qss\<lparr>have_final_size := True\<rparr>)"

definition ossl_quic_sstream_get_final_size :: "quic_sstream \<Rightarrow> u64 option" where
  "ossl_quic_sstream_get_final_size qss =
     (if \<not> have_final_size qss then None else Some (head_offset (ss_ring qss)))"

function append_loop :: "ring_buf \<Rightarrow> bytes \<Rightarrow> size_t \<Rightarrow> (size_t \<times> ring_buf) option" where
  "append_loop r buf consumed =
     (if buf = [] then Some (consumed, r)
      else
        (case ring_buf_push r buf of
           None \<Rightarrow> None
         | Some (l, r) \<Rightarrow>
           if l = 0 then Some (consumed, r)
           else append_loop r (drop (unat l) buf) (consumed + l)))"
  by pat_completeness auto
termination
  by (relation "measure (\<lambda>(_, buf, _). length buf)") (auto simp: unat_gt_0)

declare append_loop.simps [simp del]

text \<open>When the set cannot be extended the old ring buffer structure is put back; the memory it
  points to keeps what was pushed.\<close>

definition ossl_quic_sstream_append ::
    "mem_ok \<Rightarrow> quic_sstream \<Rightarrow> bytes \<Rightarrow> (bool \<times> size_t \<times> quic_sstream) option" where
  "ossl_quic_sstream_append mem qss buf =
     (let old_ring_buf = ss_ring qss in
      if have_final_size qss then Some (False, 0, qss)
      else
        (case append_loop old_ring_buf buf 0 of
           None \<Rightarrow> None
         | Some (consumed, r) \<Rightarrow>
           if consumed > 0 then
             (let rng = \<lparr>r_start = head_offset old_ring_buf, r_end = head_offset old_ring_buf + consumed - 1\<rparr> in
              if r_end rng + 1 \<noteq> head_offset r then None
              else
                (let (ok, s) = ossl_uint_set_insert mem (new_set qss) rng in
                 if \<not> ok
                 then Some (False, 0, qss\<lparr>ss_ring := old_ring_buf\<lparr>rb_data := rb_data r\<rparr>, new_set := s\<rparr>)
                 else Some (True, consumed, qss\<lparr>ss_ring := r, new_set := s\<rparr>)))
           else Some (True, consumed, qss\<lparr>ss_ring := r\<rparr>)))"

definition ossl_quic_sstream_set_buffer_size ::
    "bytes option \<Rightarrow> quic_sstream \<Rightarrow> size_t \<Rightarrow> (bool \<times> quic_sstream) option" where
  "ossl_quic_sstream_set_buffer_size block qss num_bytes =
     map_option (\<lambda>(ok, r). (ok, qss\<lparr>ss_ring := r\<rparr>)) (ring_buf_resize block (ss_ring qss) num_bytes)"

definition ossl_quic_sstream_get_buffer_size :: "quic_sstream \<Rightarrow> size_t" where
  "ossl_quic_sstream_get_buffer_size qss = rb_alloc (ss_ring qss)"

definition ossl_quic_sstream_get_buffer_used :: "quic_sstream \<Rightarrow> size_t" where
  "ossl_quic_sstream_get_buffer_used qss = ring_buf_used (ss_ring qss)"

definition ossl_quic_sstream_get_buffer_avail :: "quic_sstream \<Rightarrow> size_t" where
  "ossl_quic_sstream_get_buffer_avail qss = ring_buf_avail (ss_ring qss)"

definition ossl_quic_sstream_is_totally_acked :: "quic_sstream \<Rightarrow> bool option" where
  "ossl_quic_sstream_is_totally_acked qss =
     (if have_final_size qss \<and> \<not> acked_final_size qss then Some False
      else if ossl_quic_sstream_get_cur_size qss = 0 then Some True
      else
        (case acked_set qss of
           [r] \<Rightarrow>
             (let cur_size = head_offset (ss_ring qss) in
              if \<not> r_end r + 1 \<le> cur_size then None
              else Some (r_start r = 0 \<and> r_end r + 1 = cur_size))
         | _ \<Rightarrow> Some False))"

fun adjust_iov_loop :: "size_t \<Rightarrow> size_t \<Rightarrow> bytes list \<Rightarrow> bytes list" where
  "adjust_iov_loop len running [] = []"
| "adjust_iov_loop len running (b # iov) =
     (let iovlen = of_nat (length b) in
      (if running \<ge> len then [] else if running + iovlen > len then take (unat (len - running)) b else b)
      # adjust_iov_loop len (running + iovlen) iov)"

definition ossl_quic_sstream_adjust_iov :: "size_t \<Rightarrow> bytes list \<Rightarrow> bytes list" where
  "ossl_quic_sstream_adjust_iov len iov = adjust_iov_loop len 0 iov"

definition ossl_quic_sstream_set_cleanse :: "quic_sstream \<Rightarrow> bool \<Rightarrow> quic_sstream" where
  "ossl_quic_sstream_set_cleanse qss cleanse = qss\<lparr>ss_cleanse := cleanse\<rparr>"


section \<open>The invariant\<close>

text \<open>\<open>carries r st\<close>: the ring buffer \<open>r\<close> holds the bytes of the stream \<open>st\<close> that are not culled.\<close>

definition carries :: "ring_buf \<Rightarrow> bytes \<Rightarrow> bool" where
  "carries r st \<longleftrightarrow> rb_ok r \<and> rb_low r \<le> length st \<and> rb_bytes r = drop (rb_low r) st"

definition offsets :: "bytes \<Rightarrow> u64 set" where
  "offsets st = {v. unat v < length st}"

definition ss_ok :: "quic_sstream \<Rightarrow> bytes \<Rightarrow> bool" where
  "ss_ok q st \<longleftrightarrow> carries (ss_ring q) st
     \<and> uset_inv (new_set q) \<and> uset_inv (acked_set q) \<and> uset_gaps (acked_set q)
     \<and> uset_elems (new_set q) \<subseteq> offsets st - uset_elems (acked_set q)
     \<and> uset_elems (acked_set q) \<subseteq> offsets st
     \<and> (\<forall>v. unat v < rb_low (ss_ring q) \<longrightarrow> v \<in> uset_elems (acked_set q))"

text \<open>The bytes in flight: sent, and neither acknowledged nor reported lost.\<close>

definition in_flight :: "quic_sstream \<Rightarrow> u64 set" where
  "in_flight q = {v. v < ossl_quic_sstream_get_cur_size q} - uset_elems (new_set q) - uset_elems (acked_set q)"

lemma carries_high: "carries r st \<Longrightarrow> rb_high r = length st"
proof -
  assume c: "carries r st"
  then have "rb_high r - rb_low r = length st - rb_low r"
    unfolding carries_def by (metis length_rb_bytes length_drop)
  with c show ?thesis unfolding carries_def rb_ok_def by linarith
qed

lemma carries_limit: "carries r st \<Longrightarrow> length st \<le> 2 ^ 62"
  using carries_high [of r st] unfolding carries_def rb_ok_def by metis

lemma in_flight_offsets: "carries (ss_ring q) st \<Longrightarrow>
    in_flight q = offsets st - uset_elems (new_set q) - uset_elems (acked_set q)"
  using carries_high [of "ss_ring q" st]
  by (auto simp: in_flight_def offsets_def ossl_quic_sstream_get_cur_size_def u64_nat rb_high_def)


section \<open>Appending\<close>

lemma append_loop_spec:
  assumes "rb_ok r"
  shows "\<exists>r'. append_loop r buf c = Some (c + of_nat (push_len r buf), r')
    \<and> rb_ok r' \<and> rb_bytes r' = rb_bytes r @ take (push_len r buf) buf
    \<and> rb_low r' = rb_low r \<and> rb_high r' = rb_high r + push_len r buf
    \<and> length (rb_data r') = length (rb_data r)"
proof (cases "buf = []")
  case True
  then show ?thesis using assms by (simp add: append_loop.simps push_len_def)
next
  case False
  let ?n = "push_len r buf"
  obtain r1 where r1: "ring_buf_push r buf = Some (of_nat ?n, r1)" "rb_ok r1"
    "rb_bytes r1 = rb_bytes r @ take ?n buf" "rb_low r1 = rb_low r" "rb_high r1 = rb_high r + ?n"
    "length (rb_data r1) = length (rb_data r)"
    using ring_buf_push_appends [OF assms, of buf] by blast
  have n: "unat (of_nat ?n :: u64) = ?n" using assms by (rule unat_push_len)
  have step: "append_loop r buf c =
      (if of_nat ?n = (0 :: u64) then Some (c, r1) else append_loop r1 (drop ?n buf) (c + of_nat ?n))"
    using False r1(1) n by (subst append_loop.simps) (simp del: unat_of_nat)
  have nz: "(of_nat ?n :: u64) = 0 \<longleftrightarrow> ?n = 0" by (simp only: u64_eq_nat n unat_0)
  consider "?n = 0" | "?n \<noteq> 0" "drop ?n buf = []" | "?n \<noteq> 0" "drop ?n buf \<noteq> []" by blast
  then show ?thesis
  proof cases
    case 1
    then show ?thesis using r1 by (simp add: step)
  next
    case 2
    then have "append_loop r buf c = Some (c + of_nat ?n, r1)"
      by (simp only: step nz if_False append_loop.simps [of r1 "[]"], simp)
    then show ?thesis using r1(2-6) by blast
  next
    case 3
    then have "?n < length buf" by simp
    then have "?n = length (rb_data r) - (rb_high r - rb_low r) \<or> ?n = 2 ^ 62 - rb_high r"
      unfolding push_len_def by linarith
    moreover have "length (rb_data r1) - (rb_high r1 - rb_low r1) = length (rb_data r) - (rb_high r - rb_low r) - ?n"
      using assms by (simp add: r1(4-6) rb_ok_def)
    moreover have "2 ^ 62 - rb_high r1 = 2 ^ 62 - rb_high r - ?n" by (simp add: r1(5))
    ultimately have "length (rb_data r1) - (rb_high r1 - rb_low r1) = 0 \<or> 2 ^ 62 - rb_high r1 = 0"
      by (metis diff_self_eq_0)
    then have zero: "push_len r1 (drop ?n buf) = 0" by (metis push_len_def min_0L min_0R)
    obtain r2 where r2: "ring_buf_push r1 (drop ?n buf) = Some (0, r2)" "rb_ok r2"
      "rb_bytes r2 = rb_bytes r1" "rb_low r2 = rb_low r1" "rb_high r2 = rb_high r1"
      "length (rb_data r2) = length (rb_data r1)"
      using ring_buf_push_appends [OF r1(2), of "drop ?n buf"] by (auto simp: zero)
    have "append_loop r1 (drop ?n buf) x = Some (x, r2)" for x
      using r2(1) 3 by (subst append_loop.simps) simp
    then have "append_loop r buf c = Some (c + of_nat ?n, r2)" using 3 by (simp only: step nz if_False)
    then show ?thesis using r1 r2 by simp
  qed
qed

text \<open>Appending accepts as much as there is room for; if the new range cannot be recorded the stream is
  unchanged.\<close>

lemma carries_append:
  assumes "carries r st" "rb_ok r'" "rb_bytes r' = rb_bytes r @ xs" "rb_low r' = rb_low r"
  shows "carries r' (st @ xs)"
  using assms by (simp add: carries_def)

lemma carries_rollback:
  assumes c: "carries r st" and r': "rb_ok r'" "rb_bytes r' = rb_bytes r @ xs" "rb_low r' = rb_low r"
    "rb_high r' = rb_high r + length xs" "length (rb_data r') = length (rb_data r)"
  shows "carries (r\<lparr>rb_data := rb_data r'\<rparr>) st"
proof -
  let ?r = "r\<lparr>rb_data := rb_data r'\<rparr>"
  have o: "rb_low ?r = rb_low r" "rb_high ?r = rb_high r" by (simp_all add: rb_low_def rb_high_def)
  have "rb_low r \<le> rb_high r" using c by (simp add: carries_def rb_ok_def)
  moreover have "rb_get ?r = rb_get r'" by (simp add: rb_get_def fun_eq_iff)
  ultimately have "rb_bytes ?r = take (rb_high r - rb_low r) (rb_bytes r')"
    using r'(3,4) o by (simp add: rb_bytes_def take_map)
  also have "\<dots> = rb_bytes r" using r'(2) by simp
  finally show ?thesis using c r'(5) o by (simp add: carries_def rb_ok_def)
qed

definition append_len :: "quic_sstream \<Rightarrow> bytes \<Rightarrow> nat" where
  "append_len q buf = push_len (ss_ring q) buf"

lemma append_spec:
  assumes ok: "ss_ok q st" and fin: "\<not> have_final_size q"
  shows "\<exists>res n q'. ossl_quic_sstream_append mem q buf = Some (res, n, q')
    \<and> unat n = (if res then append_len q buf else 0) \<and> (mem \<longrightarrow> res)
    \<and> ss_ok q' (st @ take (unat n) buf)"
proof -
  let ?r = "ss_ring q" and ?n = "append_len q buf"
  have c: "carries ?r st" and rok: "rb_ok ?r" using ok by (auto simp: ss_ok_def carries_def)
  obtain r' where r': "append_loop ?r buf 0 = Some (of_nat ?n, r')" "rb_ok r'"
    "rb_bytes r' = rb_bytes ?r @ take ?n buf" "rb_low r' = rb_low ?r" "rb_high r' = rb_high ?r + ?n"
    "length (rb_data r') = length (rb_data ?r)"
    using append_loop_spec [OF rok, of buf 0] by (auto simp: append_len_def)
  have n: "unat (of_nat ?n :: u64) = ?n" using unat_push_len [OF rok] by (simp add: append_len_def)
  have c': "carries r' (st @ take ?n buf)" by (rule carries_append [OF c r'(2-4)])
  show ?thesis
  proof (cases "?n = 0")
    case True
    then show ?thesis using ok fin r'(1,4) c'
      by (intro exI [of _ True] exI [of _ 0]) (simp add: ossl_quic_sstream_append_def ss_ok_def)
  next
    case False
    define rng where "rng = \<lparr>r_start = head_offset ?r, r_end = head_offset ?r + of_nat ?n - 1\<rparr>"
    have head: "head_offset r' = head_offset ?r + of_nat ?n"
      using r'(5) n c' carries_limit [OF c'] carries_high [OF c']
      by (simp add: u64_eq_nat unat_add_of_nat_u64 rb_high_def del: unat_of_nat)
    define res where "res = ossl_uint_set_insert mem (new_set q) rng"
    have run: "ossl_quic_sstream_append mem q buf =
      (if fst res then Some (True, of_nat ?n, q\<lparr>ss_ring := r', new_set := snd res\<rparr>)
       else Some (False, 0, q\<lparr>ss_ring := ?r\<lparr>rb_data := rb_data r'\<rparr>, new_set := snd res\<rparr>))"
    proof -
      have "(of_nat ?n :: u64) > 0" using False n by (simp add: u64_nat del: unat_of_nat)
      then show ?thesis using fin r'(1) head
        by (simp add: ossl_quic_sstream_append_def Let_def res_def rng_def split: prod.split)
    qed
    have el: "range_elems rng = offsets (st @ take ?n buf) - offsets st" "r_start rng \<le> r_end rng"
    proof -
      have len: "length (take ?n buf) = ?n" by (simp add: append_len_def push_len_le)
      have s: "unat (r_start rng) = length st" using carries_high [OF c] by (simp add: rng_def rb_high_def)
      have "r_end rng = r_start rng + of_nat (?n - 1)" using False by (simp add: rng_def of_nat_diff)
      then have e: "unat (r_end rng) = length st + (?n - 1)"
        using s carries_limit [OF c'] len by (simp add: unat_add_of_nat_u64)
      show "range_elems rng = offsets (st @ take ?n buf) - offsets st" "r_start rng \<le> r_end rng"
        using s e False len by (auto simp: range_elems_def offsets_def u64_nat)
    qed
    have ins: "insert_result mem rng (new_set q) res"
      using ok el(2) insert_spec [of "new_set q" rng mem] by (simp add: ss_ok_def res_def)
    show ?thesis
    proof (cases "fst res")
      case True
      then have "ss_ok (q\<lparr>ss_ring := r', new_set := snd res\<rparr>) (st @ take ?n buf)"
        using ok ins c' r'(4) el(1) by (auto simp: ss_ok_def insert_result_def offsets_def)
      with True show ?thesis
        by (intro exI [of _ True] exI [of _ "of_nat ?n"]) (simp add: run n del: unat_of_nat)
    next
      case False
      have "carries (?r\<lparr>rb_data := rb_data r'\<rparr>) st"
        by (rule carries_rollback [OF c r'(2-4)]) (use r'(5,6) push_len_le(1) [of ?r buf] in \<open>simp_all add: append_len_def\<close>)
      then have "ss_ok (q\<lparr>ss_ring := ?r\<lparr>rb_data := rb_data r'\<rparr>, new_set := snd res\<rparr>) st"
        using ok ins False by (auto simp: ss_ok_def insert_result_def rb_low_def)
      moreover have "\<not> mem" using ins False by (auto simp: insert_result_def)
      ultimately show ?thesis
        unfolding run using False by (intro exI [of _ False] exI [of _ 0]) simp
    qed
  qed
qed


section \<open>Reading the pieces of a range\<close>

lemma frame_loop_step:
  assumes "unat total_len < unat max_len" "ring_buf_get_buf_at r (start + total_len) = Some src" "src \<noteq> []"
    "unat total_len + length src < 2 ^ 64"
  defines "piece \<equiv> take (unat max_len - unat total_len) src"
  shows "frame_loop (Suc m) r start max_len total_len iov =
    frame_loop m r start max_len (total_len + of_nat (length piece)) (iov @ [piece])"
proof -
  have le: "\<not> total_len \<ge> max_len" using assms(1) by (simp add: u64_nat)
  have "unat (total_len + of_nat (length src)) = unat total_len + length src"
    using assms(4) by (rule unat_add_of_nat_u64)
  then have piece: "(if total_len + of_nat (length src) > max_len
      then take (unat (max_len - total_len)) src else src) = piece"
    using assms(1) by (auto simp: piece_def u64_nat unat_sub_u64)
  show ?thesis
    by (subst frame_loop.simps) (simp add: le assms(2,3) piece Let_def)
qed

lemma carries_read:
  assumes "carries r st" "rb_low r \<le> unat off" "unat off \<le> length st"
  shows "ring_buf_get_buf_at r off =
    Some (take (length (rb_data r) - unat off mod length (rb_data r)) (drop (unat off) st))"
  using assms carries_high [OF assms(1)] by (simp add: get_buf_at_spec carries_def)

lemma unat_range_len:
  "a \<le> b \<Longrightarrow> unat b < 2 ^ 62 \<Longrightarrow> unat (b - a + 1 :: u64) = unat b + 1 - unat a"
  by (simp add: unat_add_u64 unat_sub_u64 u64_nat)

text \<open>A stored range comes in at most two pieces: the second starts at the beginning of the block.\<close>

lemma frame_loop_range:
  assumes c: "carries r st" and rng: "a \<le> b" "rb_low r \<le> unat a" "unat b < length st"
  defines "n \<equiv> unat b + 1 - unat a"
  shows "\<exists>iov. frame_loop 2 r a (b - a + 1) 0 [] = Some (Inr (b - a + 1, iov))
    \<and> concat iov = take n (drop (unat a) st) \<and> length iov \<le> 2 \<and> [] \<notin> set iov"
proof -
  let ?A = "length (rb_data r)" and ?a = "unat a"
  define mx where "mx = b - a + 1"
  have lim: "length st \<le> 2 ^ 62" by (rule carries_limit [OF c])
  have n: "0 < n" "?a + n \<le> length st" using rng by (auto simp: n_def u64_nat)
  have m: "unat mx = n"
    using rng lim by (simp add: mx_def n_def unat_range_len)
  have A: "n \<le> ?A" "0 < ?A"
    using c carries_high [OF c] rng n unfolding carries_def rb_ok_def by linarith+
  define l where "l = ?A - ?a mod ?A"
  have l: "0 < l" using A by (simp add: l_def)
  define src where "src = take l (drop ?a st)"
  have src: "ring_buf_get_buf_at r (a + 0) = Some src" "src \<noteq> []" "length src < 2 ^ 64"
    using carries_read [OF c rng(2)] n l lim by (auto simp: src_def l_def)
  have finish: "frame_loop k r a mx mx iov = Some (Inr (mx, iov))" for k iov
    by (subst frame_loop.simps) simp
  have on: "of_nat n = mx" using m lim n by (simp add: u64_eq_nat unat_of_nat_u64 del: unat_of_nat)
  have first: "frame_loop 2 r a mx 0 [] =
      frame_loop 1 r a mx (of_nat (length (take n src))) [take n src]"
    using frame_loop_step [of 0 mx r a src 1 "[]"] src n m by (simp add: numeral_2_eq_2)
  have "\<exists>iov. frame_loop 2 r a mx 0 [] = Some (Inr (mx, iov))
    \<and> concat iov = take n (drop ?a st) \<and> length iov \<le> 2 \<and> [] \<notin> set iov" (is ?ex)
  proof (cases "n \<le> l")
    case True
    then have p: "take n src = take n (drop ?a st)" "length (take n src) = n"
      using n by (auto simp: src_def min_def)
    then show ?ex using n by (simp add: first on finish)
  next
    case False
    then have p: "take n src = src" "length src = l" using n by (auto simp: src_def)
    have "?a + l = ?a div ?A * ?A + ?A"
      using div_mult_mod_eq [of ?a ?A] mod_less_divisor [OF A(2), of ?a] unfolding l_def by linarith
    then have z: "(?a + l) mod ?A = 0" by simp
    have ol: "unat (of_nat l :: u64) = l" "unat (a + of_nat l) = ?a + l"
      using False n lim by (auto simp: unat_of_nat_u64 unat_add_of_nat_u64 simp del: unat_of_nat)
    define src2 where "src2 = take ?A (drop (?a + l) st)"
    have src2: "ring_buf_get_buf_at r (a + of_nat l) = Some src2" "src2 \<noteq> []" "length src2 \<le> length st"
      using carries_read [OF c, of "a + of_nat l"] rng(2) False n A z by (auto simp: ol src2_def)
    have piece: "take (n - l) src2 = take (n - l) (drop (?a + l) st)" "length (take (n - l) src2) = n - l"
      using A False n by (auto simp: src2_def min_def)
    have "of_nat l + of_nat (n - l) = mx" using False on by (simp flip: of_nat_add)
    then have "frame_loop 1 r a mx (of_nat l) [src] = Some (Inr (mx, [src, take (n - l) src2]))"
      using frame_loop_step [of "of_nat l" mx r a src2 0 "[src]"] src2 False m lim n ol(1) piece(2)
      by (simp add: finish del: unat_of_nat)
    moreover have "src @ take (n - l) src2 = take n (drop ?a st)"
      using take_add [of l "n - l" "drop ?a st"] False piece(1) by (simp add: src_def add.commute)
    ultimately show ?ex using first p src(2) src2(2) False by auto
  qed
  then show ?thesis by (simp add: mx_def)
qed


section \<open>Acknowledging\<close>

text \<open>When everything below \<open>m\<close> is in the set, its first range covers it: the ranges do not border.\<close>

lemma uset_bounds:
  "uset_inv s \<Longrightarrow> r \<in> set s \<Longrightarrow> r_start r \<in> uset_elems s \<and> r_end r \<in> uset_elems s"
  using uset_inv_wf [of s r] by (auto simp: uset_elems_def range_elems_def)

lemma first_range_covers:
  assumes inv: "uset_inv (h # t)" "uset_gaps (h # t)" and low: "\<forall>v. unat v < m \<longrightarrow> v \<in> uset_elems (h # t)"
    and m: "0 < m" "m \<le> 2 ^ 62"
  shows "r_start h = 0 \<and> m \<le> unat (r_end h) + 1"
proof
  have "0 \<in> uset_elems (h # t)" using low m by simp
  then obtain r where r: "r \<in> set (h # t)" "r_start r = 0"
    by (auto simp: uset_elems_def range_elems_def)
  then show s: "r_start h = 0" using inv(1) by auto
  show "m \<le> unat (r_end h) + 1"
  proof (rule ccontr)
    assume "\<not> m \<le> unat (r_end h) + 1"
    then have e: "unat (r_end h) + 1 < m" by simp
    then have "r_end h < UINT64_MAX" using m(2) by (simp add: u64_nat)
    then have u: "unat (r_end h + 1) = unat (r_end h) + 1" by (rule unat_succ_less)
    then have "r_end h + 1 \<in> uset_elems (h # t)" using low e by simp
    moreover have "r_end h + 1 \<notin> range_elems h" using u by (auto simp: range_elems_def u64_nat)
    ultimately obtain r where r: "r \<in> set t" "r_start r \<le> r_end h + 1"
      by (auto simp: uset_elems_def range_elems_def)
    moreover have "r_end h < r_start r" using inv(1) r(1) by simp
    ultimately have "borders h r" using u by (auto simp: borders_def u64_nat u64_eq_nat)
    then show False using inv(2) r(1) by (auto simp: uset_gaps_def)
  qed
qed

lemma qss_cull_ok:
  assumes ok: "ss_ok q st"
  shows "\<exists>q'. qss_cull q = Some q' \<and> ss_ok q' st"
proof (cases "acked_set q")
  case Nil
  then show ?thesis using ok by (simp add: qss_cull_def)
next
  case (Cons h t)
  let ?r = "ss_ring q" and ?e = "unat (r_end h)"
  note s = ok [unfolded ss_ok_def Cons]
  have c: "carries ?r st" "rb_ok ?r" using s by (auto simp: carries_def)
  have h: "r_start h \<le> r_end h" using s by simp
  have "r_end h \<in> offsets st" using s h by (auto simp: range_elems_def)
  then have e: "?e < length st" by (simp add: offsets_def)
  have low: "0 < rb_low ?r \<Longrightarrow> r_start h = 0 \<and> rb_low ?r \<le> ?e + 1"
    using first_range_covers [of h t "rb_low ?r"] s c carries_limit [OF c(1)]
    by (auto simp: carries_def)
  then have "\<exists>r'. ring_buf_cpop_range ?r (r_start h) (r_end h) (ss_cleanse q) = Some r' \<and> rb_ok r' \<and>
      (if unat (r_start h) \<le> rb_low ?r
       then rb_low r' = ?e + 1 \<and> rb_bytes r' = drop (?e + 1 - rb_low ?r) (rb_bytes ?r) else r' = ?r)"
    using ring.cull_law [OF c(2) h] e carries_limit [OF c(1)] by (cases "rb_low ?r = 0") auto
  then obtain r' where r': "ring_buf_cpop_range ?r (r_start h) (r_end h) (ss_cleanse q) = Some r'" "rb_ok r'"
    "if unat (r_start h) \<le> rb_low ?r
     then rb_low r' = ?e + 1 \<and> rb_bytes r' = drop (?e + 1 - rb_low ?r) (rb_bytes ?r) else r' = ?r"
    by blast
  have "carries r' st \<and> (\<forall>v. unat v < rb_low r' \<longrightarrow> v \<in> uset_elems (h # t))"
  proof (cases "unat (r_start h) \<le> rb_low ?r")
    case True
    then have "r_start h = 0" using low by (cases "rb_low ?r = 0") (auto simp: unat_eq_zero)
    then have "v \<in> range_elems h" if "unat v < ?e + 1" for v
      using that by (simp add: range_elems_def u64_nat)
    moreover have "rb_low ?r \<le> ?e + 1" using low by (cases "rb_low ?r = 0") auto
    ultimately show ?thesis using True r' c e by (auto simp: carries_def)
  next
    case False
    then show ?thesis using r' s by auto
  qed
  then show ?thesis using ok r'(1) Cons by (auto simp: qss_cull_def ss_ok_def)
qed

text \<open>Acknowledging bytes in flight; without memory nothing changes.\<close>

lemma not_touches:
  assumes "uset_inv s" "r_start rng \<le> r_end rng" "range_elems rng \<inter> uset_elems s = {}"
  shows "\<not> touches s rng"
proof
  assume "touches s rng"
  then obtain z where z: "z \<in> set s" "uint_range_overlaps z rng" by (auto simp: touches_def)
  then have "max (r_start z) (r_start rng) \<in> range_elems z \<inter> range_elems rng"
    using assms(1,2) uset_inv_wf [of s z] by (auto simp: overlaps_iff range_elems_def)
  with z(1) assms(3) show False by (auto simp: uset_elems_def)
qed

lemma mark_acked_ok:
  assumes ok: "ss_ok q st" and rng: "a \<le> b" "{a..b} \<subseteq> in_flight q"
  shows "\<exists>res q'. ossl_quic_sstream_mark_acked mem q a b = Some (res, q') \<and> ss_ok q' st \<and> (mem \<longrightarrow> res)
    \<and> new_set q' = new_set q \<and> have_final_size q' = have_final_size q
    \<and> acked_final_size q' = acked_final_size q
    \<and> uset_elems (acked_set q') = uset_elems (acked_set q) \<union> (if res then {a..b} else {})"
proof -
  let ?rng = "\<lparr>r_start = a, r_end = b\<rparr>"
  define res where "res = ossl_uint_set_insert mem (acked_set q) ?rng"
  note s = ok [unfolded ss_ok_def]
  have fl: "{a..b} \<subseteq> offsets st - uset_elems (new_set q) - uset_elems (acked_set q)"
    using rng(2) in_flight_offsets [of q st] s by auto
  have ins: "insert_result mem ?rng (acked_set q) res"
    using insert_spec [of "acked_set q" ?rng mem] s rng(1) by (simp add: res_def)
  have nt: "\<not> touches (acked_set q) ?rng"
    using s rng(1) fl by (intro not_touches) (auto simp: range_elems_def)
  define q1 where "q1 = q\<lparr>acked_set := snd res\<rparr>"
  have q1: "ss_ok q1 st"
    using s ins nt fl by (auto simp: q1_def ss_ok_def insert_result_def gaps_result_def range_elems_def)
  have run: "ossl_quic_sstream_mark_acked mem q a b =
      (if fst res then map_option (Pair True) (qss_cull q1) else Some (False, q1))"
    by (simp add: ossl_quic_sstream_mark_acked_def res_def q1_def split: prod.split)
  show ?thesis
  proof (cases "fst res")
    case True
    obtain q2 where q2: "qss_cull q1 = Some q2" "ss_ok q2 st" using qss_cull_ok [OF q1] by blast
    have "new_set q2 = new_set q1" "acked_set q2 = acked_set q1" "have_final_size q2 = have_final_size q1"
      "acked_final_size q2 = acked_final_size q1"
      using q2(1) by (auto simp: qss_cull_def split: list.splits)
    then show ?thesis
      using True ins q2 by (intro exI [of _ True]) (simp add: run q1_def insert_result_def range_elems_def)
  next
    case False
    moreover have "\<not> mem" "snd res = acked_set q" using ins False by (auto simp: insert_result_def)
    ultimately show ?thesis
      using q1 unfolding run by (intro exI [of _ False]) (simp add: q1_def)
  qed
qed

lemma mark_lost_ok:
  assumes ok: "ss_ok q st" and rng: "a \<le> b" "{a..b} \<subseteq> in_flight q"
  shows "ss_ok (snd (ossl_quic_sstream_mark_lost mem q a b)) st"
proof -
  let ?rng = "\<lparr>r_start = a, r_end = b\<rparr>"
  have "{a..b} \<subseteq> offsets st - uset_elems (acked_set q)"
    using rng(2) in_flight_offsets [of q st] ok by (auto simp: ss_ok_def)
  moreover have "insert_result mem ?rng (new_set q) (ossl_uint_set_insert mem (new_set q) ?rng)"
    using insert_spec [of "new_set q" ?rng mem] ok rng(1) by (simp add: ss_ok_def)
  ultimately show ?thesis
    using ok by (auto simp: ossl_quic_sstream_mark_lost_def ss_ok_def insert_result_def range_elems_def
        split: prod.split)
qed

lemma mark_transmitted_ok:
  assumes ok: "ss_ok q st" and rng: "a \<le> b"
  shows "\<exists>q'. ossl_quic_sstream_mark_transmitted True q a b = Some (True, q') \<and> ss_ok q' st
    \<and> q' = q\<lparr>new_set := new_set q'\<rparr> \<and> uset_elems (new_set q') = uset_elems (new_set q) - {a..b}"
proof -
  obtain s' where s': "ossl_uint_set_remove True (new_set q) \<lparr>r_start = a, r_end = b\<rparr> = Some (True, s')"
    "remove_result \<lparr>r_start = a, r_end = b\<rparr> (new_set q) s'"
    using remove_spec [of "new_set q" "\<lparr>r_start = a, r_end = b\<rparr>"] ok rng by (auto simp: ss_ok_def)
  then show ?thesis
    using ok by (auto simp: ossl_quic_sstream_mark_transmitted_def ss_ok_def remove_result_def range_elems_def)
qed

text \<open>Without memory a removal either ends in the NULL dereference or does the same.\<close>

lemma mark_transmitted_no_memory:
  assumes "ss_ok q st" "a \<le> b" "ossl_quic_sstream_mark_transmitted mem q a b = Some (res, q')"
  shows "ss_ok q' st"
proof -
  have "ossl_quic_sstream_mark_transmitted True q a b = Some (res, q')"
    using assms remove_walk_no_memory [of "rev (new_set q)" "[]" "\<lparr>r_start = a, r_end = b\<rparr>"]
    by (cases mem) (auto simp: ossl_quic_sstream_mark_transmitted_def ossl_uint_set_remove_def ss_ok_def
        split: if_splits)
  with mark_transmitted_ok [OF assms(1,2)] show ?thesis by auto
qed

text \<open>The answer to whether everything is acknowledged relies on the ranges not bordering.\<close>

lemma all_acked_iff:
  assumes inv: "uset_inv (h # t)" "uset_gaps (h # t)" "uset_elems (h # t) \<subseteq> offsets st"
    and lim: "length st \<le> 2 ^ 62"
  shows "offsets st \<subseteq> uset_elems (h # t) \<longleftrightarrow> t = [] \<and> r_start h = 0 \<and> unat (r_end h) + 1 = length st"
proof
  have h: "unat (r_end h) < length st" using uset_bounds [of "h # t" h] inv by (auto simp: offsets_def)
  assume "offsets st \<subseteq> uset_elems (h # t)"
  then have cov: "r_start h = 0 \<and> length st \<le> unat (r_end h) + 1"
    using inv h lim by (intro first_range_covers [of h t]) (auto simp: offsets_def)
  moreover have "t = []"
  proof (rule ccontr)
    assume "t \<noteq> []"
    then obtain r where r: "r \<in> set t" by (cases t) auto
    then have "r_end h < r_start r" "r_start r \<in> offsets st" using inv uset_bounds [of "h # t" r] by auto
    with cov show False by (auto simp: offsets_def u64_nat)
  qed
  ultimately show "t = [] \<and> r_start h = 0 \<and> unat (r_end h) + 1 = length st" using h by simp
next
  assume "t = [] \<and> r_start h = 0 \<and> unat (r_end h) + 1 = length st"
  then show "offsets st \<subseteq> uset_elems (h # t)" by (auto simp: offsets_def range_elems_def u64_nat)
qed

lemma is_totally_acked_ok:
  assumes ok: "ss_ok q st"
  shows "ossl_quic_sstream_is_totally_acked q =
    Some (offsets st \<subseteq> uset_elems (acked_set q) \<and> (have_final_size q \<longrightarrow> acked_final_size q))"
proof -
  note s = ok [unfolded ss_ok_def]
  have c: "carries (ss_ring q) st" using s by blast
  have head: "unat (head_offset (ss_ring q)) = length st" using carries_high [OF c] by (simp add: rb_high_def)
  have lim: "length st \<le> 2 ^ 62" by (rule carries_limit [OF c])
  show ?thesis
  proof (cases "acked_set q")
    case Nil
    then show ?thesis using head
      by (auto simp: ossl_quic_sstream_is_totally_acked_def ossl_quic_sstream_get_cur_size_def offsets_def
          u64_eq_nat intro: exI [of _ 0])
  next
    case (Cons h t)
    have ne: "offsets st \<noteq> {}" using s Cons by (auto simp: range_elems_def)
    then have pos: "0 < length st" by (auto simp: offsets_def)
    have h: "r_start h \<le> r_end h" "unat (r_end h) < length st"
      using s Cons by (auto simp: range_elems_def offsets_def)
    have e: "unat (r_end h + 1) = unat (r_end h) + 1" using h(2) lim by (subst unat_add_u64) auto
    have all: "offsets st \<subseteq> uset_elems (acked_set q) \<longleftrightarrow> t = [] \<and> r_start h = 0 \<and> unat (r_end h) + 1 = length st"
      using all_acked_iff [of h t st] s Cons lim by simp
    show ?thesis unfolding all
      using head e h(2) pos Cons
      by (auto simp: ossl_quic_sstream_is_totally_acked_def ossl_quic_sstream_get_cur_size_def Let_def
          u64_nat u64_eq_nat split: list.splits)
  qed
qed

lemma get_stream_frame_ok:
  assumes ok: "ss_ok q st" and n: "2 \<le> num_iov"
  shows "\<exists>res. ossl_quic_sstream_get_stream_frame q skip hdr num_iov = Some res \<and>
    (case drop skip (new_set q) of
       [] \<Rightarrow> res = (if skip \<le> length (new_set q) \<and> have_final_size q \<and> \<not> sent_final_size q
                     then Some (hdr\<lparr>fs_offset := head_offset (ss_ring q), fs_len := 0, is_fin := True\<rparr>, [])
                     else None)
     | rng # _ \<Rightarrow> \<exists>iov. res = Some (hdr\<lparr>fs_offset := r_start rng, fs_len := r_end rng - r_start rng + 1,
           is_fin := have_final_size q \<and> unat (r_end rng) + 1 = length st\<rparr>, iov)
         \<and> concat iov = take (unat (r_end rng) + 1 - unat (r_start rng)) (drop (unat (r_start rng)) st)
         \<and> length iov \<le> 2 \<and> [] \<notin> set iov)"
proof (cases "drop skip (new_set q)")
  case Nil
  then show ?thesis using n by (auto simp: ossl_quic_sstream_get_stream_frame_def)
next
  case (Cons rng rest)
  note s = ok [unfolded ss_ok_def]
  have c: "carries (ss_ring q) st" using s by blast
  have "rng \<in> set (new_set q)" using Cons by (metis in_set_dropD list.set_intros(1))
  then have r: "r_start rng \<le> r_end rng" "range_elems rng \<subseteq> offsets st - uset_elems (acked_set q)"
    using s uset_inv_wf [of "new_set q" rng] by (auto simp: uset_elems_def)
  then have b: "unat (r_end rng) < length st" "r_start rng \<notin> uset_elems (acked_set q)"
    by (auto simp: range_elems_def offsets_def)
  have "rb_low (ss_ring q) \<le> unat (r_start rng)" using s b(2) by (meson not_le)
  then obtain iov where iov: "frame_loop 2 (ss_ring q) (r_start rng) (r_end rng - r_start rng + 1) 0 [] =
      Some (Inr (r_end rng - r_start rng + 1, iov))"
    "concat iov = take (unat (r_end rng) + 1 - unat (r_start rng)) (drop (unat (r_start rng)) st)"
    "length iov \<le> 2" "[] \<notin> set iov"
    using frame_loop_range [OF c r(1)] b(1) by blast
  have "r_start rng + (r_end rng - r_start rng + 1) = head_offset (ss_ring q) \<longleftrightarrow> unat (r_end rng) + 1 = length st"
  proof -
    have "unat (r_end rng + 1) = unat (r_end rng) + 1"
      using b(1) carries_limit [OF c] by (subst unat_add_u64) auto
    then show ?thesis using carries_high [OF c] by (simp add: u64_eq_nat rb_high_def)
  qed
  then show ?thesis using n Cons iov by (simp add: ossl_quic_sstream_get_stream_frame_def)
qed

end
