(* ===== verification/SendStream.thy ===== *)
theory SendStream
  imports SStream
begin

text \<open>
  The send stream as its users drive it: bytes are appended, frames are taken and reported as
  transmitted, and every byte in flight is eventually reported lost or acknowledged, once. The
  theory shows that in every state reached this way the frames carry the bytes that were appended,
  that nothing is undefined, and that sending goes on until everything is sent and acknowledged.
\<close>

text \<open>The steps of the sender apart from acknowledgements, with the bytes appended so far.\<close>

inductive sstream_step :: "quic_sstream \<Rightarrow> bytes \<Rightarrow> quic_sstream \<Rightarrow> bytes \<Rightarrow> bool" where
  append: "ossl_quic_sstream_append mem q buf = Some (res, n, q') \<Longrightarrow>
    sstream_step q st q' (st @ take (unat n) buf)"
| transmitted: "a \<le> b \<Longrightarrow> ossl_quic_sstream_mark_transmitted mem q a b = Some (res, q') \<Longrightarrow>
    sstream_step q st q' st"
| lost: "a \<le> b \<Longrightarrow> {a..b} \<subseteq> in_flight q \<Longrightarrow>
    ossl_quic_sstream_mark_lost mem q a b = (res, q') \<Longrightarrow> sstream_step q st q' st"
| fin: "sstream_step q st (ossl_quic_sstream_fin q) st"
| transmitted_fin: "sstream_step q st (snd (ossl_quic_sstream_mark_transmitted_fin q final_sz)) st"
| lost_fin: "sstream_step q st (snd (ossl_quic_sstream_mark_lost_fin q)) st"
| acked_fin: "sstream_step q st (snd (ossl_quic_sstream_mark_acked_fin q)) st"
| set_buffer_size: "block = None \<or> length (the block) = unat n \<Longrightarrow>
    ossl_quic_sstream_set_buffer_size block q n = Some (res, q') \<Longrightarrow> sstream_step q st q' st"
| set_cleanse: "sstream_step q st (ossl_quic_sstream_set_cleanse q c) st"

inductive sstream_reach :: "quic_sstream \<Rightarrow> bytes \<Rightarrow> bool" where
  create: "ossl_quic_sstream_new mem block n = Some (Some q) \<Longrightarrow>
    block = None \<or> length (the block) = unat n \<Longrightarrow> sstream_reach q []"
| step: "sstream_reach q st \<Longrightarrow> sstream_step q st q' st' \<Longrightarrow> sstream_reach q' st'"
| acked: "sstream_reach q st \<Longrightarrow> a \<le> b \<Longrightarrow> {a..b} \<subseteq> in_flight q \<Longrightarrow>
    ossl_quic_sstream_mark_acked mem q a b = Some (res, q') \<Longrightarrow> sstream_reach q' st"

lemma sstream_new_ok:
  assumes "ossl_quic_sstream_new mem block n = Some (Some q)" "block = None \<or> length (the block) = unat n"
  shows "ss_ok q []"
proof -
  obtain res r where r: "ring_buf_resize block ring_buf_init n = Some (res, r)" "rb_ok r" "rb_low r = 0"
      "rb_bytes r = []"
    using ring.resize_law [of ring_buf_init block n] ring.start_law assms(2) by auto
  with assms(1) show ?thesis
    by (auto simp: ossl_quic_sstream_new_def ss_ok_def carries_def offsets_def ossl_uint_set_init_def uset_gaps_def
        split: if_splits)
qed

lemma set_buffer_size_ok:
  assumes "ss_ok q st" "block = None \<or> length (the block) = unat n"
  shows "\<exists>res q'. ossl_quic_sstream_set_buffer_size block q n = Some (res, q') \<and> ss_ok q' st"
proof -
  have "rb_ok (ss_ring q)" using assms(1) by (simp add: ss_ok_def carries_def)
  from ring.resize_law [OF this assms(2)] assms(1) show ?thesis
    by (auto simp: ossl_quic_sstream_set_buffer_size_def ss_ok_def carries_def)
qed

lemma append_final: "have_final_size q \<Longrightarrow> ossl_quic_sstream_append mem q buf = Some (False, 0, q)"
  by (simp add: ossl_quic_sstream_append_def)

lemma step_ok: "sstream_step q st q' st' \<Longrightarrow> ss_ok q st \<Longrightarrow> ss_ok q' st'"
proof (induction rule: sstream_step.induct)
  case (append mem q buf res n q' st)
  then show ?case
    using append_spec [of q st mem buf] append_final [of q mem buf] by (cases "have_final_size q") auto
next
  case (transmitted a b mem q res q' st)
  then show ?case by (auto intro: mark_transmitted_no_memory)
next
  case (lost a b q mem res q' st)
  then show ?case using mark_lost_ok [of q st a b mem] by simp
next
  case (set_buffer_size block n q res q' st)
  then show ?case using set_buffer_size_ok [of q st block n] by auto
qed (auto simp: ss_ok_def ossl_quic_sstream_fin_def ossl_quic_sstream_mark_transmitted_fin_def
    ossl_quic_sstream_mark_lost_fin_def ossl_quic_sstream_mark_acked_fin_def ossl_quic_sstream_set_cleanse_def)

lemma reach_ok: "sstream_reach q st \<Longrightarrow> ss_ok q st"
proof (induction rule: sstream_reach.induct)
  case (create mem block n q)
  then show ?case by (rule sstream_new_ok)
next
  case (step q st q' st')
  then show ?case using step_ok by blast
next
  case (acked q st a b mem res q')
  then show ?case using mark_acked_ok [of q st a b mem] by auto
qed


section \<open>Sending everything\<close>

text \<open>A sender that takes the next frame and reports it as transmitted, up to \<open>n\<close> times or until there is
  no frame with data; the frames it sent.\<close>

fun send_frames ::
    "nat \<Rightarrow> frame_stream \<Rightarrow> quic_sstream \<Rightarrow> ((frame_stream \<times> bytes list) list \<times> quic_sstream) option" where
  "send_frames 0 hdr q = Some ([], q)"
| "send_frames (Suc n) hdr q =
     (case ossl_quic_sstream_get_stream_frame q 0 hdr 2 of
        None \<Rightarrow> None
      | Some None \<Rightarrow> Some ([], q)
      | Some (Some (h, iov)) \<Rightarrow>
        if fs_len h = 0 then Some ([], q)
        else
          (case ossl_quic_sstream_mark_transmitted True q (fs_offset h) (fs_offset h + fs_len h - 1) of
             None \<Rightarrow> None
           | Some (_, q) \<Rightarrow> map_option (\<lambda>(fs, q). ((h, iov) # fs, q)) (send_frames n hdr q)))"

text \<open>Removing the whole first range leaves the other ranges.\<close>

lemma remove_walk_first:
  "uset_inv (h # rev zs) \<Longrightarrow> remove_walk mem h (zs @ [h]) post = Some (rev zs @ post)"
proof (induction zs arbitrary: post)
  case Nil
  then show ?case by (auto simp: not_less)
next
  case (Cons z zs)
  have "r_start h \<le> r_end h" "r_end h < r_start z" "r_start z \<le> r_end z"
    using Cons.prems by (auto simp: uset_inv_wf)
  then have "\<not> r_end z < r_start h" "\<not> r_end z \<le> r_end h" "\<not> r_start z \<le> r_end h" "\<not> r_start z < r_start h"
    by order+
  then show ?case using Cons by simp
qed

lemma remove_first:
  "uset_inv (h # t) \<Longrightarrow> ossl_uint_set_remove mem (h # t) h = Some (True, t)"
  using remove_walk_first [of h "rev t" mem "[]"] by (simp add: ossl_uint_set_remove_def)

text \<open>The length of a frame is that of its data, which is not empty, and only the last frame has the end of
  stream flag.\<close>

definition sent_frame_wf :: "bytes \<Rightarrow> bool \<Rightarrow> frame_stream \<times> bytes list \<Rightarrow> bool" where
  "sent_frame_wf st final f \<longleftrightarrow>
     unat (fs_len (fst f)) = length (concat (snd f)) \<and> concat (snd f) \<noteq> []
     \<and> (is_fin (fst f) \<longrightarrow> final \<and> unat (fs_offset (fst f)) + unat (fs_len (fst f)) = length st)"

lemma send_frames_all:
  assumes "ss_ok q st"
  shows "\<exists>fs q'. send_frames (length (new_set q)) hdr q = Some (fs, q') \<and> ss_ok q' st
    \<and> q' = q\<lparr>new_set := []\<rparr> \<and> length fs = length (new_set q)
    \<and> (\<forall>f \<in> set fs. sent_frame_wf st (have_final_size q) f)
    \<and> map (\<lambda>(h, iov). (fs_offset h, concat iov)) fs =
        map (\<lambda>r. (r_start r, take (unat (r_end r) + 1 - unat (r_start r)) (drop (unat (r_start r)) st))) (new_set q)"
  using assms
proof (induction "new_set q" arbitrary: q)
  case Nil
  then show ?case by (cases q) auto
next
  case (Cons rng t)
  define q1 where "q1 = q\<lparr>new_set := t\<rparr>"
  have new: "new_set q = rng # t" using Cons.hyps(2) by simp
  obtain h iov where get: "ossl_quic_sstream_get_stream_frame q 0 hdr 2 = Some (Some (h, iov))"
    "fs_offset h = r_start rng" "fs_len h = r_end rng - r_start rng + 1"
    "is_fin h \<longleftrightarrow> have_final_size q \<and> unat (r_end rng) + 1 = length st"
    "concat iov = take (unat (r_end rng) + 1 - unat (r_start rng)) (drop (unat (r_start rng)) st)"
    using get_stream_frame_ok [OF Cons.prems, of 2 0 hdr] new by auto
  have inv: "uset_inv (rng # t)" using Cons.prems new by (simp add: ss_ok_def)
  have "ossl_quic_sstream_mark_transmitted True q (r_start rng) (r_end rng) = Some (True, q1)"
    using remove_first [OF inv, of True] new by (simp add: ossl_quic_sstream_mark_transmitted_def q1_def)
  moreover have "r_start rng + (r_end rng - r_start rng + 1) - 1 = r_end rng" by simp
  moreover have rng: "unat (r_end rng) < length st" "unat (r_start rng) \<le> unat (r_end rng)" "length st \<le> 2 ^ 62"
    using Cons.prems uset_bounds [of "new_set q" rng] carries_limit [of "ss_ring q" st] new
    by (auto simp: ss_ok_def offsets_def u64_nat)
  then have len: "unat (fs_len h) = unat (r_end rng) + 1 - unat (r_start rng)"
    unfolding get(3) by (intro unat_range_len) (auto simp: u64_nat)
  moreover have "fs_len h \<noteq> 0" unfolding u64_eq_nat len using rng(2) by simp
  moreover have "sent_frame_wf st (have_final_size q) (h, iov)"
    unfolding sent_frame_wf_def fst_conv snd_conv len get(2,4,5) using rng by auto
  moreover have "ss_ok q1 st" using Cons.prems new by (auto simp: ss_ok_def q1_def)
  ultimately show ?case using Cons.hyps(1) [of q1] get new by (auto simp: q1_def)
qed

lemma frame_carries:
  assumes ok: "ss_ok q st" and head: "unat (head_offset (ss_ring q)) = length st"
  shows "\<exists>res. ossl_quic_sstream_get_stream_frame q skip hdr 2 = Some res
    \<and> (\<forall>h iov. res = Some (h, iov) \<longrightarrow>
         length iov \<le> 2 \<and> concat iov = take (unat (fs_len h)) (drop (unat (fs_offset h)) st)
         \<and> unat (fs_offset h) + unat (fs_len h) \<le> length st
         \<and> (\<forall>v. fs_offset h \<le> v \<and> unat v < unat (fs_offset h) + unat (fs_len h) \<longrightarrow> v \<in> uset_elems (new_set q))
         \<and> (is_fin h \<longleftrightarrow> have_final_size q \<and> unat (fs_offset h) + unat (fs_len h) = length st))"
proof (cases "drop skip (new_set q)")
  case Nil
  then show ?thesis
    using get_stream_frame_ok [OF ok, of 2 skip hdr] head by (auto simp: u64_nat split: if_splits)
next
  case (Cons rng rest)
  have "rng \<in> set (new_set q)" using Cons by (metis in_set_dropD list.set_intros(1))
  then have rng: "r_start rng \<le> r_end rng" "range_elems rng \<subseteq> uset_elems (new_set q)" "r_end rng \<in> offsets st"
    using ok uset_bounds [of "new_set q" rng] uset_inv_wf [of "new_set q" rng]
    by (auto simp: ss_ok_def uset_elems_def)
  then have e: "unat (r_end rng) < length st" by (simp add: offsets_def)
  then have len: "unat (r_end rng - r_start rng + 1) = unat (r_end rng) + 1 - unat (r_start rng)"
    using ok rng(1) carries_limit [of "ss_ring q" st] by (intro unat_range_len) (auto simp: ss_ok_def)
  have "v \<in> uset_elems (new_set q)"
    if "r_start rng \<le> v" "unat v < unat (r_start rng) + (unat (r_end rng) + 1 - unat (r_start rng))" for v
    using that rng(1,2) by (auto simp: range_elems_def u64_nat)
  then show ?thesis
    using get_stream_frame_ok [OF ok, of 2 skip hdr] Cons e rng(1) by (auto simp: len u64_nat)
qed


text \<open>Cutting the pieces of a frame down to a length.\<close>

lemma adjust_iov_loop_concat:
  "unat running + length (concat iov) < 2 ^ 64 \<Longrightarrow>
     concat (adjust_iov_loop len running iov) = take (unat len - unat running) (concat iov)"
proof (induction iov arbitrary: running)
  case (Cons b iov)
  have sum: "unat (running + of_nat (length b)) = unat running + length b"
    using Cons.prems by (intro unat_add_of_nat_u64) simp
  have ih: "concat (adjust_iov_loop len (running + of_nat (length b)) iov) =
      take (unat len - (unat running + length b)) (concat iov)"
    using Cons.IH [of "running + of_nat (length b)"] Cons.prems sum by simp
  show ?case
    using sum by (auto simp: Let_def ih u64_nat unat_sub_u64 not_le)
qed simp

lemma adjust_iov_concat:
  "length (concat iov) < 2 ^ 64 \<Longrightarrow>
     concat (ossl_quic_sstream_adjust_iov len iov) = take (unat len) (concat iov)"
  by (simp add: ossl_quic_sstream_adjust_iov_def adjust_iov_loop_concat)

text \<open>A stream of four bytes: two sent, the first of them acknowledged.\<close>

definition sample_sstream :: quic_sstream where
  "sample_sstream = \<lparr>ss_ring = \<lparr>rb_data = [1, 2, 3, 4, 0], head_offset = 4, ctail_offset = 1\<rparr>,
     new_set = [\<lparr>r_start = 2, r_end = 3\<rparr>], acked_set = [\<lparr>r_start = 0, r_end = 0\<rparr>],
     have_final_size = False, sent_final_size = False, acked_final_size = False, ss_cleanse = False\<rparr>"

lemma sample_reach: "sstream_reach sample_sstream [1, 2, 3, 4]"
proof -
  let ?q = "\<lambda>d h c ns as. \<lparr>ss_ring = \<lparr>rb_data = d, head_offset = h, ctail_offset = c\<rparr>,
    new_set = ns, acked_set = as, have_final_size = False, sent_final_size = False,
    acked_final_size = False, ss_cleanse = False\<rparr>"
  have "ossl_quic_sstream_new True (Some [0, 0, 0, 0, 0]) 5 = Some (Some (?q [0, 0, 0, 0, 0] 0 0 [] []))"
    by code_simp
  then have 1: "sstream_reach (?q [0, 0, 0, 0, 0] 0 0 [] []) []"
    by (rule sstream_reach.create) simp
  have "ossl_quic_sstream_append True (?q [0, 0, 0, 0, 0] 0 0 [] []) [1, 2, 3, 4] =
      Some (True, 4, ?q [1, 2, 3, 4, 0] 4 0 [\<lparr>r_start = 0, r_end = 3\<rparr>] [])"
    by (simp add: ossl_quic_sstream_append_def append_loop.simps ring_buf_push_eval
        ossl_uint_set_insert_def create_set_item_def)
  from sstream_reach.step [OF 1 sstream_step.append [OF this]]
  have 2: "sstream_reach (?q [1, 2, 3, 4, 0] 4 0 [\<lparr>r_start = 0, r_end = 3\<rparr>] []) [1, 2, 3, 4]" by simp
  have "ossl_quic_sstream_mark_transmitted True (?q [1, 2, 3, 4, 0] 4 0 [\<lparr>r_start = 0, r_end = 3\<rparr>] []) 0 1 =
      Some (True, ?q [1, 2, 3, 4, 0] 4 0 [\<lparr>r_start = 2, r_end = 3\<rparr>] [])"
    by code_simp
  from sstream_reach.step [OF 2 sstream_step.transmitted [OF _ this]]
  have 3: "sstream_reach (?q [1, 2, 3, 4, 0] 4 0 [\<lparr>r_start = 2, r_end = 3\<rparr>] []) [1, 2, 3, 4]" by simp
  have run: "ossl_quic_sstream_mark_acked True (?q [1, 2, 3, 4, 0] 4 0 [\<lparr>r_start = 2, r_end = 3\<rparr>] []) 0 0 =
      Some (True, sample_sstream)"
    unfolding sample_sstream_def by code_simp
  have fl: "{0..0} \<subseteq> in_flight (?q [1, 2, 3, 4, 0] 4 0 [\<lparr>r_start = 2, r_end = 3\<rparr>] [])"
    by (simp add: in_flight_def ossl_quic_sstream_get_cur_size_def range_elems_def)
  show ?thesis by (rule sstream_reach.acked [OF 3 order_refl fl run])
qed


section \<open>Properties\<close>

text \<open>C8. In every state a sender can reach, appending and acknowledging are defined whatever memory
  is available; the documented invariant holds, no byte is both to be sent and acknowledged; and
  every frame handed out, for any number of frames skipped, carries in at most two pieces exactly
  the appended bytes at its offset, all of them bytes still to be sent, with the end-of-stream flag
  exactly when the stream is finished and the frame reaches its end.\<close>

theorem sstream_frames:
  assumes "sstream_reach q st"
  shows "unat (ossl_quic_sstream_get_cur_size q) = length st
    \<and> uset_elems (new_set q) \<inter> uset_elems (acked_set q) = {}
    \<and> (\<forall>mem buf. ossl_quic_sstream_append mem q buf \<noteq> None)
    \<and> (\<forall>mem a b. a \<le> b \<and> {a..b} \<subseteq> in_flight q \<longrightarrow> ossl_quic_sstream_mark_acked mem q a b \<noteq> None)
    \<and> (\<forall>skip hdr. \<exists>res. ossl_quic_sstream_get_stream_frame q skip hdr 2 = Some res
        \<and> (\<forall>h iov. res = Some (h, iov) \<longrightarrow>
             length iov \<le> 2 \<and> concat iov = take (unat (fs_len h)) (drop (unat (fs_offset h)) st)
             \<and> unat (fs_offset h) + unat (fs_len h) \<le> length st
             \<and> (\<forall>v. fs_offset h \<le> v \<and> unat v < unat (fs_offset h) + unat (fs_len h)
                      \<longrightarrow> v \<in> uset_elems (new_set q))
             \<and> (is_fin h \<longleftrightarrow> have_final_size q \<and> unat (fs_offset h) + unat (fs_len h) = length st)))"
proof -
  have ok: "ss_ok q st" using assms by (rule reach_ok)
  have c: "carries (ss_ring q) st" using ok by (simp add: ss_ok_def)
  have head: "unat (head_offset (ss_ring q)) = length st" using carries_high [OF c] by (simp add: rb_high_def)
  have "ossl_quic_sstream_append mem q buf \<noteq> None" for mem buf
    using append_spec [OF ok, of mem buf] append_final [of q mem buf] by (cases "have_final_size q") auto
  moreover have "ossl_quic_sstream_mark_acked mem q a b \<noteq> None" if "a \<le> b" "{a..b} \<subseteq> in_flight q" for mem a b
    using mark_acked_ok [OF ok that, of mem] by auto
  moreover note frame_carries [OF ok head]
  ultimately show ?thesis
    using ok head by (auto simp: ss_ok_def ossl_quic_sstream_get_cur_size_def)
qed

theorem sstream_frames_witness:
  "sstream_reach sample_sstream [1, 2, 3, 4]
   \<and> ossl_quic_sstream_mark_acked False sample_sstream 1 1 \<noteq> None
   \<and> uset_elems (new_set sample_sstream) \<inter> uset_elems (acked_set sample_sstream) = {}"
proof -
  have "{1..1} \<subseteq> in_flight sample_sstream"
    by (simp add: in_flight_def ossl_quic_sstream_get_cur_size_def range_elems_def sample_sstream_def u64_nat)
  then show ?thesis using sstream_frames [OF sample_reach] sample_reach by simp
qed

text \<open>C30. The stream reports that everything is acknowledged exactly when every byte appended so far is, and
  the end of the stream too if it was set; the assertion in that function never fails.\<close>

theorem sstream_totally_acked:
  assumes "sstream_reach q st"
  shows "ossl_quic_sstream_is_totally_acked q =
    Some ((\<forall>v. unat v < length st \<longrightarrow> ossl_uint_set_query (acked_set q) v)
      \<and> (have_final_size q \<longrightarrow> acked_final_size q))"
proof -
  have "ss_ok q st" using assms by (rule reach_ok)
  moreover from this have "ossl_uint_set_query (acked_set q) v \<longleftrightarrow> v \<in> uset_elems (acked_set q)" for v
    by (simp add: query_spec ss_ok_def)
  ultimately show ?thesis by (auto simp: is_totally_acked_ok offsets_def)
qed

theorem sstream_totally_acked_witness:
  "sstream_reach sample_sstream [1, 2, 3, 4] \<and> ossl_quic_sstream_is_totally_acked sample_sstream = Some False"
proof -
  have "\<not> ossl_uint_set_query (acked_set sample_sstream) 2" "unat (2 :: u64) < length [1, 2, 3, 4 :: u8]"
    unfolding sample_sstream_def by (code_simp, simp)
  then show ?thesis using sstream_totally_acked [OF sample_reach] sample_reach by auto
qed

text \<open>C10. Sending makes progress and comes to an end: from every reachable state, taking frames and reporting
  them as transmitted sends every byte that is to be sent, in as many frames as there are ranges to
  send and each byte with its value in the stream, and leaves nothing but bytes in flight.\<close>

theorem sstream_sends_everything:
  assumes "sstream_reach q st"
  shows "\<exists>fs q'. send_frames (length (new_set q)) hdr q = Some (fs, q')
    \<and> new_set q' = [] \<and> length fs = length (new_set q)
    \<and> in_flight q' = in_flight q \<union> uset_elems (new_set q)
    \<and> (\<forall>v \<in> uset_elems (new_set q). \<exists>(h, iov) \<in> set fs. fs_offset h \<le> v
         \<and> unat v - unat (fs_offset h) < length (concat iov)
         \<and> concat iov ! (unat v - unat (fs_offset h)) = st ! unat v)"
proof -
  have ok: "ss_ok q st" using assms by (rule reach_ok)
  obtain fs q' where s: "send_frames (length (new_set q)) hdr q = Some (fs, q')" "ss_ok q' st"
    "q' = q\<lparr>new_set := []\<rparr>" "length fs = length (new_set q)"
    and fs: "map (\<lambda>(h, iov). (fs_offset h, concat iov)) fs =
      map (\<lambda>r. (r_start r, take (unat (r_end r) + 1 - unat (r_start r)) (drop (unat (r_start r)) st))) (new_set q)"
    using send_frames_all [OF ok, of hdr] by auto
  have "\<exists>(h, iov) \<in> set fs. fs_offset h \<le> v \<and> unat v - unat (fs_offset h) < length (concat iov)
      \<and> concat iov ! (unat v - unat (fs_offset h)) = st ! unat v" if v: "v \<in> uset_elems (new_set q)" for v
  proof -
    obtain r where r: "r \<in> set (new_set q)" "r_start r \<le> v" "v \<le> r_end r"
      using v by (auto simp: uset_elems_def range_elems_def)
    then have "(r_start r, take (unat (r_end r) + 1 - unat (r_start r)) (drop (unat (r_start r)) st))
        \<in> set (map (\<lambda>(h, iov). (fs_offset h, concat iov)) fs)"
      unfolding fs by auto
    then obtain h iov where h: "(h, iov) \<in> set fs" "fs_offset h = r_start r"
      "concat iov = take (unat (r_end r) + 1 - unat (r_start r)) (drop (unat (r_start r)) st)"
      by auto
    have "r_end r \<in> offsets st" using ok r(1) uset_bounds [of "new_set q" r] by (auto simp: ss_ok_def)
    then show ?thesis using h r(2,3) by (intro bexI [OF _ h(1)]) (auto simp: offsets_def u64_nat)
  qed
  moreover have "in_flight q' = in_flight q \<union> uset_elems (new_set q)"
    using ok s(2,3) by (auto simp: in_flight_offsets ss_ok_def)
  ultimately show ?thesis using s by auto
qed

theorem sstream_sends_everything_witness:
  "sstream_reach sample_sstream [1, 2, 3, 4] \<and>
   (\<exists>fs q'. send_frames 1 \<lparr>fs_stream_id = 0, fs_offset = 0, fs_len = 0, fs_data = None,
      has_explicit_len = True, is_fin = False\<rparr> sample_sstream = Some (fs, q') \<and> new_set q' = [] \<and> length fs = 1)"
proof -
  have "length (new_set sample_sstream) = 1" by (simp add: sample_sstream_def)
  then show ?thesis
    using sstream_sends_everything [OF sample_reach, of "\<lparr>fs_stream_id = 0, fs_offset = 0, fs_len = 0,
        fs_data = None, has_explicit_len = True, is_fin = False\<rparr>"] sample_reach
    by auto
qed

end
