(* ===== verification/SFrameList.thy ===== *)
theory SFrameList
  imports UintSet RingWindow
begin

text \<open>
  The list of received stream frames (\<open>ssl/quic/quic_sf_list.c\<close>): frames in the order of their offsets,
  which may overlap, with the data of each frame or, once it was moved to the ring buffer, without.
  The doubly linked list is the list of its frames; \<open>num_frames\<close> is its length. The end of a range is
  exclusive here. A failed \<open>assert\<close> or \<open>ossl_assert\<close> is the outcome \<open>None\<close>. A frame owns
  its bytes as a value: the references to the packets that hold the data, their release and the
  overwriting of the data in \<open>stream_frame_free\<close> are not modelled, so a pointer to the data of a frame
  that was freed cannot be told from a valid one.

  The theory shows that the list implements the set of received offsets: insertion is union, frames
  are dropped only below the read offset, and peeking walks over the bytes up to the first gap.
\<close>

section \<open>The model\<close>

record stream_frame =
  sf_range :: uint_range
  sf_data :: "bytes option"

record sframe_list =
  sfl_frames :: "stream_frame list"
  sfl_fin :: bool
  sfl_offset :: u64
  head_locked :: bool
  sfl_cleanse :: bool

abbreviation sf_start :: "stream_frame \<Rightarrow> u64" where "sf_start f \<equiv> r_start (sf_range f)"
abbreviation sf_end :: "stream_frame \<Rightarrow> u64" where "sf_end f \<equiv> r_end (sf_range f)"

definition stream_frame_new :: "mem_ok \<Rightarrow> uint_range \<Rightarrow> bytes option \<Rightarrow> stream_frame option" where
  "stream_frame_new mem rng data = (if mem then Some \<lparr>sf_range = rng, sf_data = data\<rparr> else None)"

definition ossl_sframe_list_init :: sframe_list where
  "ossl_sframe_list_init =
     \<lparr>sfl_frames = [], sfl_fin = False, sfl_offset = 0, head_locked = False, sfl_cleanse = False\<rparr>"

definition append_frame :: "mem_ok \<Rightarrow> sframe_list \<Rightarrow> uint_range \<Rightarrow> bytes option \<Rightarrow> bool \<times> sframe_list" where
  "append_frame mem fl rng data =
     (case stream_frame_new mem rng data of
        None \<Rightarrow> (False, fl)
      | Some new_frame \<Rightarrow> (True, fl\<lparr>sfl_frames := sfl_frames fl @ [new_frame]\<rparr>))"

definition sfl_curr_end :: "sframe_list \<Rightarrow> u64" where
  "sfl_curr_end fl = (if sfl_frames fl \<noteq> [] then sf_end (last (sfl_frames fl)) else sfl_offset fl)"

text \<open>The insertion in front of or among the frames that are there: \<open>pre\<close> are the frames that start before
  the new one, \<open>post\<close> the others.\<close>

definition sframe_insert_mid ::
    "mem_ok \<Rightarrow> sframe_list \<Rightarrow> uint_range \<Rightarrow> bytes option \<Rightarrow> (bool \<times> sframe_list) option" where
  "sframe_insert_mid mem fl rng data =
     (let pre = takeWhile (\<lambda>sf. sf_start sf < r_start rng) (sfl_frames fl);
          post = dropWhile (\<lambda>sf. sf_start sf < r_start rng) (sfl_frames fl)
      in if post = [] then None
         else if pre \<noteq> [] \<and> sf_end (last pre) \<ge> r_end rng then Some (True, fl)
         else
           (case stream_frame_new mem rng data of
              None \<Rightarrow> Some (False, fl)
            | Some new_frame \<Rightarrow>
              (let rest = dropWhile (\<lambda>sf. sf_end sf \<le> r_end rng) post in
               if rest \<noteq> [] \<and> pre \<noteq> [] \<and> sf_start (hd rest) \<le> sf_end (last pre)
               then Some (True, fl\<lparr>sfl_frames := pre @ rest\<rparr>)
               else Some (True, fl\<lparr>sfl_frames := pre @ new_frame # rest\<rparr>))))"

definition ossl_sframe_list_insert ::
    "mem_ok \<Rightarrow> sframe_list \<Rightarrow> uint_range \<Rightarrow> bytes option \<Rightarrow> bool \<Rightarrow> (bool \<times> sframe_list) option" where
  "ossl_sframe_list_insert mem fl rng data fin =
     (let curr_end = sfl_curr_end fl;
          done = (\<lambda>(ok, fl). (ok, if ok then fl\<lparr>sfl_fin := fin \<or> sfl_fin fl\<rparr> else fl))
      in if \<not> ((\<not> fin \<or> curr_end \<le> r_end rng) \<and> (\<not> sfl_fin fl \<or> curr_end \<ge> r_end rng)) then None
         else
           map_option done
             (if sfl_offset fl \<ge> r_end rng then Some (True, fl)
              else if sfl_frames fl = [] \<or> sf_start (last (sfl_frames fl)) < r_start rng then
                (if sfl_frames fl \<noteq> [] \<and> sf_end (last (sfl_frames fl)) \<ge> r_end rng then Some (True, fl)
                 else Some (append_frame mem fl rng data))
              else sframe_insert_mid mem fl rng data))"

text \<open>The iterator is a pointer to the frame returned last: the list of the frames from it on, and the empty
  list for NULL. The result has the range, the data from the start of the range on, and the flag for
  the end of the stream.\<close>

definition ossl_sframe_list_peek ::
    "sframe_list \<Rightarrow> stream_frame list \<Rightarrow>
     (bool \<times> stream_frame list \<times> uint_range \<times> bytes option \<times> bool) option" where
  "ossl_sframe_list_peek fl iter =
     (let (start, sf) = (case iter of [] \<Rightarrow> (sfl_offset fl, sfl_frames fl) | f # fs \<Rightarrow> (sf_end f, fs))
      in case sf of
           [] \<Rightarrow> Some (False, [], \<lparr>r_start = start, r_end = start\<rparr>, None, sfl_fin fl)
         | f # fs \<Rightarrow>
           if sf_start f > start then Some (False, [], \<lparr>r_start = start, r_end = start\<rparr>, None, False)
           else if \<not> start < sf_end f then None
           else Some (True, sf, \<lparr>r_start = start, r_end = sf_end f\<rparr>,
                      map_option (drop (unat (start - sf_start f))) (sf_data f),
                      fs = [] \<and> sfl_fin fl))"

definition ossl_sframe_list_drop_frames :: "sframe_list \<Rightarrow> u64 \<Rightarrow> sframe_list option" where
  "ossl_sframe_list_drop_frames fl limit =
     (if \<not> limit \<ge> sfl_offset fl \<or> \<not> (sfl_frames fl = [] \<or> limit \<le> sf_end (last (sfl_frames fl)))
         \<or> \<not> (sfl_frames fl \<noteq> [] \<or> limit = sfl_offset fl)
      then None
      else Some (fl\<lparr>sfl_offset := limit, sfl_frames := dropWhile (\<lambda>sf. sf_end sf \<le> limit) (sfl_frames fl),
                    head_locked := False\<rparr>))"

text \<open>\<open>None\<close> in place of the outputs: they are left as they are.\<close>

definition ossl_sframe_list_lock_head ::
    "sframe_list \<Rightarrow> (bool \<times> (uint_range \<times> bytes option \<times> bool) option \<times> sframe_list) option" where
  "ossl_sframe_list_lock_head fl =
     (if head_locked fl then Some (False, None, fl)
      else
        map_option (\<lambda>(ret, _, out). (ret, Some out, if ret then fl\<lparr>head_locked := True\<rparr> else fl))
          (ossl_sframe_list_peek fl []))"

definition ossl_sframe_list_is_head_locked :: "sframe_list \<Rightarrow> bool" where
  "ossl_sframe_list_is_head_locked fl = head_locked fl"

text \<open>The loop of \<open>ossl_sframe_list_move_data\<close>. \<open>prev\<close> is the frame \<open>prev_frame\<close> points to, \<open>sf\<close> the frames that
  are left; the result lists the frames from \<open>prev\<close> on. The callback with its argument is a function on
  the state \<open>'b\<close>.\<close>

fun move_data_loop ::
    "(u64 \<Rightarrow> bytes \<Rightarrow> 'b \<Rightarrow> (bool \<times> 'b) option) \<Rightarrow> u64 \<Rightarrow> stream_frame option \<Rightarrow> stream_frame list \<Rightarrow> 'b \<Rightarrow>
     (bool \<times> stream_frame list \<times> 'b) option" where
  "move_data_loop write_at limit prev [] b =
     Some (True, (case prev of None \<Rightarrow> [] | Some p \<Rightarrow> [p]), b)"
| "move_data_loop write_at limit prev (sf # sfs) b =
     (let limit = (if limit < sf_start sf then sf_start sf else limit);
          pre = (case prev of None \<Rightarrow> [] | Some p \<Rightarrow> [p])
      in case (case sf_data sf of
                 None \<Rightarrow> Some (True, b)
               | Some data \<Rightarrow>
                 write_at limit
                   (take (unat (sf_end sf - limit))
                      (if limit > sf_start sf then drop (unat (limit - sf_start sf)) data else data)) b) of
           None \<Rightarrow> None
         | Some (False, b) \<Rightarrow> Some (False, pre @ sf # sfs, b)
         | Some (True, b) \<Rightarrow>
           (let sf = sf\<lparr>sf_data := None\<rparr> in
            case prev of
              Some p \<Rightarrow>
                if sf_end p \<ge> sf_start sf
                then move_data_loop write_at (sf_end sf)
                       (Some (p\<lparr>sf_range := (sf_range p)\<lparr>r_end := sf_end sf\<rparr>\<rparr>)) sfs b
                else map_option (\<lambda>(ret, fs, b). (ret, p # fs, b))
                       (move_data_loop write_at (sf_end sf) (Some sf) sfs b)
            | None \<Rightarrow> move_data_loop write_at (sf_end sf) (Some sf) sfs b))"

definition ossl_sframe_list_move_data ::
    "(u64 \<Rightarrow> bytes \<Rightarrow> 'b \<Rightarrow> (bool \<times> 'b) option) \<Rightarrow> sframe_list \<Rightarrow> 'b \<Rightarrow> (bool \<times> sframe_list \<times> 'b) option" where
  "ossl_sframe_list_move_data write_at fl b =
     (if sfl_frames fl = [] then Some (True, fl, b)
      else
        (let n = (if head_locked fl then 1 else 0) in
         map_option (\<lambda>(ret, fs, b). (ret, fl\<lparr>sfl_frames := take n (sfl_frames fl) @ fs\<rparr>, b))
           (move_data_loop write_at (sfl_offset fl) None (drop n (sfl_frames fl)) b)))"


section \<open>The set of received offsets\<close>

definition covered :: "stream_frame list \<Rightarrow> nat set" where
  "covered fs = (\<Union>f \<in> set fs. {unat (sf_start f)..<unat (sf_end f)})"

definition received :: "sframe_list \<Rightarrow> nat set" where
  "received fl = {..<unat (sfl_offset fl)} \<union> covered (sfl_frames fl)"

text \<open>Starts do not decrease and ends increase; every frame reaches beyond the offset.\<close>

definition frames_sorted :: "stream_frame list \<Rightarrow> bool" where
  "frames_sorted fs \<longleftrightarrow>
     sorted_wrt (\<lambda>a b. sf_start a \<le> sf_start b \<and> sf_end a < sf_end b) fs \<and> (\<forall>f \<in> set fs. sf_start f \<le> sf_end f)"

definition sfl_inv :: "sframe_list \<Rightarrow> bool" where
  "sfl_inv fl \<longleftrightarrow> frames_sorted (sfl_frames fl) \<and> (\<forall>f \<in> set (sfl_frames fl). sfl_offset fl < sf_end f)"

lemma covered_simps [simp]:
  "covered [] = {}" "covered (f # fs) = {unat (sf_start f)..<unat (sf_end f)} \<union> covered fs"
  "covered (fs @ gs) = covered fs \<union> covered gs"
  by (auto simp: covered_def)

lemma frames_sorted_simps [simp]:
  "frames_sorted []"
  "frames_sorted (f # fs) \<longleftrightarrow> sf_start f \<le> sf_end f
     \<and> (\<forall>g \<in> set fs. sf_start f \<le> sf_start g \<and> sf_end f < sf_end g) \<and> frames_sorted fs"
  "frames_sorted (fs @ gs) \<longleftrightarrow> frames_sorted fs \<and> frames_sorted gs
     \<and> (\<forall>f \<in> set fs. \<forall>g \<in> set gs. sf_start f \<le> sf_start g \<and> sf_end f < sf_end g)"
  by (auto simp: frames_sorted_def sorted_wrt_append)

text \<open>The first offset after \<open>s\<close> that is missing.\<close>

fun contig :: "nat \<Rightarrow> stream_frame list \<Rightarrow> nat" where
  "contig s [] = s"
| "contig s (f # fs) = (if s < unat (sf_start f) then s else contig (unat (sf_end f)) fs)"

lemma contig_ge: "frames_sorted fs \<Longrightarrow> (\<forall>f \<in> set fs. s \<le> unat (sf_end f)) \<Longrightarrow> s \<le> contig s fs"
proof (induction fs arbitrary: s)
  case (Cons f fs)
  have "\<forall>g \<in> set fs. unat (sf_end f) \<le> unat (sf_end g)" using Cons.prems(1) by (auto simp: u64_nat)
  with Cons have "unat (sf_end f) \<le> contig (unat (sf_end f)) fs" by simp
  with Cons.prems show ?case by auto
qed simp

lemma contig_received:
  assumes "frames_sorted fs" "\<forall>f \<in> set fs. s < unat (sf_end f)"
  shows "{s..<contig s fs} \<subseteq> covered fs \<and> contig s fs \<notin> covered fs"
  using assms
proof (induction fs arbitrary: s)
  case (Cons f fs)
  show ?case
  proof (cases "s < unat (sf_start f)")
    case True
    then have "unat (sf_start f) \<le> unat (sf_start g)" if "g \<in> set fs" for g
      using Cons.prems(1) that by (auto simp: u64_nat)
    with True show ?thesis by (force simp: covered_def)
  next
    case False
    let ?e = "unat (sf_end f)"
    have "\<forall>g \<in> set fs. ?e < unat (sf_end g)" using Cons.prems(1) by (auto simp: u64_nat)
    with Cons have ih: "{?e..<contig ?e fs} \<subseteq> covered fs \<and> contig ?e fs \<notin> covered fs" by simp
    moreover have "?e \<le> contig ?e fs"
      using Cons.prems(1) by (intro contig_ge) (auto simp: u64_nat less_imp_le)
    ultimately show ?thesis using False by auto (meson atLeastLessThan_iff not_le subsetD)
  qed
qed simp


section \<open>Insertion\<close>

text \<open>What an insertion must deliver.\<close>

definition frame_inserted :: "uint_range \<Rightarrow> bytes option \<Rightarrow> sframe_list \<Rightarrow> sframe_list \<Rightarrow> bool" where
  "frame_inserted rng data fl fl' \<longleftrightarrow>
     sfl_inv fl'
     \<and> set (sfl_frames fl') \<subseteq> insert \<lparr>sf_range = rng, sf_data = data\<rparr> (set (sfl_frames fl))
     \<and> covered (sfl_frames fl') \<union> {..<unat (sfl_offset fl)} =
         covered (sfl_frames fl) \<union> {unat (r_start rng)..<unat (r_end rng)} \<union> {..<unat (sfl_offset fl)}
     \<and> fl' = fl\<lparr>sfl_frames := sfl_frames fl'\<rparr>
     \<and> sfl_curr_end fl' = max (sfl_curr_end fl) (r_end rng)"

lemma sorted_last_end:
  "frames_sorted fs \<Longrightarrow> f \<in> set fs \<Longrightarrow> sf_end f \<le> sf_end (last fs) \<and> sf_start f \<le> sf_start (last fs)"
  by (induction fs) (auto intro: less_imp_le order_trans)

lemma sfl_curr_end_ge: "sfl_inv fl \<Longrightarrow> sfl_offset fl \<le> sfl_curr_end fl"
  by (auto simp: sfl_inv_def sfl_curr_end_def less_imp_le)

lemma insert_last:
  assumes inv: "sfl_inv fl" and rng: "r_start rng \<le> r_end rng" "sfl_offset fl < r_end rng"
    and last: "sfl_frames fl = [] \<or> sf_start (last (sfl_frames fl)) < r_start rng"
    and new: "sfl_frames fl = [] \<or> sf_end (last (sfl_frames fl)) < r_end rng"
  shows "frame_inserted rng data fl (fl\<lparr>sfl_frames := sfl_frames fl @ [\<lparr>sf_range = rng, sf_data = data\<rparr>]\<rparr>)"
proof -
  have s: "frames_sorted (sfl_frames fl)" using inv by (simp add: sfl_inv_def)
  have "sf_start f \<le> r_start rng \<and> sf_end f < r_end rng" if "f \<in> set (sfl_frames fl)" for f
    using sorted_last_end [OF s that] last new that by (auto intro: less_imp_le order_trans)
  moreover have "max (sfl_curr_end fl) (r_end rng) = r_end rng"
    using new rng(2) by (auto simp: sfl_curr_end_def max_def)
  ultimately show ?thesis using inv rng by (auto simp: frame_inserted_def sfl_inv_def) (simp add: sfl_curr_end_def)
qed

lemma insert_covered:
  assumes inv: "sfl_inv fl" and f: "f \<in> set (sfl_frames fl)" "sf_start f \<le> r_start rng" "r_end rng \<le> sf_end f"
  shows "frame_inserted rng data fl fl"
proof -
  have s: "frames_sorted (sfl_frames fl)" using inv by (simp add: sfl_inv_def)
  have ne: "sfl_frames fl \<noteq> []" using f(1) by auto
  have "r_end rng \<le> sf_end (last (sfl_frames fl))" using sorted_last_end [OF s f(1)] f(3) by auto
  moreover have "{unat (r_start rng)..<unat (r_end rng)} \<subseteq> covered (sfl_frames fl)"
    using f by (force simp: covered_def u64_nat)
  ultimately show ?thesis using inv ne by (auto simp: frame_inserted_def sfl_curr_end_def max_def)
qed

lemma frames_sorted_dropWhile: "frames_sorted fs \<Longrightarrow> frames_sorted (dropWhile P fs)"
  by (induction fs) auto

lemma last_dropWhile: "dropWhile P xs \<noteq> [] \<Longrightarrow> last (dropWhile P xs) = last xs"
  by (induction xs) auto

lemma takeWhile_dropWhile_frames:
  assumes "frames_sorted (sfl_frames fl)"
  shows "\<forall>f \<in> set (takeWhile (\<lambda>sf. sf_start sf < s) (sfl_frames fl)). sf_start f < s"
    "\<forall>f \<in> set (dropWhile (\<lambda>sf. sf_start sf < s) (sfl_frames fl)). s \<le> sf_start f"
proof -
  show "\<forall>f \<in> set (takeWhile (\<lambda>sf. sf_start sf < s) (sfl_frames fl)). sf_start f < s"
    by (auto dest: set_takeWhileD)
  show "\<forall>f \<in> set (dropWhile (\<lambda>sf. sf_start sf < s) (sfl_frames fl)). s \<le> sf_start f"
  proof (cases "dropWhile (\<lambda>sf. sf_start sf < s) (sfl_frames fl)")
    case (Cons g gs)
    then have "\<not> sf_start g < s" by (simp add: dropWhile_eq_Cons_conv)
    moreover have "frames_sorted (g # gs)" using frames_sorted_dropWhile [OF assms] Cons by metis
    ultimately show ?thesis using Cons by (auto simp: not_less)
  next
    case Nil
    then show ?thesis by (simp only: Nil) simp
  qed
qed

lemma dropWhile_ends:
  "frames_sorted fs \<Longrightarrow> \<forall>f \<in> set (dropWhile (\<lambda>sf. sf_end sf \<le> e) fs). e < sf_end f"
  by (induction fs) (auto simp: not_le intro: less_trans)

lemma covered_dropWhile_ends:
  assumes "\<forall>f \<in> set fs. s \<le> unat (sf_start f)"
  shows "covered (dropWhile (\<lambda>sf. sf_end sf \<le> e) fs) \<union> {s..<unat e} = covered fs \<union> {s..<unat e}"
  using assms
proof (induction fs)
  case (Cons f fs)
  then show ?case by (cases "sf_end f \<le> e") (fastforce simp: u64_nat)+
qed simp

text \<open>\<open>pre\<close> starts before the new frame, \<open>post\<close> does not, \<open>rest\<close> is what is left of \<open>post\<close>.\<close>

lemma insert_mid_frames:
  assumes "post \<noteq> []" "r_start rng \<le> r_end rng" and inv: "sfl_inv fl" "sfl_offset fl < r_end rng" and fs: "sfl_frames fl = pre @ post"
    and s: "frames_sorted (pre @ post)"
    and pre: "\<forall>f \<in> set pre. sf_start f < r_start rng" and post: "\<forall>f \<in> set post. r_start rng \<le> sf_start f"
    and rest: "\<forall>f \<in> set rest. f \<in> set post \<and> r_end rng < sf_end f" "frames_sorted rest"
    and cov: "covered rest \<union> {unat (r_start rng)..<unat (r_end rng)} =
      covered post \<union> {unat (r_start rng)..<unat (r_end rng)}"
    and last_post: "rest \<noteq> [] \<Longrightarrow> last rest = last post" and dropped: "rest = [] \<Longrightarrow> sf_end (last post) \<le> r_end rng"
    and new: "\<not> (pre \<noteq> [] \<and> sf_end (last pre) \<ge> r_end rng)"
  shows "frame_inserted rng data fl (fl\<lparr>sfl_frames :=
    if rest \<noteq> [] \<and> pre \<noteq> [] \<and> sf_start (hd rest) \<le> sf_end (last pre) then pre @ rest
    else pre @ \<lparr>sf_range = rng, sf_data = data\<rparr> # rest\<rparr>)"
proof -
  have ends: "sf_end f < r_end rng" if "f \<in> set pre" for f
    using sorted_last_end [of pre f] s new that by (cases "pre = []") (auto intro: le_less_trans)
  have sorted: "frames_sorted (pre @ rest)" "frames_sorted (pre @ \<lparr>sf_range = rng, sf_data = data\<rparr> # rest)"
    using s rest pre post ends assms(2) by (auto simp: less_imp_le)
  have top: "rest \<noteq> [] \<Longrightarrow> max (sfl_curr_end fl) (r_end rng) = sf_end (last post)"
    "rest = [] \<Longrightarrow> max (sfl_curr_end fl) (r_end rng) = r_end rng"
    using last_post dropped rest(1) assms(1) last_in_set [of rest] 
    by (auto simp: sfl_curr_end_def fs max_def) 
  have gap: "{unat (r_start rng)..<unat (r_end rng)} \<subseteq> covered (pre @ rest)"
    if "rest \<noteq> []" "pre \<noteq> []" "sf_start (hd rest) \<le> sf_end (last pre)"
  proof -
    have "last pre \<in> set pre" "hd rest \<in> set rest" using that by auto
    then have "{unat (sf_start (last pre))..<unat (sf_end (last pre))} \<subseteq> covered pre"
      "{unat (sf_start (hd rest))..<unat (sf_end (hd rest))} \<subseteq> covered rest"
      "sf_start (last pre) < r_start rng" "r_end rng < sf_end (hd rest)"
      using pre rest by (auto simp: covered_def)
    moreover have "{unat (r_start rng)..<unat (r_end rng)} \<subseteq>
        {unat (sf_start (last pre))..<unat (sf_end (last pre))} \<union> {unat (sf_start (hd rest))..<unat (sf_end (hd rest))}"
      using calculation(3,4) that(3) by (auto simp: u64_nat)
    ultimately show ?thesis by auto
  qed
  have curr: "sfl_curr_end (fl\<lparr>sfl_frames := pre @ rest\<rparr>) = max (sfl_curr_end fl) (r_end rng)" if "rest \<noteq> []"
    unfolding top(1) [OF that] using that last_post by (simp add: sfl_curr_end_def)
  have curr': "sfl_curr_end (fl\<lparr>sfl_frames := pre @ \<lparr>sf_range = rng, sf_data = data\<rparr> # rest\<rparr>)
      = max (sfl_curr_end fl) (r_end rng)"
    using top last_post by (cases "rest = []") (simp_all add: sfl_curr_end_def)
  show ?thesis
    using fs sorted rest(1) cov gap inv curr curr'
    by (auto simp: frame_inserted_def sfl_inv_def)
qed

lemma insert_mid:
  assumes inv: "sfl_inv fl" and rng: "r_start rng \<le> r_end rng" "sfl_offset fl < r_end rng"
    and some: "sfl_frames fl \<noteq> []" "r_start rng \<le> sf_start (last (sfl_frames fl))"
  shows "\<exists>ok fl'. sframe_insert_mid mem fl rng data = Some (ok, fl') \<and> (mem \<longrightarrow> ok)
    \<and> (if ok then frame_inserted rng data fl fl' else fl' = fl)"
proof -
  define pre where "pre = takeWhile (\<lambda>sf. sf_start sf < r_start rng) (sfl_frames fl)"
  define post where "post = dropWhile (\<lambda>sf. sf_start sf < r_start rng) (sfl_frames fl)"
  have fs: "sfl_frames fl = pre @ post" by (simp add: pre_def post_def)
  have s: "frames_sorted (pre @ post)" using inv by (simp add: sfl_inv_def fs)
  have pre: "\<forall>f \<in> set pre. sf_start f < r_start rng" and post: "\<forall>f \<in> set post. r_start rng \<le> sf_start f"
    using takeWhile_dropWhile_frames [of fl "r_start rng"] s fs unfolding pre_def post_def by auto
  have ne: "post \<noteq> []"
  proof
    assume "post = []"
    then have "last (sfl_frames fl) \<in> set pre" using some(1) fs by simp
    with pre some(2) show False by (auto simp: not_less [symmetric])
  qed
  define rest where "rest = dropWhile (\<lambda>sf. sf_end sf \<le> r_end rng) post"
  have rest: "\<forall>f \<in> set rest. f \<in> set post \<and> r_end rng < sf_end f" "frames_sorted rest"
    using dropWhile_ends [of post "r_end rng"] s unfolding rest_def
    by (auto dest: set_dropWhileD intro: frames_sorted_dropWhile)
  have cov: "covered rest \<union> {unat (r_start rng)..<unat (r_end rng)} =
      covered post \<union> {unat (r_start rng)..<unat (r_end rng)}"
    unfolding rest_def by (rule covered_dropWhile_ends) (use post in \<open>auto simp: u64_nat\<close>)
  have last_post: "rest \<noteq> [] \<Longrightarrow> last rest = last post"
    unfolding rest_def by (rule last_dropWhile)
  have dropped: "rest = [] \<Longrightarrow> sf_end (last post) \<le> r_end rng"
    using ne unfolding rest_def by (auto simp: dropWhile_eq_Nil_conv)
  let ?new = "\<lparr>sf_range = rng, sf_data = data\<rparr>"
  have run: "sframe_insert_mid mem fl rng data =
    (if pre \<noteq> [] \<and> sf_end (last pre) \<ge> r_end rng then Some (True, fl)
     else if \<not> mem then Some (False, fl)
     else Some (True, fl\<lparr>sfl_frames :=
            if rest \<noteq> [] \<and> pre \<noteq> [] \<and> sf_start (hd rest) \<le> sf_end (last pre) then pre @ rest
            else pre @ ?new # rest\<rparr>))"
    using ne by (simp add: sframe_insert_mid_def stream_frame_new_def Let_def flip: pre_def post_def rest_def)
  note facts = ne rng(1) inv rng(2) fs s pre post rest cov last_post dropped
  show ?thesis
  proof (cases "pre \<noteq> [] \<and> sf_end (last pre) \<ge> r_end rng")
    case True
    then show ?thesis using run insert_covered [OF inv, of "last pre" rng] pre fs by (auto simp: less_imp_le)
  next
    case False
    have "frame_inserted rng data fl (fl\<lparr>sfl_frames :=
        if rest \<noteq> [] \<and> pre \<noteq> [] \<and> sf_start (hd rest) \<le> sf_end (last pre) then pre @ rest
        else pre @ ?new # rest\<rparr>)" (is "frame_inserted rng data fl ?fl")
      by (rule insert_mid_frames [OF facts False])
    moreover have "sframe_insert_mid mem fl rng data = (if mem then Some (True, ?fl) else Some (False, fl))"
      unfolding run using False by argo
    ultimately show ?thesis by (intro exI [of _ mem] exI [of _ "if mem then ?fl else fl"]) simp
  qed
qed

lemma sframe_insert_body:
  fixes mem :: bool and data :: "bytes option"
  assumes inv: "sfl_inv fl" and rng: "r_start rng \<le> r_end rng"
  defines "body \<equiv>
    (if sfl_offset fl \<ge> r_end rng then Some (True, fl)
     else if sfl_frames fl = [] \<or> sf_start (last (sfl_frames fl)) < r_start rng then
       (if sfl_frames fl \<noteq> [] \<and> sf_end (last (sfl_frames fl)) \<ge> r_end rng then Some (True, fl)
        else Some (append_frame mem fl rng data))
     else sframe_insert_mid mem fl rng data)"
  shows "\<exists>ok fl'. body = Some (ok, fl') \<and> (mem \<longrightarrow> ok) \<and> (if ok then frame_inserted rng data fl fl' else fl' = fl)"
proof -
  have ne: "sfl_frames fl \<noteq> [] \<Longrightarrow> last (sfl_frames fl) \<in> set (sfl_frames fl)" by simp
  have old: "frame_inserted rng data fl fl" if "sfl_offset fl \<ge> r_end rng"
  proof -
    have "max (sfl_curr_end fl) (r_end rng) = sfl_curr_end fl"
      using order_trans [OF that sfl_curr_end_ge [OF inv]] by (rule max_absorb1)
    then show ?thesis using that inv by (auto simp: frame_inserted_def u64_nat)
  qed
  show ?thesis
  proof (cases "sfl_offset fl \<ge> r_end rng")
    case True
    then show ?thesis using old by (auto simp: body_def)
  next
    case False
    then have off: "sfl_offset fl < r_end rng" by simp
    show ?thesis
    proof (cases "sfl_frames fl = [] \<or> sf_start (last (sfl_frames fl)) < r_start rng")
      case last: True
      show ?thesis
      proof (cases "sfl_frames fl \<noteq> [] \<and> sf_end (last (sfl_frames fl)) \<ge> r_end rng")
        case True
        then have "frame_inserted rng data fl fl"
          using last ne by (intro insert_covered [OF inv, of "last (sfl_frames fl)"]) auto
        then show ?thesis using False last True unfolding body_def by auto
      next
        case new: False
        then have "frame_inserted rng data fl (fl\<lparr>sfl_frames := sfl_frames fl @ [\<lparr>sf_range = rng, sf_data = data\<rparr>]\<rparr>)"
          by (intro insert_last [OF inv rng off last]) auto
        moreover have "body = Some (append_frame mem fl rng data)" using False last new unfolding body_def by auto
        ultimately show ?thesis by (cases mem) (auto simp: append_frame_def stream_frame_new_def)
      qed
    next
      case mid: False
      then have "body = sframe_insert_mid mem fl rng data" using False by (simp add: body_def)
      then show ?thesis using insert_mid [OF inv rng off, of mem data] mid by (simp add: not_less)
    qed
  qed
qed

text \<open>An insertion that the assertions at its start allow is union on the received offsets; it fails only
  without memory and then changes nothing.\<close>

lemma sframe_list_insert_spec:
  assumes inv: "sfl_inv fl" and rng: "r_start rng \<le> r_end rng"
    and fin: "fin \<Longrightarrow> sfl_curr_end fl \<le> r_end rng" "sfl_fin fl \<Longrightarrow> r_end rng \<le> sfl_curr_end fl"
  shows "\<exists>ok fl'. ossl_sframe_list_insert mem fl rng data fin = Some (ok, fl') \<and> (mem \<longrightarrow> ok)
    \<and> (if ok then sfl_inv fl'
           \<and> received fl' = received fl \<union> {unat (r_start rng)..<unat (r_end rng)}
           \<and> set (sfl_frames fl') \<subseteq> insert \<lparr>sf_range = rng, sf_data = data\<rparr> (set (sfl_frames fl))
           \<and> sfl_curr_end fl' = max (sfl_curr_end fl) (r_end rng)
           \<and> fl' = fl\<lparr>sfl_frames := sfl_frames fl', sfl_fin := fin \<or> sfl_fin fl\<rparr>
         else fl' = fl)"
proof -
  define body where "body =
    (if sfl_offset fl \<ge> r_end rng then Some (True, fl)
     else if sfl_frames fl = [] \<or> sf_start (last (sfl_frames fl)) < r_start rng then
       (if sfl_frames fl \<noteq> [] \<and> sf_end (last (sfl_frames fl)) \<ge> r_end rng then Some (True, fl)
        else Some (append_frame mem fl rng data))
     else sframe_insert_mid mem fl rng data)"
  obtain ok fl' where b: "body = Some (ok, fl')" "mem \<longrightarrow> ok"
    "if ok then frame_inserted rng data fl fl' else fl' = fl"
    using sframe_insert_body [OF inv rng, of mem data] unfolding body_def by blast
  have "ossl_sframe_list_insert mem fl rng data fin =
      map_option (\<lambda>(ok, fl). (ok, if ok then fl\<lparr>sfl_fin := fin \<or> sfl_fin fl\<rparr> else fl)) body"
    using fin unfolding ossl_sframe_list_insert_def Let_def body_def [symmetric] by auto
  then have run: "ossl_sframe_list_insert mem fl rng data fin =
      Some (ok, if ok then fl'\<lparr>sfl_fin := fin \<or> sfl_fin fl'\<rparr> else fl')" by (simp add: b(1))
  show ?thesis
  proof (cases ok)
    case True
    then have f: "frame_inserted rng data fl fl'" using b(3) by simp
    then obtain fs where fl': "fl' = fl\<lparr>sfl_frames := fs\<rparr>" unfolding frame_inserted_def by blast
    have "received fl' = received fl \<union> {unat (r_start rng)..<unat (r_end rng)}"
      using f by (simp add: frame_inserted_def received_def fl' Un_ac)
    moreover have "sfl_curr_end (fl\<lparr>sfl_frames := fs, sfl_fin := fin \<or> sfl_fin fl\<rparr>) = sfl_curr_end fl'"
      by (simp add: sfl_curr_end_def fl')
    ultimately show ?thesis unfolding run using True f unfolding frame_inserted_def fl'
      by (intro exI [of _ True] exI [of _ "fl\<lparr>sfl_frames := fs, sfl_fin := fin \<or> sfl_fin fl\<rparr>"])
         (simp add: received_def sfl_inv_def)
  next
    case False
    then show ?thesis unfolding run using b by (intro exI [of _ False] exI [of _ fl']) auto
  qed
qed

text \<open>The documented invariant that no frame encompasses another is stronger than what insertion keeps.\<close>

lemma insert_encompassed:
  "map_option (map sf_range \<circ> sfl_frames \<circ> snd) (ossl_sframe_list_insert True
     \<lparr>sfl_frames = [\<lparr>sf_range = \<lparr>r_start = 10, r_end = 20\<rparr>, sf_data = None\<rparr>], sfl_fin = False, sfl_offset = 0,
      head_locked = False, sfl_cleanse = False\<rparr> \<lparr>r_start = 10, r_end = 15\<rparr> None False)
   = Some [\<lparr>r_start = 10, r_end = 15\<rparr>, \<lparr>r_start = 10, r_end = 20\<rparr>]"
  by code_simp


section \<open>Dropping\<close>

lemma sframe_list_drop_spec:
  assumes inv: "sfl_inv fl" and lim: "sfl_offset fl \<le> limit" "limit \<le> sfl_curr_end fl"
    and got: "{unat (sfl_offset fl)..<unat limit} \<subseteq> received fl"
  shows "\<exists>fl'. ossl_sframe_list_drop_frames fl limit = Some fl' \<and> sfl_inv fl' \<and> sfl_offset fl' = limit
    \<and> received fl' = received fl \<and> set (sfl_frames fl') \<subseteq> set (sfl_frames fl)
    \<and> sfl_curr_end fl' = sfl_curr_end fl \<and> sfl_fin fl' = sfl_fin fl \<and> \<not> head_locked fl'
    \<and> sfl_cleanse fl' = sfl_cleanse fl"
proof -
  let ?fs = "dropWhile (\<lambda>sf. sf_end sf \<le> limit) (sfl_frames fl)"
  define fl' where "fl' = fl\<lparr>sfl_offset := limit, sfl_frames := ?fs, head_locked := False\<rparr>"
  have s: "frames_sorted (sfl_frames fl)" using inv by (simp add: sfl_inv_def)
  have "ossl_sframe_list_drop_frames fl limit = Some fl'"
    using lim by (auto simp: ossl_sframe_list_drop_frames_def fl'_def sfl_curr_end_def split: if_splits)
  moreover have "sfl_inv fl'"
    using frames_sorted_dropWhile [OF s] dropWhile_ends [OF s] by (simp add: sfl_inv_def fl'_def)
  moreover have "received fl' = received fl"
  proof -
    have "{..<unat limit} \<union> covered ?fs = {..<unat limit} \<union> covered (sfl_frames fl)"
      using covered_dropWhile_ends [of "sfl_frames fl" 0 limit] by (auto simp: lessThan_atLeast0)
    moreover have "{..<unat limit} = {..<unat (sfl_offset fl)} \<union> {unat (sfl_offset fl)..<unat limit}"
      using lim(1) by (auto simp: u64_nat)
    ultimately show ?thesis using got by (auto simp: received_def fl'_def)
  qed
  moreover have "sfl_curr_end fl' = sfl_curr_end fl"
  proof (cases "?fs = []")
    case True
    then have "sfl_frames fl \<noteq> [] \<Longrightarrow> sf_end (last (sfl_frames fl)) \<le> limit" by (auto simp: dropWhile_eq_Nil_conv)
    then show ?thesis using lim True by (auto simp: sfl_curr_end_def fl'_def intro: antisym)
  next
    case False
    then have "sfl_frames fl \<noteq> []" by auto
    then show ?thesis using last_dropWhile [OF False] False by (simp add: sfl_curr_end_def fl'_def)
  qed
  ultimately show ?thesis
    by (intro exI [of _ fl']) (auto simp: fl'_def dest: set_dropWhileD)
qed


section \<open>Peeking\<close>

text \<open>The frames the iterator has not passed and the offset it has reached.\<close>

definition iter_at :: "sframe_list \<Rightarrow> stream_frame list \<Rightarrow> u64 \<times> stream_frame list" where
  "iter_at fl iter = (case iter of [] \<Rightarrow> (sfl_offset fl, sfl_frames fl) | f # fs \<Rightarrow> (sf_end f, fs))"

lemma sframe_list_peek_eq:
  assumes "frames_sorted (snd (iter_at fl iter))" "\<forall>f \<in> set (snd (iter_at fl iter)). fst (iter_at fl iter) < sf_end f"
  shows "ossl_sframe_list_peek fl iter =
    (let (start, sf) = iter_at fl iter in
     case sf of
       [] \<Rightarrow> Some (False, [], \<lparr>r_start = start, r_end = start\<rparr>, None, sfl_fin fl)
     | f # fs \<Rightarrow>
       if start < sf_start f then Some (False, [], \<lparr>r_start = start, r_end = start\<rparr>, None, False)
       else Some (True, sf, \<lparr>r_start = start, r_end = sf_end f\<rparr>,
                  map_option (drop (unat (start - sf_start f))) (sf_data f), fs = [] \<and> sfl_fin fl))"
  using assms by (auto simp: ossl_sframe_list_peek_def iter_at_def split: list.splits)


section \<open>Moving the data\<close>

text \<open>A frame carries its part of the stream \<open>st\<close>, or the side storage does from the offset \<open>lo\<close> on.\<close>

definition frame_holds :: "(nat \<Rightarrow> u8 \<Rightarrow> bool) \<Rightarrow> nat \<Rightarrow> bytes \<Rightarrow> stream_frame \<Rightarrow> bool" where
  "frame_holds stored lo st f \<longleftrightarrow> unat (sf_end f) \<le> length st \<and>
     (case sf_data f of
        Some data \<Rightarrow> data = take (unat (sf_end f) - unat (sf_start f)) (drop (unat (sf_start f)) st)
      | None \<Rightarrow> \<forall>p. max lo (unat (sf_start f)) \<le> p \<and> p < unat (sf_end f) \<longrightarrow> stored p (st ! p))"

lemma frame_holds_mono:
  "frame_holds stored lo st f \<Longrightarrow> lo \<le> lo' \<Longrightarrow> (\<And>p. lo' \<le> p \<Longrightarrow> stored p (st ! p) \<Longrightarrow> stored' p (st ! p)) \<Longrightarrow>
   frame_holds stored' lo' st f"
  by (auto simp: frame_holds_def split: option.splits)

text \<open>The frames after some were moved and merged.\<close>

definition frames_moved ::
    "(nat \<Rightarrow> u8 \<Rightarrow> bool) \<Rightarrow> nat \<Rightarrow> bytes \<Rightarrow> stream_frame list \<Rightarrow> stream_frame list \<Rightarrow> bool" where
  "frames_moved stored lo st fs fs' \<longleftrightarrow>
     frames_sorted fs' \<and> covered fs' = covered fs \<and> (\<forall>f \<in> set fs'. frame_holds stored lo st f)
     \<and> (\<forall>f \<in> set fs'. \<exists>g \<in> set fs. sf_start g \<le> sf_start f \<and> sf_end g \<le> sf_end f)
     \<and> (fs \<noteq> [] \<longrightarrow> fs' \<noteq> [] \<and> sf_end (last fs') = sf_end (last fs))"

lemma frames_moved_Cons:
  assumes "frames_moved stored lo st fs fs'" "frames_sorted (f # fs)" "frame_holds stored lo st f"
  shows "frames_moved stored lo st (f # fs) (f # fs')"
proof -
  have "sf_start f \<le> sf_start g \<and> sf_end f < sf_end g" if "g \<in> set fs'" for g
  proof -
    obtain h where "h \<in> set fs" "sf_start h \<le> sf_start g" "sf_end h \<le> sf_end g"
      using assms(1) \<open>g \<in> set fs'\<close> unfolding frames_moved_def by blast
    then show ?thesis using assms(2) by (auto intro: order_trans less_le_trans)
  qed
  moreover have "fs = [] \<longleftrightarrow> fs' = []" using assms(1) by (cases fs') (auto simp: frames_moved_def)
  ultimately show ?thesis using assms by (auto simp: frames_moved_def)
qed

lemma frame_holds_merge:
  assumes "frame_holds stored lo st p" "frame_holds stored lo st sf" "sf_data p = None" "sf_data sf = None"
    "sf_start sf \<le> sf_end p"
  shows "frame_holds stored lo st (p\<lparr>sf_range := (sf_range p)\<lparr>r_end := sf_end sf\<rparr>\<rparr>)"
  using assms by (auto simp: frame_holds_def u64_nat) (meson le_trans not_le)

lemma frames_moved_merge:
  assumes "frames_moved stored lo st (p\<lparr>sf_range := (sf_range p)\<lparr>r_end := sf_end sf\<rparr>\<rparr> # sfs) fs"
    "frames_sorted (p # sf # sfs)" "sf_start sf \<le> sf_end p"
  shows "frames_moved stored lo st (p # sf # sfs) fs"
proof -
  have "{unat (sf_start p)..<unat (sf_end sf)} = {unat (sf_start p)..<unat (sf_end p)} \<union> {unat (sf_start sf)..<unat (sf_end sf)}"
    using assms(2,3) by (auto simp: u64_nat)
  then show ?thesis using assms(1,2) by (auto simp: frames_moved_def Un_assoc intro: order_trans less_imp_le)
qed

text \<open>What the callback of \<open>ossl_sframe_list_move_data\<close> promises: a write is always defined, keeps what is
  stored outside the written offsets, and a write that succeeds stores the bytes.\<close>

locale side_storage =
  fixes write_at :: "u64 \<Rightarrow> bytes \<Rightarrow> 'b \<Rightarrow> (bool \<times> 'b) option"
    and ok :: "'b \<Rightarrow> bool" and stored :: "'b \<Rightarrow> nat \<Rightarrow> u8 \<Rightarrow> bool"
  assumes write_stores:
    "ok b \<Longrightarrow> unat off + length buf \<le> 2 ^ 62 \<Longrightarrow>
     \<exists>ret b'. write_at off buf b = Some (ret, b') \<and> ok b'
       \<and> (\<forall>p v. stored b p v \<and> (unat off \<le> p \<and> p < unat off + length buf \<longrightarrow> v = buf ! (p - unat off)) \<longrightarrow> stored b' p v)
       \<and> (ret \<longrightarrow> (\<forall>i < length buf. stored b' (unat off + i) (buf ! i)))"
begin

lemma write_slice:
  assumes "ok b" "length st \<le> 2 ^ 62" "m \<le> length st" "unat off \<le> m"
  shows "\<exists>ret b'. write_at off (take (m - unat off) (drop (unat off) st)) b = Some (ret, b') \<and> ok b'
    \<and> (\<forall>p. stored b p (st ! p) \<longrightarrow> stored b' p (st ! p))
    \<and> (ret \<longrightarrow> (\<forall>p. unat off \<le> p \<and> p < m \<longrightarrow> stored b' p (st ! p)))"
proof -
  let ?buf = "take (m - unat off) (drop (unat off) st)"
  have len: "length ?buf = m - unat off" using assms(3) by simp
  have nth: "?buf ! (p - unat off) = st ! p" if "unat off \<le> p" "p < m" for p
    using that assms(3) by simp
  obtain ret b' where w: "write_at off ?buf b = Some (ret, b')" "ok b'"
    "\<forall>p v. stored b p v \<and> (unat off \<le> p \<and> p < unat off + length ?buf \<longrightarrow> v = ?buf ! (p - unat off)) \<longrightarrow> stored b' p v"
    "ret \<longrightarrow> (\<forall>i < length ?buf. stored b' (unat off + i) (?buf ! i))"
    using write_stores [OF assms(1), of off ?buf] assms len by auto
  have "stored b' p (st ! p)" if "stored b p (st ! p)" for p
    using w(3) that nth assms(4) unfolding len by simp
  moreover have "stored b' p (st ! p)" if ret "unat off \<le> p" "p < m" for p
  proof -
    have "p - unat off < length ?buf" using that len by simp
    with w(4) that(1) have "stored b' (unat off + (p - unat off)) (?buf ! (p - unat off))" by blast
    then show ?thesis using that nth by simp
  qed
  ultimately show ?thesis using w(1,2) by blast
qed

text \<open>One turn of the loop: afterwards the storage holds the frame.\<close>

lemma move_frame:
  assumes ok: "ok b" and st: "length st \<le> 2 ^ 62" and f: "frame_holds (stored b) lo st sf" "sf_start sf \<le> sf_end sf"
    and lim: "limit < sf_end sf" "\<forall>p. max lo (unat (sf_start sf)) \<le> p \<and> p < unat limit \<longrightarrow> stored b p (st ! p)"
  defines "limit' \<equiv> (if limit < sf_start sf then sf_start sf else limit)"
  shows "\<exists>ret b'.
    (case sf_data sf of None \<Rightarrow> Some (True, b)
     | Some data \<Rightarrow> write_at limit' (take (unat (sf_end sf - limit'))
         (if limit' > sf_start sf then drop (unat (limit' - sf_start sf)) data else data)) b) = Some (ret, b')
    \<and> ok b' \<and> (\<forall>p. stored b p (st ! p) \<longrightarrow> stored b' p (st ! p))
    \<and> (ret \<longrightarrow> frame_holds (stored b') lo st (sf\<lparr>sf_data := None\<rparr>))"
proof (cases "sf_data sf")
  case None
  then show ?thesis using ok f by (intro exI [of _ True] exI [of _ b]) (auto simp: frame_holds_def)
next
  case (Some data)
  let ?s = "unat (sf_start sf)" and ?e = "unat (sf_end sf)" and ?l = "unat limit'"
  have e: "?e \<le> length st" and data: "data = take (?e - ?s) (drop ?s st)"
    using f(1) Some by (auto simp: frame_holds_def)
  have l: "?l \<le> ?e" "?s \<le> ?l" "sf_start sf \<le> limit'" "limit' \<le> sf_end sf" and l': "?l = max ?s (unat limit)"
    using f(2) lim(1) by (auto simp: limit'_def u64_nat max_def)
  have "take (unat (sf_end sf - limit')) (if limit' > sf_start sf then drop (unat (limit' - sf_start sf)) data else data)
      = take (?e - ?l) (drop ?l st)"
  proof -
    have "(if limit' > sf_start sf then drop (unat (limit' - sf_start sf)) data else data) = drop (?l - ?s) data"
      using l by (auto simp: unat_sub_u64 u64_nat)
    then show ?thesis using l by (simp add: data drop_take unat_sub_u64)
  qed
  with write_slice [OF ok st e l(1)] obtain ret b' where w:
    "write_at limit' (take (unat (sf_end sf - limit'))
       (if limit' > sf_start sf then drop (unat (limit' - sf_start sf)) data else data)) b = Some (ret, b')"
    "ok b'" "\<forall>p. stored b p (st ! p) \<longrightarrow> stored b' p (st ! p)"
    "ret \<longrightarrow> (\<forall>p. ?l \<le> p \<and> p < ?e \<longrightarrow> stored b' p (st ! p))" by auto
  have "frame_holds (stored b') lo st (sf\<lparr>sf_data := None\<rparr>)" if ret
    using that w(3,4) lim(2) e unfolding frame_holds_def l' by (auto simp: not_le) (metis leI)
  then show ?thesis using w Some by auto
qed

lemma move_data_loop_moves:
  fixes prev
  defines "pre \<equiv> (case prev of None \<Rightarrow> [] | Some p \<Rightarrow> [p])"
  assumes "ok b" "length st \<le> 2 ^ 62" "frames_sorted (pre @ sfs)" "\<forall>f \<in> set (pre @ sfs). frame_holds (stored b) lo st f"
    and "\<forall>f \<in> set sfs. limit < sf_end f"
    and "case prev of None \<Rightarrow> unat limit = lo | Some p \<Rightarrow> sf_data p = None \<and> limit = sf_end p"
  shows "\<exists>ret fs b'. move_data_loop write_at limit prev sfs b = Some (ret, fs, b') \<and> ok b'
    \<and> (\<forall>p. stored b p (st ! p) \<longrightarrow> stored b' p (st ! p)) \<and> frames_moved (stored b') lo st (pre @ sfs) fs"
  using assms(2-) unfolding pre_def
proof (induction sfs arbitrary: limit prev b)
  case Nil
  then show ?case by (auto simp: frames_moved_def split: option.splits)
next
  case (Cons sf sfs)
  let ?pre = "case prev of None \<Rightarrow> [] | Some p \<Rightarrow> [p]"
  let ?limit = "if limit < sf_start sf then sf_start sf else limit"
  have below: "\<forall>p. max lo (unat (sf_start sf)) \<le> p \<and> p < unat limit \<longrightarrow> stored b p (st ! p)"
    using Cons.prems(3,4,6) by (cases prev) (auto simp: frame_holds_def u64_nat)
  have sf: "frame_holds (stored b) lo st sf" "sf_start sf \<le> sf_end sf" "limit < sf_end sf"
    using Cons.prems by auto
  obtain ret b1 where w: "(case sf_data sf of None \<Rightarrow> Some (True, b)
     | Some data \<Rightarrow> write_at ?limit (take (unat (sf_end sf - ?limit))
         (if ?limit > sf_start sf then drop (unat (?limit - sf_start sf)) data else data)) b) = Some (ret, b1)"
    "ok b1" "\<forall>p. stored b p (st ! p) \<longrightarrow> stored b1 p (st ! p)"
    and moved: "ret \<longrightarrow> frame_holds (stored b1) lo st (sf\<lparr>sf_data := None\<rparr>)"
    using move_frame [OF Cons.prems(1,2) sf below] by blast
  have kept: "\<forall>f \<in> set (?pre @ sf # sfs). frame_holds (stored b1) lo st f"
    using Cons.prems(4) w(3) by (blast intro: frame_holds_mono)
  show ?case
  proof (cases ret)
    case False
    then have "move_data_loop write_at limit prev (sf # sfs) b = Some (False, ?pre @ sf # sfs, b1)"
      using w(1) by (simp add: Let_def)
    then show ?thesis using w(2,3) kept Cons.prems(3) by (auto simp: frames_moved_def)
  next
    case True
    let ?sf = "sf\<lparr>sf_data := None\<rparr>"
    have sfh: "frame_holds (stored b1) lo st ?sf" and ends: "\<forall>f \<in> set sfs. sf_end sf < sf_end f"
      using moved True Cons.prems(3) by auto
    have step: "\<exists>ret fs b'. move_data_loop write_at (sf_end sf) (Some q) sfs b1 = Some (ret, fs, b') \<and> ok b'
        \<and> (\<forall>p. stored b p (st ! p) \<longrightarrow> stored b' p (st ! p)) \<and> (\<forall>p. stored b1 p (st ! p) \<longrightarrow> stored b' p (st ! p))
        \<and> frames_moved (stored b') lo st (q # sfs) fs"
      if "frame_holds (stored b1) lo st q" "sf_data q = None" "sf_end q = sf_end sf" "sf_start q \<le> sf_start sf" for q
    proof -
      have "frames_sorted (q # sfs)" using that(3,4) Cons.prems(3) sf(2) by (auto intro: order_trans)
      then show ?thesis
        using Cons.IH [of b1 "Some q" "sf_end sf"] that w(2,3) kept ends Cons.prems(2) by fastforce
    qed
    show ?thesis
    proof (cases prev)
      case None
      then show ?thesis using step [OF sfh] w(1) True by (auto simp: Let_def frames_moved_def)
    next
      case (Some p)
      then have p: "sf_data p = None" "frame_holds (stored b1) lo st p" "frames_sorted (p # sf # sfs)"
        using Cons.prems(3,6) kept by auto
      show ?thesis
      proof (cases "sf_start sf \<le> sf_end p")
        case merge: True
        let ?p = "p\<lparr>sf_range := (sf_range p)\<lparr>r_end := sf_end sf\<rparr>\<rparr>"
        have "move_data_loop write_at limit prev (sf # sfs) b = move_data_loop write_at (sf_end sf) (Some ?p) sfs b1"
          using w(1) True merge by (simp add: Let_def Some)
        moreover have "frame_holds (stored b1) lo st ?p"
          using frame_holds_merge [OF p(2) sfh p(1)] merge by simp
        ultimately show ?thesis using step [of ?p] p merge frames_moved_merge by (fastforce simp: Some)
      next
        case gap: False
        obtain ret' fs b' where r: "move_data_loop write_at (sf_end sf) (Some ?sf) sfs b1 = Some (ret', fs, b')" "ok b'"
          "\<forall>p. stored b p (st ! p) \<longrightarrow> stored b' p (st ! p)" "\<forall>p. stored b1 p (st ! p) \<longrightarrow> stored b' p (st ! p)"
          "frames_moved (stored b') lo st (?sf # sfs) fs"
          using step [OF sfh] by auto
        have "frames_moved (stored b') lo st (p # ?sf # sfs) (p # fs)"
          using p r(4) frame_holds_mono [OF p(2), of lo "stored b'"] by (intro frames_moved_Cons [OF r(5)]) auto
        then show ?thesis using w(1) True gap r by (auto simp: Let_def Some frames_moved_def)
      qed
    qed
  qed
qed

lemma move_data_spec:
  assumes b: "ok b" and st: "length st \<le> 2 ^ 62" and inv: "sfl_inv fl"
    and holds: "\<forall>f \<in> set (sfl_frames fl). frame_holds (stored b) (unat (sfl_offset fl)) st f"
  shows "\<exists>ret fl' b'. ossl_sframe_list_move_data write_at fl b = Some (ret, fl', b') \<and> ok b' \<and> sfl_inv fl'
    \<and> received fl' = received fl \<and> sfl_curr_end fl' = sfl_curr_end fl
    \<and> (\<forall>f \<in> set (sfl_frames fl'). frame_holds (stored b') (unat (sfl_offset fl)) st f)
    \<and> fl' = fl\<lparr>sfl_frames := sfl_frames fl'\<rparr>"
proof (cases "sfl_frames fl = []")
  case True
  then show ?thesis using assms by (auto simp: ossl_sframe_list_move_data_def)
next
  case False
  let ?lo = "unat (sfl_offset fl)"
  define n where "n = (if head_locked fl then 1 else 0 :: nat)"
  define hd' tl' where "hd' = take n (sfl_frames fl)" and "tl' = drop n (sfl_frames fl)"
  have fs: "sfl_frames fl = hd' @ tl'" by (simp add: hd'_def tl'_def)
  have s: "frames_sorted (hd' @ tl')" "\<forall>f \<in> set (hd' @ tl'). sfl_offset fl < sf_end f"
    using inv by (auto simp: sfl_inv_def fs)
  obtain ret fs' b' where r: "move_data_loop write_at (sfl_offset fl) None tl' b = Some (ret, fs', b')" "ok b'"
    "\<forall>p. stored b p (st ! p) \<longrightarrow> stored b' p (st ! p)" "frames_moved (stored b') ?lo st tl' fs'"
    using move_data_loop_moves [OF b st, of None tl' ?lo "sfl_offset fl"] s holds fs by auto
  have kept: "\<forall>f \<in> set (hd' @ tl'). frame_holds (stored b') ?lo st f"
    using holds r(3) unfolding fs by (blast intro: frame_holds_mono)
  have "hd' = [] \<or> (\<exists>h. hd' = [h])" using False by (cases "sfl_frames fl") (simp_all add: hd'_def n_def)
  then have moved: "frames_moved (stored b') ?lo st (hd' @ tl') (hd' @ fs')"
  proof (elim disjE exE)
    fix h assume "hd' = [h]"
    then show ?thesis using frames_moved_Cons [OF r(4), of h] s(1) kept by simp
  qed (simp add: r(4))
  let ?fl = "fl\<lparr>sfl_frames := hd' @ fs'\<rparr>"
  have ends: "sfl_offset fl < sf_end f" if "f \<in> set (hd' @ fs')" for f
  proof -
    obtain g where "g \<in> set (hd' @ tl')" "sf_end g \<le> sf_end f"
      using moved \<open>f \<in> set (hd' @ fs')\<close> unfolding frames_moved_def by blast
    then show ?thesis using s(2) by (auto intro: less_le_trans)
  qed
  have "ossl_sframe_list_move_data write_at fl b = Some (ret, ?fl, b')"
    using False r(1) by (simp add: ossl_sframe_list_move_data_def Let_def hd'_def tl'_def n_def)
  moreover have "sfl_inv ?fl" "received ?fl = received fl" "sfl_curr_end ?fl = sfl_curr_end fl"
    using moved ends False by (auto simp: sfl_inv_def frames_moved_def received_def sfl_curr_end_def fs)
  ultimately show ?thesis using r(2) moved
    by (intro exI [of _ ret] exI [of _ ?fl] exI [of _ b']) (auto simp: frames_moved_def)
qed

end

text \<open>The ring buffer is such a storage.\<close>

definition rb_stored :: "ring_buf \<Rightarrow> nat \<Rightarrow> u8 \<Rightarrow> bool" where
  "rb_stored r p v \<longleftrightarrow> rb_low r \<le> p \<and> p < rb_high r \<and> rb_get r p = v"

lemma ring_buf_write_at_cases:
  assumes ok: "rb_ok r" and lim: "unat off + length buf \<le> 2 ^ 62"
  shows "ring_buf_write_at r off buf = Some (False, r)
    \<or> rb_low r \<le> unat off \<and> unat off + length buf \<le> rb_low r + length (rb_data r)
      \<and> ring_buf_write_at r off buf = map_option (Pair True) (write_at_loop 2 r off buf)"
proof (cases "rb_low r + length (rb_data r) < 2 ^ 64")
  case True
  then show ?thesis using ring_buf_write_at_spec [OF assms True] by (auto split: if_splits)
next
  case False
  have "rb_high r + unat (ring_buf_avail r) = rb_low r + length (rb_data r)"
    using ok by (simp add: rb_ok_avail) (simp add: rb_ok_def)
  then have "snd (safe_add_u64 (head_offset r) (ring_buf_avail r))"
    using False by (simp add: safe_add_err rb_high_def)
  then have "ring_buf_write_at r off buf = Some (False, r)"
    by (simp add: ring_buf_write_at_def Let_def case_prod_beta)
  then show ?thesis by simp
qed

interpretation ring_storage: side_storage "\<lambda>off buf r. ring_buf_write_at r off buf"
  "\<lambda>r. rb_ok r \<and> rb_low r = k" rb_stored for k
proof (unfold_locales, goal_cases)
  case (1 r off buf)
  then have ok: "rb_ok r" by simp
  show ?case
  proof (cases "ring_buf_write_at r off buf = Some (False, r)")
    case True
    then show ?thesis using 1 by auto
  next
    case False
    then have w: "rb_low r \<le> unat off" "unat off + length buf \<le> rb_low r + length (rb_data r)"
      "ring_buf_write_at r off buf = map_option (Pair True) (write_at_loop 2 r off buf)"
      using ring_buf_write_at_cases [OF ok 1(2)] by auto
    show ?thesis
    proof (cases "buf = []")
      case True
      then have "ring_buf_write_at r off buf = Some (True, r)" using w(3) by (simp add: numeral_2_eq_2)
      then show ?thesis using 1 True by auto
    next
      case buf: False
      obtain r' where r': "write_at_loop 2 r off buf = Some r'" "rb_ok r'" "rb_low r' = rb_low r"
        "rb_high r' = max (rb_high r) (unat off + length buf)" 
        "\<forall>p. unat off \<le> p \<and> p < unat off + length buf \<longrightarrow> rb_get r' p = buf ! (p - unat off)"
        "\<forall>p. rb_low r \<le> p \<and> p < rb_low r + length (rb_data r)
           \<and> (p < unat off \<or> unat off + length buf \<le> p) \<longrightarrow> rb_get r' p = rb_get r p"
        using ring_buf_write_loop [OF ok buf w(1,2) 1(2)] by auto
      have high: "rb_high r \<le> rb_low r + length (rb_data r)" using ok by (simp add: rb_ok_def)
      have "rb_stored r' p v" if "rb_stored r p v"
        "unat off \<le> p \<and> p < unat off + length buf \<longrightarrow> v = buf ! (p - unat off)" for p v
      proof (cases "unat off \<le> p \<and> p < unat off + length buf")
        case True
        then show ?thesis using that r'(3-5) by (auto simp: rb_stored_def)
      next
        case False
        then have "p < unat off \<or> unat off + length buf \<le> p" by auto
        then have "rb_get r' p = rb_get r p" using r'(6) that(1) high by (auto simp: rb_stored_def)
        then show ?thesis using that(1) r'(3,4) by (auto simp: rb_stored_def)
      qed
      moreover have "\<forall>i < length buf. rb_stored r' (unat off + i) (buf ! i)"
        using r'(3-5) w(1) by (auto simp: rb_stored_def)
      ultimately show ?thesis unfolding w(3) r'(1) using r'(2,3) 1(1)
        by (intro exI [of _ True] exI [of _ r']) simp
    qed
  qed
qed

end
