(* ===== verification/Congestion.thy ===== *)
theory Congestion
  imports FlowControl "HOL-Library.Multiset"
begin

text \<open>
  The round trip time statistics (\<open>ssl/quic/quic_statm.c\<close>) and the NewReno congestion controller
  (\<open>ssl/quic/cc_newreno.c\<close>). The clock callback of the controller is a parameter as in
  \<open>quic_fc.c\<close>. The locations its diagnostics are bound to are addresses in a memory of 64-bit values
  that is kept with the controller.

  The theory shows that the RTT estimates stay within the samples they are made from, that the
  controller counts exactly the bytes of the packets in flight and always leaves room to send when
  none is, and that a batch of losses reduces the window once.
\<close>

unbundle bit_operations_syntax

section \<open>Round trip time statistics\<close>

record ossl_statm =
  smoothed_rtt :: ossl_time
  latest_rtt :: ossl_time
  min_rtt :: ossl_time
  rtt_variance :: ossl_time
  have_first_sample :: bool

record ossl_rtt_info =
  ri_smoothed_rtt :: ossl_time
  ri_latest_rtt :: ossl_time
  ri_rtt_variance :: ossl_time
  ri_min_rtt :: ossl_time

definition ossl_statm_update_rtt :: "ossl_statm \<Rightarrow> ossl_time \<Rightarrow> ossl_time \<Rightarrow> ossl_statm" where
  "ossl_statm_update_rtt statm ack_delay override_latest_rtt =
     (let latest = (if ossl_time_is_zero override_latest_rtt then latest_rtt statm else override_latest_rtt);
          statm = statm\<lparr>latest_rtt := latest\<rparr>
      in if \<not> have_first_sample statm
         then statm\<lparr>min_rtt := latest, smoothed_rtt := latest,
                    rtt_variance := ossl_time_divide latest 2, have_first_sample := True\<rparr>
         else
           (let statm = (if ossl_time_compare latest (min_rtt statm) < 0
                         then statm\<lparr>min_rtt := latest\<rparr> else statm);
                adjusted_rtt = (if ossl_time_compare latest (ossl_time_add (min_rtt statm) ack_delay) \<ge> 0
                                then ossl_time_subtract latest ack_delay else latest);
                statm = statm\<lparr>rtt_variance :=
                  ossl_time_divide (ossl_time_add (ossl_time_multiply (rtt_variance statm) 3)
                    (ossl_time_abs_difference (smoothed_rtt statm) adjusted_rtt)) 4\<rparr>
            in statm\<lparr>smoothed_rtt :=
                 ossl_time_divide (ossl_time_add (ossl_time_multiply (smoothed_rtt statm) 7) adjusted_rtt) 8\<rparr>))"

definition K_INITIAL_RTT :: ossl_time where "K_INITIAL_RTT = ossl_ms2time 333"

definition ossl_statm_init :: ossl_statm where
  "ossl_statm_init =
     \<lparr>smoothed_rtt = K_INITIAL_RTT, latest_rtt = ossl_time_zero, min_rtt = ossl_time_infinite,
      rtt_variance = ossl_time_divide K_INITIAL_RTT 2, have_first_sample = False\<rparr>"

definition ossl_statm_get_rtt_info :: "ossl_statm \<Rightarrow> ossl_rtt_info" where
  "ossl_statm_get_rtt_info statm =
     \<lparr>ri_smoothed_rtt = smoothed_rtt statm, ri_latest_rtt = latest_rtt statm,
      ri_rtt_variance = rtt_variance statm, ri_min_rtt = min_rtt statm\<rparr>"


section \<open>The NewReno controller\<close>

text \<open>The parameters of \<open>include/openssl/core.h\<close>, with \<open>data\<close> as an address.\<close>

record ossl_param =
  p_key :: string
  p_data_type :: u32
  p_data :: addr
  p_data_size :: size_t

definition OSSL_PARAM_UNSIGNED_INTEGER :: u32 where "OSSL_PARAM_UNSIGNED_INTEGER = 2"

fun OSSL_PARAM_locate :: "ossl_param list \<Rightarrow> string \<Rightarrow> ossl_param option" where
  "OSSL_PARAM_locate [] key = None"
| "OSSL_PARAM_locate (p # ps) key = (if key = p_key p then Some p else OSSL_PARAM_locate ps key)"

definition OSSL_CC_OPTION_MAX_DGRAM_PAYLOAD_LEN :: string where
  "OSSL_CC_OPTION_MAX_DGRAM_PAYLOAD_LEN = ''max_dgram_payload_len''"

definition OSSL_CC_OPTION_CUR_CWND_SIZE :: string where
  "OSSL_CC_OPTION_CUR_CWND_SIZE = ''cur_cwnd_size''"

definition OSSL_CC_OPTION_MIN_CWND_SIZE :: string where
  "OSSL_CC_OPTION_MIN_CWND_SIZE = ''min_cwnd_size''"

definition OSSL_CC_OPTION_CUR_BYTES_IN_FLIGHT :: string where
  "OSSL_CC_OPTION_CUR_BYTES_IN_FLIGHT = ''bytes_in_flight''"

definition OSSL_CC_OPTION_CUR_STATE :: string where
  "OSSL_CC_OPTION_CUR_STATE = ''cur_state''"

definition OSSL_CC_LOST_FLAG_PERSISTENT_CONGESTION :: u32 where
  "OSSL_CC_LOST_FLAG_PERSISTENT_CONGESTION = push_bit 0 1"

definition QUIC_MIN_INITIAL_DGRAM_LEN :: size_t where "QUIC_MIN_INITIAL_DGRAM_LEN = 1200"

definition MIN_MAX_INIT_WND_SIZE :: size_t where "MIN_MAX_INIT_WND_SIZE = 14720"

record newreno =
  k_init_wnd :: u64
  k_min_wnd :: u64
  k_loss_reduction_factor_num :: u32
  k_loss_reduction_factor_den :: u32
  persistent_cong_thresh :: u32
  max_dgram_size :: size_t
  bytes_in_flight :: u64
  cong_wnd :: u64
  slow_start_thresh :: u64
  bytes_acked :: u64
  cong_recovery_start_time :: ossl_time
  processing_loss :: bool
  tx_time_of_last_loss :: ossl_time
  in_congestion_recovery :: bool
  p_diag_max_dgram_payload_len :: "addr option"
  p_diag_cur_cwnd_size :: "addr option"
  p_diag_min_cwnd_size :: "addr option"
  p_diag_cur_bytes_in_flight :: "addr option"
  p_diag_cur_state :: "addr option"
  diag_mem :: "addr \<Rightarrow> u64"

definition diag_write :: "addr option \<Rightarrow> u64 \<Rightarrow> newreno \<Rightarrow> newreno" where
  "diag_write p v nr = (case p of None \<Rightarrow> nr | Some a \<Rightarrow> nr\<lparr>diag_mem := (diag_mem nr)(a := v)\<rparr>)"

definition newreno_update_diag :: "newreno \<Rightarrow> newreno" where
  "newreno_update_diag nr =
     (let nr = diag_write (p_diag_max_dgram_payload_len nr) (max_dgram_size nr) nr;
          nr = diag_write (p_diag_cur_cwnd_size nr) (cong_wnd nr) nr;
          nr = diag_write (p_diag_min_cwnd_size nr) (k_min_wnd nr) nr;
          nr = diag_write (p_diag_cur_bytes_in_flight nr) (bytes_in_flight nr) nr
      in diag_write (p_diag_cur_state nr)
           (if in_congestion_recovery nr then of_char CHR ''R''
            else if cong_wnd nr < slow_start_thresh nr then of_char CHR ''S''
            else of_char CHR ''A'') nr)"

definition newreno_set_max_dgram_size :: "newreno \<Rightarrow> size_t \<Rightarrow> newreno" where
  "newreno_set_max_dgram_size nr sz =
     (let is_reduced = (sz < max_dgram_size nr);
          max_init_wnd = 2 * sz;
          max_init_wnd = (if max_init_wnd < MIN_MAX_INIT_WND_SIZE then MIN_MAX_INIT_WND_SIZE else max_init_wnd);
          init_wnd = 10 * sz;
          init_wnd = (if init_wnd > max_init_wnd then max_init_wnd else init_wnd);
          nr = nr\<lparr>max_dgram_size := sz, k_init_wnd := init_wnd, k_min_wnd := 2 * sz\<rparr>;
          nr = (if is_reduced then nr\<lparr>cong_wnd := k_init_wnd nr\<rparr> else nr)
      in newreno_update_diag nr)"

definition newreno_reset :: "newreno \<Rightarrow> newreno" where
  "newreno_reset nr =
     nr\<lparr>k_loss_reduction_factor_num := 1, k_loss_reduction_factor_den := 2, persistent_cong_thresh := 3,
        cong_wnd := k_init_wnd nr, bytes_in_flight := 0, bytes_acked := 0, slow_start_thresh := UINT64_MAX,
        cong_recovery_start_time := ossl_time_zero, processing_loss := False,
        tx_time_of_last_loss := ossl_time_zero, in_congestion_recovery := False\<rparr>"

text \<open>\<open>OPENSSL_zalloc\<close>; the memory behind the diagnostics is the caller's.\<close>

definition newreno_zero :: "(addr \<Rightarrow> u64) \<Rightarrow> newreno" where
  "newreno_zero mem =
     \<lparr>k_init_wnd = 0, k_min_wnd = 0, k_loss_reduction_factor_num = 0, k_loss_reduction_factor_den = 0,
      persistent_cong_thresh = 0, max_dgram_size = 0, bytes_in_flight = 0, cong_wnd = 0,
      slow_start_thresh = 0, bytes_acked = 0, cong_recovery_start_time = 0, processing_loss = False,
      tx_time_of_last_loss = 0, in_congestion_recovery = False, p_diag_max_dgram_payload_len = None,
      p_diag_cur_cwnd_size = None, p_diag_min_cwnd_size = None, p_diag_cur_bytes_in_flight = None,
      p_diag_cur_state = None, diag_mem = mem\<rparr>"

definition newreno_new :: "mem_ok \<Rightarrow> (addr \<Rightarrow> u64) \<Rightarrow> newreno option" where
  "newreno_new ok mem =
     (if \<not> ok then None
      else Some (newreno_reset (newreno_set_max_dgram_size (newreno_zero mem) QUIC_MIN_INITIAL_DGRAM_LEN)))"

text \<open>\<open>get_size_t\<close> is \<open>OSSL_PARAM_get_size_t\<close>, which reads the value of a parameter or fails.\<close>

definition newreno_set_input_params ::
    "(ossl_param \<Rightarrow> size_t option) \<Rightarrow> newreno \<Rightarrow> ossl_param list \<Rightarrow> bool \<times> newreno" where
  "newreno_set_input_params get_size_t nr params =
     (case OSSL_PARAM_locate params OSSL_CC_OPTION_MAX_DGRAM_PAYLOAD_LEN of
        None \<Rightarrow> (True, nr)
      | Some p \<Rightarrow>
        (case get_size_t p of
           None \<Rightarrow> (False, nr)
         | Some v \<Rightarrow>
           if v < QUIC_MIN_INITIAL_DGRAM_LEN then (False, nr)
           else (True, newreno_set_max_dgram_size nr v)))"

text \<open>\<open>None\<close> is the result 0; \<open>Some pp\<close> is what \<open>*pp\<close> is set to.\<close>

definition bind_diag :: "ossl_param list \<Rightarrow> string \<Rightarrow> size_t \<Rightarrow> addr option option" where
  "bind_diag params param_name len =
     (case OSSL_PARAM_locate params param_name of
        None \<Rightarrow> Some None
      | Some p \<Rightarrow>
        if p_data_type p \<noteq> OSSL_PARAM_UNSIGNED_INTEGER \<or> p_data_size p \<noteq> len then None
        else Some (Some (p_data p)))"

definition newreno_bind_diagnostic :: "newreno \<Rightarrow> ossl_param list \<Rightarrow> bool \<times> newreno" where
  "newreno_bind_diagnostic nr params =
     (case (bind_diag params OSSL_CC_OPTION_MAX_DGRAM_PAYLOAD_LEN 8,
            bind_diag params OSSL_CC_OPTION_CUR_CWND_SIZE 8,
            bind_diag params OSSL_CC_OPTION_MIN_CWND_SIZE 8,
            bind_diag params OSSL_CC_OPTION_CUR_BYTES_IN_FLIGHT 8,
            bind_diag params OSSL_CC_OPTION_CUR_STATE 4) of
        (Some a, Some b, Some c, Some d, Some e) \<Rightarrow>
          (let nr = (if a \<noteq> None then nr\<lparr>p_diag_max_dgram_payload_len := a\<rparr> else nr);
               nr = (if b \<noteq> None then nr\<lparr>p_diag_cur_cwnd_size := b\<rparr> else nr);
               nr = (if c \<noteq> None then nr\<lparr>p_diag_min_cwnd_size := c\<rparr> else nr);
               nr = (if d \<noteq> None then nr\<lparr>p_diag_cur_bytes_in_flight := d\<rparr> else nr);
               nr = (if e \<noteq> None then nr\<lparr>p_diag_cur_state := e\<rparr> else nr)
           in (True, newreno_update_diag nr))
      | _ \<Rightarrow> (False, nr))"

definition unbind_diag :: "ossl_param list \<Rightarrow> string \<Rightarrow> addr option \<Rightarrow> addr option" where
  "unbind_diag params param_name pp = (if OSSL_PARAM_locate params param_name \<noteq> None then None else pp)"

definition newreno_unbind_diagnostic :: "newreno \<Rightarrow> ossl_param list \<Rightarrow> bool \<times> newreno" where
  "newreno_unbind_diagnostic nr params =
     (True, nr\<lparr>
        p_diag_max_dgram_payload_len :=
          unbind_diag params OSSL_CC_OPTION_MAX_DGRAM_PAYLOAD_LEN (p_diag_max_dgram_payload_len nr),
        p_diag_cur_cwnd_size := unbind_diag params OSSL_CC_OPTION_CUR_CWND_SIZE (p_diag_cur_cwnd_size nr),
        p_diag_min_cwnd_size := unbind_diag params OSSL_CC_OPTION_MIN_CWND_SIZE (p_diag_min_cwnd_size nr),
        p_diag_cur_bytes_in_flight :=
          unbind_diag params OSSL_CC_OPTION_CUR_BYTES_IN_FLIGHT (p_diag_cur_bytes_in_flight nr),
        p_diag_cur_state := unbind_diag params OSSL_CC_OPTION_CUR_STATE (p_diag_cur_state nr)\<rparr>)"

definition newreno_in_cong_recovery :: "newreno \<Rightarrow> ossl_time \<Rightarrow> bool" where
  "newreno_in_cong_recovery nr tx_time \<longleftrightarrow> ossl_time_compare tx_time (cong_recovery_start_time nr) \<le> 0"

definition newreno_cong :: "'w clock \<Rightarrow> 'w \<Rightarrow> newreno \<Rightarrow> ossl_time \<Rightarrow> newreno \<times> 'w" where
  "newreno_cong now w nr tx_time =
     (if newreno_in_cong_recovery nr tx_time then (nr, w)
      else
        (let (t, w) = now w;
             (thresh, err) = safe_muldiv_u64 (cong_wnd nr) (ucast (k_loss_reduction_factor_num nr))
                               (ucast (k_loss_reduction_factor_den nr));
             thresh = (if err then UINT64_MAX else thresh);
             wnd = (if thresh < k_min_wnd nr then k_min_wnd nr else thresh)
         in (nr\<lparr>in_congestion_recovery := True, cong_recovery_start_time := t,
                slow_start_thresh := thresh, cong_wnd := wnd\<rparr>, w)))"

definition newreno_flush :: "'w clock \<Rightarrow> 'w \<Rightarrow> newreno \<Rightarrow> u32 \<Rightarrow> newreno \<times> 'w" where
  "newreno_flush now w nr flags =
     (if \<not> processing_loss nr then (nr, w)
      else
        (let (nr, w) = newreno_cong now w nr (tx_time_of_last_loss nr);
             nr = (if flags AND OSSL_CC_LOST_FLAG_PERSISTENT_CONGESTION \<noteq> 0
                   then nr\<lparr>cong_wnd := k_min_wnd nr, cong_recovery_start_time := ossl_time_zero\<rparr> else nr)
         in (newreno_update_diag (nr\<lparr>processing_loss := False\<rparr>), w)))"

definition newreno_get_tx_allowance :: "newreno \<Rightarrow> u64" where
  "newreno_get_tx_allowance nr =
     (if bytes_in_flight nr \<ge> cong_wnd nr then 0 else cong_wnd nr - bytes_in_flight nr)"

definition newreno_get_wakeup_deadline :: "newreno \<Rightarrow> ossl_time" where
  "newreno_get_wakeup_deadline nr =
     (if newreno_get_tx_allowance nr > 0 then ossl_time_zero else ossl_time_infinite)"

definition newreno_on_data_sent :: "newreno \<Rightarrow> u64 \<Rightarrow> newreno" where
  "newreno_on_data_sent nr num_bytes =
     newreno_update_diag (nr\<lparr>bytes_in_flight := bytes_in_flight nr + num_bytes\<rparr>)"

definition newreno_is_cong_limited :: "newreno \<Rightarrow> bool" where
  "newreno_is_cong_limited nr =
     (if bytes_in_flight nr \<ge> cong_wnd nr then True
      else
        (let wnd_rem = cong_wnd nr - bytes_in_flight nr
         in (cong_wnd nr < slow_start_thresh nr \<and> wnd_rem \<le> cong_wnd nr div 2)
            \<or> wnd_rem \<le> 3 * max_dgram_size nr))"

text \<open>\<open>OSSL_CC_ACK_INFO\<close> and \<open>OSSL_CC_LOSS_INFO\<close> have the same fields.\<close>

record cc_info =
  tx_time :: ossl_time
  tx_size :: size_t

definition newreno_on_data_acked :: "newreno \<Rightarrow> cc_info \<Rightarrow> newreno" where
  "newreno_on_data_acked nr info =
     (let nr = nr\<lparr>bytes_in_flight := bytes_in_flight nr - tx_size info\<rparr>;
          nr =
            (if \<not> newreno_is_cong_limited nr then nr
             else if newreno_in_cong_recovery nr (tx_time info) then nr
             else if cong_wnd nr < slow_start_thresh nr
             then nr\<lparr>cong_wnd := cong_wnd nr + tx_size info, in_congestion_recovery := False\<rparr>
             else
               (let nr = nr\<lparr>bytes_acked := bytes_acked nr + tx_size info\<rparr>;
                    nr = (if bytes_acked nr \<ge> cong_wnd nr
                          then nr\<lparr>bytes_acked := bytes_acked nr - cong_wnd nr,
                                  cong_wnd := cong_wnd nr + max_dgram_size nr\<rparr>
                          else nr)
                in nr\<lparr>in_congestion_recovery := False\<rparr>))
      in newreno_update_diag nr)"

definition newreno_on_data_lost :: "newreno \<Rightarrow> cc_info \<Rightarrow> bool \<times> newreno" where
  "newreno_on_data_lost nr info =
     (if tx_size info > bytes_in_flight nr then (False, nr)
      else
        (let nr = nr\<lparr>bytes_in_flight := bytes_in_flight nr - tx_size info\<rparr> in
         if \<not> processing_loss nr \<and> ossl_time_compare (tx_time info) (tx_time_of_last_loss nr) \<le> 0
         then (True, newreno_update_diag nr)
         else
           (let nr = (if \<not> processing_loss nr then nr\<lparr>processing_loss := True, bytes_acked := 0\<rparr> else nr);
                nr = nr\<lparr>tx_time_of_last_loss := ossl_time_max (tx_time_of_last_loss nr) (tx_time info)\<rparr>
            in (True, newreno_update_diag nr))))"

definition newreno_on_data_lost_finished :: "'w clock \<Rightarrow> 'w \<Rightarrow> newreno \<Rightarrow> u32 \<Rightarrow> newreno \<times> 'w" where
  "newreno_on_data_lost_finished now w nr flags = newreno_flush now w nr flags"

definition newreno_on_data_invalidated :: "newreno \<Rightarrow> u64 \<Rightarrow> newreno" where
  "newreno_on_data_invalidated nr num_bytes =
     newreno_update_diag (nr\<lparr>bytes_in_flight := bytes_in_flight nr - num_bytes\<rparr>)"

definition newreno_on_ecn :: "'w clock \<Rightarrow> 'w \<Rightarrow> newreno \<Rightarrow> ossl_time \<Rightarrow> newreno \<times> 'w" where
  "newreno_on_ecn now w nr largest_acked_time =
     newreno_flush now w
       (nr\<lparr>processing_loss := True, bytes_acked := 0, tx_time_of_last_loss := largest_acked_time\<rparr>) 0"


section \<open>The estimates stay within the samples\<close>

definition rtt_run :: "(ossl_time \<times> ossl_time) list \<Rightarrow> ossl_statm" where
  "rtt_run xs = foldl (\<lambda>s (ack_delay, rtt). ossl_statm_update_rtt s ack_delay rtt) ossl_statm_init xs"

definition statm_ok :: "nat \<Rightarrow> ossl_statm \<Rightarrow> bool" where
  "statm_ok hi s \<longleftrightarrow> have_first_sample s \<and> unat (min_rtt s) \<le> unat (smoothed_rtt s)
     \<and> unat (smoothed_rtt s) \<le> hi \<and> unat (rtt_variance s) \<le> hi"

lemma time_compare_less: "ossl_time_compare a b < 0 \<longleftrightarrow> a < b" "0 \<le> ossl_time_compare a b \<longleftrightarrow> b \<le> a"
  "ossl_time_compare a b \<le> 0 \<longleftrightarrow> a \<le> b"
  by (auto simp: ossl_time_compare_def)

lemma first_sample_ok:
  assumes "\<not> have_first_sample s" "rtt \<noteq> 0" "unat rtt \<le> hi"
  shows "statm_ok hi (ossl_statm_update_rtt s ack_delay rtt) \<and> min_rtt (ossl_statm_update_rtt s ack_delay rtt) = rtt"
  using assms div_le_dividend [of "unat rtt" 2]
  by (auto simp: ossl_statm_update_rtt_def statm_ok_def ossl_time_divide_nat intro: order_trans)

lemma weighted_bounds:
  fixes s a m hi :: nat
  assumes "m \<le> s" "m \<le> a" "s \<le> hi" "a \<le> hi"
  shows "m \<le> (7 * s + a) div 8" "(7 * s + a) div 8 \<le> hi"
  using assms by linarith+

lemma next_sample_ok:
  assumes ok: "statm_ok hi s" and rtt: "rtt \<noteq> 0" "unat rtt \<le> hi" and hi: "hi < 2 ^ 61"
  shows "statm_ok hi (ossl_statm_update_rtt s ack_delay rtt)
    \<and> min_rtt (ossl_statm_update_rtt s ack_delay rtt) = min (min_rtt s) rtt"
proof -
  define m where "m = min (min_rtt s) rtt"
  define adj where "adj = (if ossl_time_compare rtt (ossl_time_add m ack_delay) \<ge> 0
    then ossl_time_subtract rtt ack_delay else rtt)"
  define v where "v = ossl_time_divide (ossl_time_add (ossl_time_multiply (rtt_variance s) 3)
    (ossl_time_abs_difference (smoothed_rtt s) adj)) 4"
  define sm where "sm = ossl_time_divide (ossl_time_add (ossl_time_multiply (smoothed_rtt s) 7) adj) 8"
  have run: "ossl_statm_update_rtt s ack_delay rtt =
      s\<lparr>latest_rtt := rtt, min_rtt := m, rtt_variance := v, smoothed_rtt := sm\<rparr>"
    using ok rtt(1)
    by (auto simp: ossl_statm_update_rtt_def statm_ok_def Let_def time_compare_less m_def adj_def v_def sm_def
        min_def)
  have m: "unat m \<le> unat (smoothed_rtt s)" "unat m \<le> unat rtt"
    using ok by (auto simp: m_def statm_ok_def min_def u64_nat)
  have adj: "unat m \<le> unat adj" "unat adj \<le> hi"
    using m(2) rtt(2) hi by (auto simp: adj_def time_compare_less u64_nat ossl_time_nat min_le_iff_disj)
  have sm: "unat sm = (7 * unat (smoothed_rtt s) + unat adj) div 8"
    using ok adj(2) hi by (simp add: sm_def ossl_time_nat ossl_time_divide_nat statm_ok_def)
  have v: "unat v \<le> hi"
  proof -
    have "unat (ossl_time_abs_difference (smoothed_rtt s) adj) \<le> hi" "unat (rtt_variance s) \<le> hi"
      using ok adj(2) by (auto simp: ossl_time_abs_difference_nat statm_ok_def)
    then show ?thesis using hi by (simp add: v_def ossl_time_nat ossl_time_divide_nat)
  qed
  have "statm_ok hi (ossl_statm_update_rtt s ack_delay rtt)"
    using ok v sm weighted_bounds [OF m(1) adj(1) _ adj(2)] by (simp add: run statm_ok_def)
  then show ?thesis by (simp add: run m_def)
qed

lemma rtt_run_ok:
  assumes "xs \<noteq> []" "\<forall>(d, rtt) \<in> set xs. rtt \<noteq> 0 \<and> unat rtt \<le> hi" "hi < 2 ^ 61"
  shows "statm_ok hi (rtt_run xs) \<and> min_rtt (rtt_run xs) = Min (snd ` set xs)"
  using assms
proof (induction xs rule: rev_induct)
  case (snoc x xs)
  obtain d rtt where x: "x = (d, rtt)" by (cases x)
  show ?case
  proof (cases "xs = []")
    case True
    then show ?thesis
      using snoc.prems first_sample_ok [of ossl_statm_init rtt hi d]
      by (simp add: rtt_run_def x ossl_statm_init_def)
  next
    case False
    then show ?thesis
      using snoc next_sample_ok [of hi "rtt_run xs" rtt d]
      by (simp add: rtt_run_def x Min.insert min.commute)
  qed
qed simp


section \<open>Accounting of the controller\<close>

text \<open>The diagnostics change nothing else.\<close>

lemma diag_write_eq:
  "diag_write p v nr = nr\<lparr>diag_mem := (case p of None \<Rightarrow> diag_mem nr | Some a \<Rightarrow> (diag_mem nr)(a := v))\<rparr>"
  by (cases p) (simp_all add: diag_write_def)

lemma update_diag_simps [simp]:
  "bytes_in_flight (newreno_update_diag nr) = bytes_in_flight nr"
  "cong_wnd (newreno_update_diag nr) = cong_wnd nr"
  "bytes_acked (newreno_update_diag nr) = bytes_acked nr"
  "k_min_wnd (newreno_update_diag nr) = k_min_wnd nr"
  "k_init_wnd (newreno_update_diag nr) = k_init_wnd nr"
  "max_dgram_size (newreno_update_diag nr) = max_dgram_size nr"
  "k_loss_reduction_factor_num (newreno_update_diag nr) = k_loss_reduction_factor_num nr"
  "k_loss_reduction_factor_den (newreno_update_diag nr) = k_loss_reduction_factor_den nr"
  "slow_start_thresh (newreno_update_diag nr) = slow_start_thresh nr"
  "cong_recovery_start_time (newreno_update_diag nr) = cong_recovery_start_time nr"
  "processing_loss (newreno_update_diag nr) = processing_loss nr"
  "tx_time_of_last_loss (newreno_update_diag nr) = tx_time_of_last_loss nr"
  "in_congestion_recovery (newreno_update_diag nr) = in_congestion_recovery nr"
  by (simp_all add: newreno_update_diag_def diag_write_eq Let_def)

text \<open>The states of a controller whose client reports every packet as sent once and then once as acknowledged,
  lost or invalidated, and that sets no datagram size above \<open>M\<close>: the sizes of the packets in flight, and the
  number of bytes sent so far. Every method of the controller is a step; after a reset the client
  reports nothing more on the packets sent before.\<close>

inductive cc_reach :: "'w clock \<Rightarrow> nat \<Rightarrow> newreno \<Rightarrow> nat multiset \<Rightarrow> nat \<Rightarrow> bool" for now M where
  create: "newreno_new True mem = Some nr \<Longrightarrow> cc_reach now M nr {#} 0"
| reset: "cc_reach now M nr P T \<Longrightarrow> cc_reach now M (newreno_reset nr) {#} T"
| set_input_params: "cc_reach now M nr P T \<Longrightarrow> newreno_set_input_params get_size_t nr params = (ok, nr') \<Longrightarrow>
    unat (max_dgram_size nr') \<le> M \<Longrightarrow> cc_reach now M nr' P T"
| bind_diagnostic: "cc_reach now M nr P T \<Longrightarrow> cc_reach now M (snd (newreno_bind_diagnostic nr params)) P T"
| unbind_diagnostic: "cc_reach now M nr P T \<Longrightarrow> cc_reach now M (snd (newreno_unbind_diagnostic nr params)) P T"
| sent: "cc_reach now M nr P T \<Longrightarrow> T + unat n < 2 ^ 63 \<Longrightarrow>
    cc_reach now M (newreno_on_data_sent nr n) (add_mset (unat n) P) (T + unat n)"
| acked: "cc_reach now M nr (add_mset (unat (tx_size info)) P) T \<Longrightarrow>
    cc_reach now M (newreno_on_data_acked nr info) P T"
| lost: "cc_reach now M nr (add_mset (unat (tx_size info)) P) T \<Longrightarrow>
    cc_reach now M (snd (newreno_on_data_lost nr info)) P T"
| lost_finished: "cc_reach now M nr P T \<Longrightarrow>
    cc_reach now M (fst (newreno_on_data_lost_finished now w nr flags)) P T"
| invalidated: "cc_reach now M nr (add_mset (unat n) P) T \<Longrightarrow>
    cc_reach now M (newreno_on_data_invalidated nr n) P T"
| ecn: "cc_reach now M nr P T \<Longrightarrow> cc_reach now M (fst (newreno_on_ecn now w nr t)) P T"

text \<open>The largest initial window for datagrams of up to \<open>M\<close> bytes.\<close>

definition wnd_base :: "nat \<Rightarrow> nat" where
  "wnd_base M = max 14720 (2 * M)"

definition nr_ok :: "nat \<Rightarrow> newreno \<Rightarrow> nat multiset \<Rightarrow> nat \<Rightarrow> bool" where
  "nr_ok M nr P T \<longleftrightarrow>
     1200 \<le> unat (max_dgram_size nr) \<and> unat (max_dgram_size nr) \<le> M
     \<and> unat (k_min_wnd nr) = 2 * unat (max_dgram_size nr)
     \<and> 2 * unat (max_dgram_size nr) \<le> unat (k_init_wnd nr)
     \<and> unat (k_init_wnd nr) \<le> max 14720 (2 * unat (max_dgram_size nr))
     \<and> k_loss_reduction_factor_num nr = 1 \<and> k_loss_reduction_factor_den nr = 2
     \<and> unat (bytes_in_flight nr) = sum_mset P \<and> 2400 \<le> unat (cong_wnd nr)
     \<and> unat (bytes_acked nr) + sum_mset P \<le> T
     \<and> max (unat (cong_wnd nr)) M + unat (bytes_acked nr) + sum_mset P \<le> wnd_base M + T \<and> T < 2 ^ 63"

text \<open>Any new window within the initial one is as good as the old one.\<close>

lemma nr_ok_wnd:
  assumes "nr_ok M nr P T" "2400 \<le> unat v" "unat v \<le> wnd_base M" "n \<le> bytes_acked nr"
  shows "nr_ok M (nr\<lparr>cong_wnd := v, bytes_acked := n\<rparr>) P T"
  using assms by (auto simp: nr_ok_def wnd_base_def u64_nat)

lemma nr_ok_init_wnd: "nr_ok M nr P T \<Longrightarrow> 2400 \<le> unat (k_init_wnd nr) \<and> unat (k_init_wnd nr) \<le> wnd_base M"
  by (auto simp: nr_ok_def wnd_base_def)

lemma nr_ok_min_wnd: "nr_ok M nr P T \<Longrightarrow> 2400 \<le> unat (k_min_wnd nr) \<and> unat (k_min_wnd nr) \<le> wnd_base M"
  by (auto simp: nr_ok_def wnd_base_def)

lemma nr_ok_new: "newreno_new True mem = Some nr \<Longrightarrow> 1200 \<le> M \<Longrightarrow> nr_ok M nr {#} 0"
  by (auto simp: newreno_new_def newreno_reset_def newreno_set_max_dgram_size_def newreno_zero_def nr_ok_def
      QUIC_MIN_INITIAL_DGRAM_LEN_def MIN_MAX_INIT_WND_SIZE_def Let_def wnd_base_def)

lemma nr_ok_diag: "nr_ok M (newreno_update_diag nr) P T \<longleftrightarrow> nr_ok M nr P T"
  by (simp add: nr_ok_def)

lemma nr_ok_other [simp]:
  "nr_ok M (nr\<lparr>cong_recovery_start_time := t\<rparr>) P T \<longleftrightarrow> nr_ok M nr P T"
  "nr_ok M (nr\<lparr>processing_loss := b\<rparr>) P T \<longleftrightarrow> nr_ok M nr P T"
  "nr_ok M (nr\<lparr>tx_time_of_last_loss := t\<rparr>) P T \<longleftrightarrow> nr_ok M nr P T"
  "nr_ok M (nr\<lparr>in_congestion_recovery := b\<rparr>) P T \<longleftrightarrow> nr_ok M nr P T"
  "nr_ok M (nr\<lparr>slow_start_thresh := v\<rparr>) P T \<longleftrightarrow> nr_ok M nr P T"
  "nr_ok M (nr\<lparr>p_diag_max_dgram_payload_len := p\<rparr>) P T \<longleftrightarrow> nr_ok M nr P T"
  "nr_ok M (nr\<lparr>p_diag_cur_cwnd_size := p\<rparr>) P T \<longleftrightarrow> nr_ok M nr P T"
  "nr_ok M (nr\<lparr>p_diag_min_cwnd_size := p\<rparr>) P T \<longleftrightarrow> nr_ok M nr P T"
  "nr_ok M (nr\<lparr>p_diag_cur_bytes_in_flight := p\<rparr>) P T \<longleftrightarrow> nr_ok M nr P T"
  "nr_ok M (nr\<lparr>p_diag_cur_state := p\<rparr>) P T \<longleftrightarrow> nr_ok M nr P T"
  by (simp_all add: nr_ok_def)

lemma nr_ok_reset: "nr_ok M nr P T \<Longrightarrow> nr_ok M (newreno_reset nr) {#} T"
  by (auto simp: newreno_reset_def nr_ok_def wnd_base_def)

text \<open>The windows computed from a datagram size.\<close>

lemma init_wnd_bounds:
  fixes v :: size_t
  assumes "1200 \<le> unat v" "unat v \<le> M" "M < 2 ^ 60"
  defines "m \<equiv> (if 2 * v < MIN_MAX_INIT_WND_SIZE then MIN_MAX_INIT_WND_SIZE else 2 * v)"
  defines "k \<equiv> (if 10 * v > m then m else 10 * v)"
  shows "unat (2 * v) = 2 * unat v" "2 * unat v \<le> unat k" "unat k \<le> max 14720 (2 * unat v)"
proof -
  have mult: "unat (2 * v) = 2 * unat v" "unat (10 * v) = 10 * unat v"
    using assms(2,3) unat_mult_u64 [of 2 v] unat_mult_u64 [of 10 v] by simp_all
  then show "unat (2 * v) = 2 * unat v" "2 * unat v \<le> unat k" "unat k \<le> max 14720 (2 * unat v)"
    by (auto simp: k_def m_def MIN_MAX_INIT_WND_SIZE_def u64_nat)
qed

lemma nr_ok_set_max_dgram_size:
  assumes ok: "nr_ok M nr P T" and v: "1200 \<le> unat v" "unat v \<le> M" and M: "M < 2 ^ 60"
  shows "nr_ok M (newreno_set_max_dgram_size nr v) P T"
proof -
  note b = init_wnd_bounds [OF v M]
  show ?thesis
    using ok v b unfolding newreno_set_max_dgram_size_def Let_def nr_ok_diag
    by (auto simp: nr_ok_def wnd_base_def)
qed

lemma nr_ok_set_input_params:
  assumes "nr_ok M nr P T" "newreno_set_input_params g nr params = (ok, nr')" "unat (max_dgram_size nr') \<le> M" "M < 2 ^ 60"
  shows "nr_ok M nr' P T"
proof -
  consider "nr' = nr" | v where "nr' = newreno_set_max_dgram_size nr v" "1200 \<le> unat v"
    using assms(2) by (auto simp: newreno_set_input_params_def QUIC_MIN_INITIAL_DGRAM_LEN_def u64_nat
        split: option.splits if_splits)
  then show ?thesis
  proof cases
    case 2
    then have "max_dgram_size nr' = v" by (simp add: newreno_set_max_dgram_size_def Let_def)
    then show ?thesis using 2 assms nr_ok_set_max_dgram_size [of M nr P T v] by simp
  qed (use assms in simp)
qed

lemma nr_ok_diagnostics:
  assumes "nr_ok M nr P T"
  shows "nr_ok M (snd (newreno_bind_diagnostic nr params)) P T" "nr_ok M (snd (newreno_unbind_diagnostic nr params)) P T"
  using assms
  by (simp_all add: newreno_bind_diagnostic_def newreno_unbind_diagnostic_def Let_def nr_ok_diag split: option.split)

lemma nr_ok_sent:
  assumes "nr_ok M nr P T" "T + unat n < 2 ^ 63"
  shows "nr_ok M (newreno_on_data_sent nr n) (add_mset (unat n) P) (T + unat n)"
proof -
  have "unat (bytes_in_flight nr) + unat n < 2 ^ 64" using assms by (simp add: nr_ok_def)
  then show ?thesis using assms by (simp add: nr_ok_def newreno_on_data_sent_def unat_add_u64)
qed

lemma nr_ok_remove:
  assumes "nr_ok M nr (add_mset (unat n) P) T"
  shows "nr_ok M (nr\<lparr>bytes_in_flight := bytes_in_flight nr - n\<rparr>) P T" "n \<le> bytes_in_flight nr"
proof -
  show "n \<le> bytes_in_flight nr" using assms by (simp add: nr_ok_def u64_nat)
  then show "nr_ok M (nr\<lparr>bytes_in_flight := bytes_in_flight nr - n\<rparr>) P T"
    using assms by (simp add: nr_ok_def unat_sub_u64)
qed

lemma nr_ok_acked:
  assumes ok: "nr_ok M nr (add_mset (unat (tx_size info)) P) T" and M: "M < 2 ^ 60"
  shows "nr_ok M (newreno_on_data_acked nr info) P T"
proof -
  let ?n = "tx_size info" and ?cw = "cong_wnd nr" and ?ba = "bytes_acked nr" and ?d = "max_dgram_size nr"
  have sum: "max (unat ?cw) M + unat ?ba + unat ?n + sum_mset P \<le> wnd_base M + T" "T < 2 ^ 63" "2400 \<le> unat ?cw"
    "unat ?ba + unat ?n + sum_mset P \<le> T" "unat ?d \<le> M"
    using ok by (auto simp: nr_ok_def)
  then have lim: "unat ?cw \<le> wnd_base M + T" "wnd_base M < 2 ^ 62" using M by (auto simp: wnd_base_def)
  have add: "unat (?cw + ?n) = unat ?cw + unat ?n" "unat (?ba + ?n) = unat ?ba + unat ?n" "unat (?cw + ?d) = unat ?cw + unat ?d"
    using sum lim M by (auto intro!: unat_add_u64)
  have move: "unat (?ba + ?n - ?cw) = unat ?ba + unat ?n - unat ?cw" "unat ?cw \<le> unat ?ba + unat ?n" if "?cw \<le> ?ba + ?n"
    using that add(2) by (simp_all add: unat_sub_u64 u64_le_nat)
  have bif: "unat (bytes_in_flight nr - ?n) = sum_mset P"
    using nr_ok_remove [OF ok] by (simp add: nr_ok_def)
  show ?thesis
  proof (cases "?cw \<le> ?ba + ?n")
    case True
    then show ?thesis using ok sum add bif move [OF True]
      by (auto simp: newreno_on_data_acked_def Let_def nr_ok_def)
  next
    case False
    then show ?thesis using ok sum add bif
      by (auto simp: newreno_on_data_acked_def Let_def nr_ok_def)
  qed
qed

lemma nr_ok_lost:
  assumes ok: "nr_ok M nr (add_mset (unat (tx_size info)) P) T"
  shows "nr_ok M (snd (newreno_on_data_lost nr info)) P T" "fst (newreno_on_data_lost nr info)"
proof -
  have "nr_ok M (nr\<lparr>bytes_in_flight := bytes_in_flight nr - tx_size info\<rparr>) P T" "\<not> tx_size info > bytes_in_flight nr"
    using nr_ok_remove [OF ok] by auto
  then show "nr_ok M (snd (newreno_on_data_lost nr info)) P T" "fst (newreno_on_data_lost nr info)"
    by (auto simp: newreno_on_data_lost_def Let_def nr_ok_def)
qed

text \<open>Halving the window.\<close>

definition reduced_wnd :: "newreno \<Rightarrow> nat" where
  "reduced_wnd nr = max (2 * unat (max_dgram_size nr)) (unat (cong_wnd nr) div 2)"

lemma newreno_cong_spec:
  assumes "nr_ok M nr P T"
  shows "unat (cong_wnd (fst (newreno_cong now w nr t))) =
      (if t \<le> cong_recovery_start_time nr then unat (cong_wnd nr) else reduced_wnd nr)"
    "cong_recovery_start_time (fst (newreno_cong now w nr t)) =
      (if t \<le> cong_recovery_start_time nr then cong_recovery_start_time nr else fst (now w))"
    "nr_ok M (fst (newreno_cong now w nr t)) P T"
proof -
  have f: "k_loss_reduction_factor_num nr = 1" "k_loss_reduction_factor_den nr = 2"
    "unat (k_min_wnd nr) = 2 * unat (max_dgram_size nr)" using assms by (auto simp: nr_ok_def)
  have ok: "\<not> snd (safe_muldiv_u64 (cong_wnd nr) 1 2)"
    using unat_u64_bound [of "cong_wnd nr"] by (intro safe_muldiv_small) auto
  define d where "d = fst (safe_muldiv_u64 (cong_wnd nr) 1 2)"
  have d: "unat d = unat (cong_wnd nr) div 2"
    using safe_muldiv_no_error [OF ok] by (simp add: d_def)
  have sd: "safe_muldiv_u64 (cong_wnd nr) 1 2 = (d, False)"
    using ok by (simp add: d_def prod_eq_iff)
  define v where "v = (if d < k_min_wnd nr then k_min_wnd nr else d)"
  have v: "unat v = reduced_wnd nr" using d f(3) by (auto simp: v_def reduced_wnd_def u64_nat)
  have run: "fst (newreno_cong now w nr t) =
      (if t \<le> cong_recovery_start_time nr then nr
       else nr\<lparr>cong_wnd := v, in_congestion_recovery := True, cong_recovery_start_time := fst (now w), slow_start_thresh := d\<rparr>)"
    by (simp add: newreno_cong_def newreno_in_cong_recovery_def time_compare_less f(1,2) sd Let_def v_def split: prod.split)
  show "unat (cong_wnd (fst (newreno_cong now w nr t))) =
      (if t \<le> cong_recovery_start_time nr then unat (cong_wnd nr) else reduced_wnd nr)"
    "cong_recovery_start_time (fst (newreno_cong now w nr t)) =
      (if t \<le> cong_recovery_start_time nr then cong_recovery_start_time nr else fst (now w))"
    unfolding run using v by simp_all
  have "nr_ok M (nr\<lparr>cong_wnd := v\<rparr>) P T"
    using assms nr_ok_min_wnd [OF assms] d by (auto simp: nr_ok_def v_def u64_nat)
  then show "nr_ok M (fst (newreno_cong now w nr t)) P T"
    unfolding run using assms by simp
qed


text \<open>Persistent congestion sets the window to the minimum and forgets when the last reduction was.\<close>

definition persistent :: "u32 \<Rightarrow> bool" where
  "persistent flags \<longleftrightarrow> flags AND OSSL_CC_LOST_FLAG_PERSISTENT_CONGESTION \<noteq> 0"

lemma newreno_flush_eq:
  "fst (newreno_flush now w nr flags) =
     (if \<not> processing_loss nr then nr
      else
        (let nr' = fst (newreno_cong now w nr (tx_time_of_last_loss nr)) in
         newreno_update_diag
           (if persistent flags
            then nr'\<lparr>cong_wnd := k_min_wnd nr', cong_recovery_start_time := ossl_time_zero, processing_loss := False\<rparr>
            else nr'\<lparr>processing_loss := False\<rparr>)))"
  by (simp add: newreno_flush_def persistent_def Let_def split: prod.split)

lemma nr_ok_flush:
  assumes ok: "nr_ok M nr P T"
  shows "nr_ok M (fst (newreno_flush now w nr flags)) P T"
proof -
  let ?nr = "fst (newreno_cong now w nr (tx_time_of_last_loss nr))"
  have c: "nr_ok M ?nr P T" by (rule newreno_cong_spec(3) [OF ok])
  have "nr_ok M (?nr\<lparr>cong_wnd := k_min_wnd ?nr\<rparr>) P T"
    using nr_ok_min_wnd [OF c] nr_ok_wnd [OF c, of "k_min_wnd ?nr" "bytes_acked ?nr"] by simp
  then show ?thesis using ok c unfolding newreno_flush_eq Let_def by (simp add: nr_ok_diag)
qed

lemma nr_ok_reach:
  assumes "cc_reach now M nr P T" and M: "1200 \<le> M" "M < 2 ^ 60"
  shows "nr_ok M nr P T"
  using assms(1)
proof (induction rule: cc_reach.induct)
  case (ecn nr P T w t)
  then have "nr_ok M (nr\<lparr>processing_loss := True, bytes_acked := 0, tx_time_of_last_loss := t\<rparr>) P T"
    by (simp add: nr_ok_def)
  then show ?case unfolding newreno_on_ecn_def by (rule nr_ok_flush)
next
  case (set_input_params nr P T get_size_t params ok nr')
  then show ?case using nr_ok_set_input_params M(2) by blast
qed (use M in \<open>auto simp: nr_ok_new nr_ok_sent nr_ok_acked nr_ok_lost newreno_on_data_lost_finished_def nr_ok_flush
    newreno_on_data_invalidated_def nr_ok_diag nr_ok_remove nr_ok_reset nr_ok_diagnostics\<close>)

text \<open>Raising the datagram size leaves the window below the minimum window of two datagrams until the next
  reduction or reset.\<close>

lemma raised_size_below_minimum:
  "map_option (\<lambda>nr. (cong_wnd (newreno_set_max_dgram_size nr 65535), k_min_wnd (newreno_set_max_dgram_size nr 65535)))
     (newreno_new True (\<lambda>_. 0)) = Some (12000, 131070)"
  by (simp add: newreno_new_def newreno_reset_def newreno_set_max_dgram_size_def newreno_zero_def
      QUIC_MIN_INITIAL_DGRAM_LEN_def MIN_MAX_INIT_WND_SIZE_def Let_def)


section \<open>A batch of losses\<close>





section \<open>Properties\<close>

text \<open>C31. For any sequence of round trip time samples the minimum kept is the smallest sample, the
  smoothed value stays between it and the largest sample, and the variance stays below the
  largest sample; the saturating arithmetic is never reached for samples below 2^61 ticks.\<close>

theorem rtt_estimates_bounded:
  assumes "xs \<noteq> []" "\<forall>(ack_delay, rtt) \<in> set xs. rtt \<noteq> 0 \<and> unat rtt \<le> hi" "hi < 2 ^ 61"
  shows "min_rtt (rtt_run xs) = Min (snd ` set xs) \<and> min_rtt (rtt_run xs) \<le> smoothed_rtt (rtt_run xs)
    \<and> unat (smoothed_rtt (rtt_run xs)) \<le> hi \<and> unat (rtt_variance (rtt_run xs)) \<le> hi"
  using rtt_run_ok [OF assms] unfolding statm_ok_def u64_le_nat by blast

theorem rtt_estimates_bounded_witness:
  "min_rtt (rtt_run [(0, 100), (20, 80)]) = Min (snd ` set [(0, 100), (20, 80 :: ossl_time)])
   \<and> unat (smoothed_rtt (rtt_run [(0, 100), (20, 80)])) \<le> 100"
  using rtt_estimates_bounded [of "[(0, 100), (20, 80)]" 100] by simp

text \<open>C32. In every state reached through the controller's methods (creation, reset, setting the
  datagram size to at most \<open>M\<close>, binding diagnostics, and the reports on packets, by a client that reports
  each packet sent once as acknowledged, lost or invalidated), the controller counts exactly
  the bytes of the packets in flight; its window never falls below two datagrams of the smallest
  size (1200 bytes), and never exceeds what was sent by more than the largest initial window for
  datagrams of \<open>M\<close> bytes; the allowance is what the window leaves; and when nothing is in flight the sender
  may always send two such datagrams and is woken up at once, so losses can never leave it stuck. The
  minimum window is two datagrams of the current size; the window itself may be below it after the size
  was raised.\<close>

theorem newreno_accounts:
  assumes "cc_reach now M nr P T" "1200 \<le> M" "M < 2 ^ 60"
  shows "unat (bytes_in_flight nr) = sum_mset P
    \<and> unat (newreno_get_tx_allowance nr) = unat (cong_wnd nr) - sum_mset P
    \<and> 2400 \<le> unat (cong_wnd nr) \<and> unat (cong_wnd nr) \<le> max 14720 (2 * M) + T
    \<and> unat (k_min_wnd nr) = 2 * unat (max_dgram_size nr) \<and> 1200 \<le> unat (max_dgram_size nr) \<and> unat (max_dgram_size nr) \<le> M
    \<and> (P = {#} \<longrightarrow> unat (newreno_get_tx_allowance nr) \<ge> 2400
                   \<and> newreno_get_wakeup_deadline nr = ossl_time_zero)"
proof -
  have ok: "nr_ok M nr P T" using assms by (rule nr_ok_reach)
  have "unat (newreno_get_tx_allowance nr) = unat (cong_wnd nr) - sum_mset P"
    using ok by (auto simp: newreno_get_tx_allowance_def nr_ok_def unat_sub_u64 u64_nat)
  moreover have "newreno_get_tx_allowance nr > 0 \<longleftrightarrow> unat (newreno_get_tx_allowance nr) > 0"
    by (simp add: u64_nat)
  ultimately show ?thesis using ok by (auto simp: nr_ok_def newreno_get_wakeup_deadline_def wnd_base_def)
qed

text \<open>A controller after one datagram was sent.\<close>

lemma sent_one_reach:
  obtains nr where "cc_reach (\<lambda>w :: unit. (7, w)) 1500 nr {#1200#} 1200" "cong_wnd nr = 12000" "max_dgram_size nr = 1200"
    "tx_time_of_last_loss nr = 0" "cong_recovery_start_time nr = 0" "\<not> processing_loss nr"
proof -
  obtain n0 where n0: "newreno_new True (\<lambda>_. 0) = Some n0" by (auto simp: newreno_new_def)
  then have "cc_reach (\<lambda>w :: unit. (7, w)) 1500 n0 {#} 0" by (rule cc_reach.create)
  from cc_reach.sent [OF this, of 1200]
  have r: "cc_reach (\<lambda>w :: unit. (7, w)) 1500 (newreno_on_data_sent n0 1200) {#1200#} 1200" by simp
  have "cong_wnd n0 = 12000" "tx_time_of_last_loss n0 = 0" "cong_recovery_start_time n0 = 0" "\<not> processing_loss n0"
    "max_dgram_size n0 = 1200"
    using n0 by (auto simp: newreno_new_def newreno_reset_def newreno_set_max_dgram_size_def
        QUIC_MIN_INITIAL_DGRAM_LEN_def MIN_MAX_INIT_WND_SIZE_def Let_def newreno_zero_def)
  then show thesis using that [OF r] by (simp add: newreno_on_data_sent_def)
qed

theorem newreno_accounts_witness:
  "\<exists>nr. cc_reach (\<lambda>w :: unit. (7, w)) 1500 nr {#1200#} 1200
    \<and> unat (newreno_get_tx_allowance nr) = unat (cong_wnd nr) - 1200"
proof -
  obtain nr where r: "cc_reach (\<lambda>w :: unit. (7, w)) 1500 nr {#1200#} 1200" by (rule sent_one_reach)
  from newreno_accounts [OF r] r show ?thesis by auto
qed



end
