(* ===== verification/RStream.thy ===== *)
theory RStream
  imports SFrameList FlowControl Congestion
begin

text \<open>
  The receiving part of a stream (\<open>ssl/quic/quic_rstream.c\<close>): the list of received frames, the ring
  buffer their data is moved to when packets are to be released, the flow controller that is told
  what was read and the round trip statistics it wants. Controllers and statistics live in stores
  and are referred to by address. A failed assertion and a read outside a frame are the outcome
  \<open>None\<close>.

  The theory shows that what is read is the stream: every operation is defined and keeps the
  invariant that frames and ring buffer hold their part of the stream, and a read returns the bytes
  from the read offset to the first missing one or to the size of the buffer.
\<close>

section \<open>The model\<close>

record quic_rstream =
  rs_fl :: sframe_list
  rs_rxfc :: "addr option"
  rs_statm :: "addr option"
  head_range :: uint_range
  rs_rbuf :: ring_buf

text \<open>\<open>Some None\<close> is the result NULL.\<close>

definition ossl_quic_rstream_new ::
    "mem_ok \<Rightarrow> bytes option \<Rightarrow> addr option \<Rightarrow> addr option \<Rightarrow> size_t \<Rightarrow> quic_rstream option option" where
  "ossl_quic_rstream_new mem block rxfc statm rbuf_size =
     (if \<not> mem then Some None
      else
        map_option (\<lambda>(ok, rbuf). if \<not> ok then None
           else Some \<lparr>rs_fl = ossl_sframe_list_init, rs_rxfc = rxfc, rs_statm = statm,
                      head_range = \<lparr>r_start = 0, r_end = 0\<rparr>, rs_rbuf = rbuf\<rparr>)
          (ring_buf_resize block ring_buf_init rbuf_size))"

definition ossl_quic_rstream_queue_data ::
    "mem_ok \<Rightarrow> quic_rstream \<Rightarrow> u64 \<Rightarrow> bytes option \<Rightarrow> u64 \<Rightarrow> bool \<Rightarrow> (bool \<times> quic_rstream) option" where
  "ossl_quic_rstream_queue_data mem qrs offset data data_len fin =
     (if data = None \<and> data_len \<noteq> 0 \<or> data_len = 0 \<and> \<not> fin then Some (False, qrs)
      else
        map_option (\<lambda>(ok, fl). (ok, qrs\<lparr>rs_fl := fl\<rparr>))
          (ossl_sframe_list_insert mem (rs_fl qrs) \<lparr>r_start = offset, r_end = offset + data_len\<rparr>
             (map_option (take (unat data_len)) data) fin))"

text \<open>The bytes of a frame that are in the ring buffer, in one or two pieces.\<close>

definition read_rbuf :: "ring_buf \<Rightarrow> u64 \<Rightarrow> nat \<Rightarrow> bytes option" where
  "read_rbuf rbuf start l =
     (case ring_buf_get_ptr rbuf start of
        Some (Some data) \<Rightarrow>
          if length data < l then
            (case ring_buf_get_ptr rbuf (start + of_nat (length data)) of
               Some (Some data2) \<Rightarrow>
                 if length data2 > l - length data then Some (data @ take (l - length data) data2) else None
             | _ \<Rightarrow> None)
          else Some (take l data)
      | _ \<Rightarrow> None)"

text \<open>The turns an iterator can still make.\<close>

definition iter_left :: "sframe_list \<Rightarrow> stream_frame list \<Rightarrow> nat" where
  "iter_left fl iter = (if iter = [] then Suc (length (sfl_frames fl)) else length iter)"

lemma peek_iter_left:
  "ossl_sframe_list_peek fl iter = Some (True, iter', rest) \<Longrightarrow> iter_left fl iter' < iter_left fl iter"
  by (auto simp: ossl_sframe_list_peek_def iter_left_def Let_def split: list.splits if_splits)
     (metis length_Cons lessI)

text \<open>The loop of \<open>read_internal\<close>: the bytes read so far, \<open>offset\<close> and \<open>fin_\<close>.\<close>

function read_loop :: "quic_rstream \<Rightarrow> stream_frame list \<Rightarrow> size_t \<Rightarrow> bytes \<Rightarrow> u64 \<Rightarrow> (bytes \<times> u64 \<times> bool) option" where
  "read_loop qrs iter sz acc offset =
     (case ossl_sframe_list_peek (rs_fl qrs) iter of
        None \<Rightarrow> None
      | Some (ret, iter, rng, data, fin) \<Rightarrow>
        if \<not> ret then Some (acc, offset, fin)
        else
          (let l = r_end rng - r_start rng;
               fin = (if l > sz then False else fin);
               l = (if l > sz then sz else l);
               offset = r_start rng + l
           in if l = 0 then Some (acc, offset, fin)
              else
                (case (case data of
                         None \<Rightarrow> read_rbuf (rs_rbuf qrs) (r_start rng) (unat l)
                       | Some d \<Rightarrow> if length d < unat l then None else Some (take (unat l) d)) of
                   None \<Rightarrow> None
                 | Some bs \<Rightarrow>
                   if sz - l = 0 then Some (acc @ bs, offset, fin)
                   else read_loop qrs iter (sz - l) (acc @ bs) offset)))"
  by pat_completeness auto
termination
  by (relation "measure (\<lambda>(qrs, iter, _). iter_left (rs_fl qrs) iter)") (auto dest: peek_iter_left)

declare read_loop.simps [simp del]

definition read_internal :: "quic_rstream \<Rightarrow> size_t \<Rightarrow> bool \<Rightarrow> (bytes \<times> bool \<times> quic_rstream) option" where
  "read_internal qrs sz dropped =
     (case read_loop qrs [] sz [] 0 of
        None \<Rightarrow> None
      | Some (bs, offset, fin) \<Rightarrow>
        if dropped \<and> offset \<noteq> 0 then
          (case ossl_sframe_list_drop_frames (rs_fl qrs) offset of
             None \<Rightarrow> None
           | Some fl \<Rightarrow>
             map_option (\<lambda>rbuf. (bs, fin, qrs\<lparr>rs_fl := fl, rs_rbuf := rbuf\<rparr>))
               (ring_buf_cpop_range (rs_rbuf qrs) 0 (offset - 1) (sfl_cleanse fl)))
        else Some (bs, fin, qrs))"

definition get_rtt :: "(addr \<Rightarrow> ossl_statm) \<Rightarrow> quic_rstream \<Rightarrow> ossl_time" where
  "get_rtt sm qrs =
     (case rs_statm qrs of
        Some a \<Rightarrow> ri_smoothed_rtt (ossl_statm_get_rtt_info (sm a)) | None \<Rightarrow> ossl_time_zero)"

text \<open>The results of \<open>ossl_quic_rstream_read\<close> are the result of the call, the bytes in the buffer and the
  end of stream flag; the bytes are read also when the flow controller refuses.\<close>

definition ossl_quic_rstream_read ::
    "'w clock \<Rightarrow> 'w \<Rightarrow> (addr \<Rightarrow> ossl_statm) \<Rightarrow> rxfc_store \<Rightarrow> quic_rstream \<Rightarrow> size_t \<Rightarrow>
     (bool \<times> bytes \<times> bool \<times> quic_rstream \<times> rxfc_store \<times> 'w) option" where
  "ossl_quic_rstream_read now w sm h qrs sz =
     (let rtt = get_rtt sm qrs in
      map_option (\<lambda>(bs, fin, qrs).
          case rs_rxfc qrs of
            None \<Rightarrow> (True, bs, fin, qrs, h, w)
          | Some rxfc \<Rightarrow>
            (let (ok, h, w) = ossl_quic_rxfc_on_retire now w h rxfc (of_nat (length bs)) rtt
             in (ok, bs, fin, qrs, h, w)))
        (read_internal qrs sz True))"

definition ossl_quic_rstream_peek :: "quic_rstream \<Rightarrow> size_t \<Rightarrow> (bytes \<times> bool) option" where
  "ossl_quic_rstream_peek qrs sz = map_option (\<lambda>(bs, fin, _). (bs, fin)) (read_internal qrs sz False)"

function available_loop :: "quic_rstream \<Rightarrow> stream_frame list \<Rightarrow> u64 \<Rightarrow> (u64 \<times> bool) option" where
  "available_loop qrs iter avail =
     (case ossl_sframe_list_peek (rs_fl qrs) iter of
        None \<Rightarrow> None
      | Some (ret, iter, rng, data, fin) \<Rightarrow>
        if \<not> ret then Some (avail, fin) else available_loop qrs iter (avail + (r_end rng - r_start rng)))"
  by pat_completeness auto
termination
  by (relation "measure (\<lambda>(qrs, iter, _). iter_left (rs_fl qrs) iter)") (auto dest: peek_iter_left)

declare available_loop.simps [simp del]

definition ossl_quic_rstream_available :: "quic_rstream \<Rightarrow> (size_t \<times> bool) option" where
  "ossl_quic_rstream_available qrs = available_loop qrs [] 0"

text \<open>The outputs of \<open>ossl_quic_rstream_get_record\<close> are the record, its length, and \<open>*fin\<close> unless it is left as it
  is. In the code the record is a pointer into the packet or the ring buffer; here it is the bytes it
  points to at that moment. That they stay in place until the record is released is not part of
  the model, and the code does not ensure it: see \<open>insert_frees_locked_head\<close> in \<open>RecvStream\<close>.\<close>

definition ossl_quic_rstream_get_record ::
    "quic_rstream \<Rightarrow> (bytes option \<times> size_t \<times> bool option \<times> quic_rstream) option" where
  "ossl_quic_rstream_get_record qrs =
     (case ossl_sframe_list_lock_head (rs_fl qrs) of
        None \<Rightarrow> None
      | Some (ret, None, fl) \<Rightarrow> Some (None, 0, None, qrs\<lparr>rs_fl := fl\<rparr>)
      | Some (ret, Some (rng, rcrd, fin), fl) \<Rightarrow>
        (let qrs = qrs\<lparr>rs_fl := fl, head_range := rng\<rparr> in
         if \<not> ret then Some (None, 0, Some fin, qrs)
         else
           (case (if r_end rng = r_start rng
                  then (if \<not> fin then None else ossl_sframe_list_drop_frames fl (r_end rng)) else Some fl) of
              None \<Rightarrow> None
            | Some fl \<Rightarrow>
              (let qrs = qrs\<lparr>rs_fl := fl\<rparr>;
                   rec_len = r_end rng - r_start rng
               in if rcrd = None \<and> rec_len \<noteq> 0 then
                    (case ring_buf_get_ptr (rs_rbuf qrs) (r_start rng) of
                       Some (Some d) \<Rightarrow>
                         if of_nat (length d) < rec_len
                         then Some (Some d, of_nat (length d), Some fin,
                                qrs\<lparr>head_range := rng\<lparr>r_end := r_start rng + of_nat (length d)\<rparr>\<rparr>)
                         else Some (Some (take (unat rec_len) d), rec_len, Some fin, qrs)
                     | _ \<Rightarrow> None)
                  else Some (map_option (take (unat rec_len)) rcrd, rec_len, Some fin, qrs)))))"

definition ossl_quic_rstream_release_record ::
    "'w clock \<Rightarrow> 'w \<Rightarrow> (addr \<Rightarrow> ossl_statm) \<Rightarrow> rxfc_store \<Rightarrow> quic_rstream \<Rightarrow> size_t \<Rightarrow>
     (bool \<times> quic_rstream \<times> rxfc_store \<times> 'w) option" where
  "ossl_quic_rstream_release_record now w sm h qrs read_len =
     (let rng = head_range qrs in
      if \<not> ossl_sframe_list_is_head_locked (rs_fl qrs) then Some (False, qrs, h, w)
      else if read_len > r_end rng - r_start rng \<and> read_len \<noteq> SIZE_MAX then Some (False, qrs, h, w)
      else
        (let offset = (if read_len > r_end rng - r_start rng then r_end rng else r_start rng + read_len) in
         case ossl_sframe_list_drop_frames (rs_fl qrs) offset of
           None \<Rightarrow> None
         | Some fl \<Rightarrow>
           map_option (\<lambda>rbuf.
               let qrs = qrs\<lparr>rs_fl := fl, rs_rbuf := rbuf\<rparr> in
               case rs_rxfc qrs of
                 None \<Rightarrow> (True, qrs, h, w)
               | Some rxfc \<Rightarrow>
                 (let (ok, h, w) = ossl_quic_rxfc_on_retire now w h rxfc offset (get_rtt sm qrs)
                  in (ok, qrs, h, w)))
             (if offset > 0 then ring_buf_cpop_range (rs_rbuf qrs) 0 (offset - 1) (sfl_cleanse fl)
              else Some (rs_rbuf qrs))))"

definition write_at_ring_buf_cb :: "u64 \<Rightarrow> bytes \<Rightarrow> ring_buf \<Rightarrow> (bool \<times> ring_buf) option" where
  "write_at_ring_buf_cb logical_offset buf rbuf = ring_buf_write_at rbuf logical_offset buf"

definition ossl_quic_rstream_move_to_rbuf :: "quic_rstream \<Rightarrow> (bool \<times> quic_rstream) option" where
  "ossl_quic_rstream_move_to_rbuf qrs =
     (if ring_buf_avail (rs_rbuf qrs) = 0 then Some (False, qrs)
      else map_option (\<lambda>(ret, fl, rbuf). (ret, qrs\<lparr>rs_fl := fl, rs_rbuf := rbuf\<rparr>))
             (ossl_sframe_list_move_data write_at_ring_buf_cb (rs_fl qrs) (rs_rbuf qrs)))"

definition ossl_quic_rstream_resize_rbuf ::
    "bytes option \<Rightarrow> quic_rstream \<Rightarrow> size_t \<Rightarrow> (bool \<times> quic_rstream) option" where
  "ossl_quic_rstream_resize_rbuf block qrs rbuf_size =
     (if ossl_sframe_list_is_head_locked (rs_fl qrs) then Some (False, qrs)
      else map_option (\<lambda>(ok, rbuf). (ok, qrs\<lparr>rs_rbuf := rbuf\<rparr>)) (ring_buf_resize block (rs_rbuf qrs) rbuf_size))"

definition ossl_quic_rstream_set_cleanse :: "quic_rstream \<Rightarrow> bool \<Rightarrow> quic_rstream" where
  "ossl_quic_rstream_set_cleanse qrs cleanse = qrs\<lparr>rs_fl := (rs_fl qrs)\<lparr>sfl_cleanse := cleanse\<rparr>\<rparr>"


section \<open>Reading\<close>

lemma ring_buf_get_ptr_drop:
  assumes ok: "rb_ok r" and off: "rb_low r \<le> unat off" "unat off < rb_high r"
  shows "ring_buf_get_ptr r off = Some (Some (drop (unat off mod length (rb_data r)) (rb_data r)))"
    "0 < length (rb_data r)"
proof -
  show "0 < length (rb_data r)" using assms by (auto simp: rb_ok_def)
  then show "ring_buf_get_ptr r off = Some (Some (drop (unat off mod length (rb_data r)) (rb_data r)))"
    using assms by (auto simp: ring_buf_get_ptr_def rb_ok_simps u64_nat rb_low_def rb_high_def)
qed

lemma take_drop_block:
  assumes data: "0 < length (rb_data r)" and n: "n \<le> length (rb_data r) - o' mod length (rb_data r)"
    and st: "o' + n \<le> length st" "\<And>p. o' \<le> p \<Longrightarrow> p < o' + n \<Longrightarrow> rb_get r p = st ! p"
  shows "take n (drop (o' mod length (rb_data r)) (rb_data r)) = take n (drop o' st)"
proof (rule nth_equalityI)
  show len: "length (take n (drop (o' mod length (rb_data r)) (rb_data r))) = length (take n (drop o' st))"
    using n st(1) by simp
  fix k assume "k < length (take n (drop (o' mod length (rb_data r)) (rb_data r)))"
  then have k: "k < n" by simp
  have "(o' + k) mod length (rb_data r) = o' mod length (rb_data r) + k"
    using mod_chunk [of o' "o' + k"] k n data by simp
  then show "take n (drop (o' mod length (rb_data r)) (rb_data r)) ! k = take n (drop o' st) ! k"
    using st(2) [of "o' + k"] k n st(1) by (simp add: rb_get_def)
qed

lemma read_rbuf_slice:
  assumes ok: "rb_ok r" and l: "0 < l" "unat start + l \<le> length st" "length st \<le> 2 ^ 62"
    and stored: "\<And>p. unat start \<le> p \<Longrightarrow> p < unat start + l \<Longrightarrow> rb_stored r p (st ! p)"
  shows "read_rbuf r start l = Some (take l (drop (unat start) st))"
proof -
  let ?a = "length (rb_data r)" and ?s = "unat start"
  have "?s + l - 1 < rb_high r" using stored [of "?s + l - 1"] l(1) by (simp add: rb_stored_def)
  then have high: "?s + l \<le> rb_high r" using l(1) by linarith
  have win: "rb_low r \<le> ?s" "\<And>p. ?s \<le> p \<Longrightarrow> p < ?s + l \<Longrightarrow> rb_get r p = st ! p"
    using stored [of ?s] stored l(1) by (auto simp: rb_stored_def)
  note win = win(1) high win(2)
  have first: "ring_buf_get_ptr r start = Some (Some (drop (?s mod ?a) (rb_data r)))" and a: "0 < ?a"
    using ring_buf_get_ptr_drop [OF ok, of start] win l(1) by auto
  show ?thesis
  proof (cases "?a - ?s mod ?a < l")
    case False
    then show ?thesis
      using first take_drop_block [OF a, of l ?s st] win l by (simp add: read_rbuf_def)
  next
    case True
    define n where "n = ?a - ?s mod ?a"
    have n: "n < l" "0 < n" using True a by (auto simp: n_def)
    have s2: "unat (start + of_nat n) = ?s + n" using n l by (intro unat_add_of_nat_u64) simp
    have mod0: "(?s + n) mod ?a = 0"
    proof -
      have "?s mod ?a \<le> ?a" using a by (simp add: less_imp_le)
      then have "?s + n = ?s div ?a * ?a + ?a" using div_mult_mod_eq [of ?s ?a] unfolding n_def by linarith
      then show ?thesis by simp
    qed
    have "l \<le> ?a" using win ok by (auto simp: rb_ok_def)
    moreover have "ring_buf_get_ptr r (start + of_nat n) = Some (Some (rb_data r))"
      using ring_buf_get_ptr_drop(1) [OF ok, of "start + of_nat n"] s2 win n mod0 by simp
    moreover obtain d where d: "ring_buf_get_ptr r start = Some (Some d)" "length d = n" "d = take n (drop ?s st)"
      using first take_drop_block [OF a, of n ?s st] n_def win l n by simp
    moreover have "take (l - n) (rb_data r) = take (l - n) (drop (?s + n) st)"
      using take_drop_block [OF a, of "l - n" "?s + n" st] mod0 win l n \<open>l \<le> ?a\<close> by simp
    ultimately have "read_rbuf r start l = Some (take n (drop ?s st) @ take (l - n) (drop (?s + n) st))"
      using d(1,2) n unfolding d(3) [symmetric] by (simp add: read_rbuf_def)
    also have "take n (drop ?s st) @ take (l - n) (drop (?s + n) st) = take l (drop ?s st)"
      using take_add [of n "l - n" "drop ?s st"] n by (simp add: add.commute)
    finally show ?thesis .
  qed
qed

text \<open>The data of the part of a frame from \<open>start\<close> on, \<open>l\<close> bytes of it.\<close>

lemma frame_data:
  assumes ok: "rb_ok r" and st: "length st \<le> 2 ^ 62" and f: "frame_holds (rb_stored r) lo st f"
    and start: "sf_start f \<le> start" "lo \<le> unat start" "unat start + unat l \<le> unat (sf_end f)" "l \<noteq> 0"
  shows "(case map_option (drop (unat (start - sf_start f))) (sf_data f) of
      None \<Rightarrow> read_rbuf r start (unat l)
    | Some d \<Rightarrow> if length d < unat l then None else Some (take (unat l) d)) = Some (take (unat l) (drop (unat start) st))"
proof (cases "sf_data f")
  case None
  then have "rb_stored r p (st ! p)" if "unat start \<le> p" "p < unat start + unat l" for p
    using f start that by (auto simp: frame_holds_def u64_nat)
  then show ?thesis
    using None start f st ok by (simp add: read_rbuf_slice frame_holds_def unat_gt_0)
next
  case (Some data)
  let ?d = "drop (unat (start - sf_start f)) data"
  have "data = take (unat (sf_end f) - unat (sf_start f)) (drop (unat (sf_start f)) st)" "unat (sf_end f) \<le> length st"
    using f Some by (auto simp: frame_holds_def)
  then have "?d = take (unat (sf_end f) - unat start) (drop (unat start) st)"
    using start(1) by (simp add: unat_sub_u64 drop_take u64_nat)
  then show ?thesis using Some start(3) \<open>unat (sf_end f) \<le> length st\<close> by (simp add: min_def) arith
qed

text \<open>The number of bytes a read of \<open>sz\<close> bytes finds from \<open>start\<close> on.\<close>

definition readable :: "size_t \<Rightarrow> u64 \<Rightarrow> stream_frame list \<Rightarrow> nat" where
  "readable sz start sf = min (unat sz) (contig (unat start) sf - unat start)"

definition peek_frame ::
    "sframe_list \<Rightarrow> u64 \<Rightarrow> stream_frame \<Rightarrow> stream_frame list \<Rightarrow>
     (bool \<times> stream_frame list \<times> uint_range \<times> bytes option \<times> bool) option" where
  "peek_frame fl start f fs =
     (if start < sf_start f then Some (False, [], \<lparr>r_start = start, r_end = start\<rparr>, None, False)
      else Some (True, f # fs, \<lparr>r_start = start, r_end = sf_end f\<rparr>,
                 map_option (drop (unat (start - sf_start f))) (sf_data f), fs = [] \<and> sfl_fin fl))"

lemma peek_Cons:
  "iter_at fl iter = (start, f # fs) \<Longrightarrow> frames_sorted (f # fs) \<Longrightarrow> \<forall>g \<in> set (f # fs). start < sf_end g \<Longrightarrow>
   ossl_sframe_list_peek fl iter = peek_frame fl start f fs"
  using sframe_list_peek_eq [of fl iter] by (simp add: peek_frame_def)

lemma read_loop_step:
  assumes "ossl_sframe_list_peek (rs_fl q) iter = Some (True, iter', \<lparr>r_start = s, r_end = e\<rparr>, data, fin)"
    and "l = (if e - s > sz then sz else e - s)" "fin' = (if e - s > sz then False else fin)"
    and "l \<noteq> 0 \<Longrightarrow> (case data of None \<Rightarrow> read_rbuf (rs_rbuf q) s (unat l)
           | Some d \<Rightarrow> if length d < unat l then None else Some (take (unat l) d)) = Some bs"
  shows "read_loop q iter sz acc off =
      (if l = 0 then Some (acc, s + l, fin')
       else if sz - l = 0 then Some (acc @ bs, s + l, fin')
       else read_loop q iter' (sz - l) (acc @ bs) (s + l))"
  unfolding read_loop.simps [of q iter] assms(1) option.case prod.case Let_def uint_range.select_convs
    assms(2,3) [symmetric]
  using assms(4) by (cases "l = 0") simp_all

lemma read_loop_spec:
  assumes ok: "rb_ok (rs_rbuf q)" and st: "length st \<le> 2 ^ 62"
    and at: "iter_at (rs_fl q) iter = (start, sf)" "lo \<le> unat start" "frames_sorted sf"
      "\<forall>f \<in> set sf. start < sf_end f \<and> frame_holds (rb_stored (rs_rbuf q)) lo st f"
  shows "read_loop q iter sz acc off =
    Some (acc @ take (readable sz start sf) (drop (unat start) st),
          (if contig (unat start) sf > unat start then start + of_nat (readable sz start sf) else off),
          sfl_fin (rs_fl q) \<and> unat start + readable sz start sf = (if sf = [] then unat start else unat (sf_end (last sf))))"
  using at
proof (induction sf arbitrary: iter start sz acc off)
  case Nil
  then show ?case
    using sframe_list_peek_eq [of "rs_fl q" iter] by (subst read_loop.simps) (simp add: readable_def)
next
  case (Cons f fs)
  have peek: "ossl_sframe_list_peek (rs_fl q) iter = peek_frame (rs_fl q) start f fs"
    by (rule peek_Cons) (use Cons.prems in auto)
  have ends: "start < sf_end f" "\<forall>g \<in> set fs. sf_end f < sf_end g" using Cons.prems(3,4) by auto
  then have top: "fs \<noteq> [] \<Longrightarrow> unat (sf_end f) < unat (sf_end (last fs))" by (simp add: u64_nat)
  show ?case
  proof (cases "start < sf_start f")
    case True
    have "unat start < unat (sf_end (last (f # fs)))" using ends(1) top by (auto simp: u64_nat)
    then show ?thesis using True by (subst read_loop.simps) (auto simp: peek peek_frame_def u64_nat readable_def)
  next
    case False
    let ?s = "unat start" and ?e = "unat (sf_end f)" and ?c = "contig (unat (sf_end f)) fs"
    have c: "contig ?s (f # fs) = ?c" "?e \<le> ?c" and se: "?s < ?e"
      using False contig_ge [of fs ?e] Cons.prems(3,4) by (auto simp: u64_nat less_imp_le)
    have l0: "unat (sf_end f - start) = ?e - ?s" using se by (simp add: unat_sub_u64 u64_nat)
    define l where "l = (if sf_end f - start > sz then sz else sf_end f - start)"
    have l: "unat l = min (unat sz) (?e - ?s)" by (auto simp: l_def u64_nat l0)
    define fin where "fin = (if sf_end f - start > sz then False else fs = [] \<and> sfl_fin (rs_fl q))"
    have fin: "fin \<longleftrightarrow> \<not> ?e - ?s > unat sz \<and> fs = [] \<and> sfl_fin (rs_fl q)" by (simp add: fin_def u64_nat l0)
    have data: "l \<noteq> 0 \<Longrightarrow> (case map_option (drop (unat (start - sf_start f))) (sf_data f) of
        None \<Rightarrow> read_rbuf (rs_rbuf q) start (unat l)
      | Some d \<Rightarrow> if length d < unat l then None else Some (take (unat l) d)) = Some (take (unat l) (drop ?s st))"
      using False Cons.prems(2,4) l se by (intro frame_data [OF ok st, of lo]) auto
    have run: "read_loop q iter sz acc off =
      (if l = 0 then Some (acc, start + l, fin)
       else if sz - l = 0 then Some (acc @ take (unat l) (drop ?s st), start + l, fin)
       else read_loop q (f # fs) (sz - l) (acc @ take (unat l) (drop ?s st)) (start + l))"
      by (rule read_loop_step [OF _ l_def fin_def data]) (use False peek in \<open>auto simp: peek_frame_def\<close>)
    have n: "readable sz start (f # fs) = (if unat sz \<le> ?e - ?s then unat sz else (?e - ?s) + readable (sz - l) (sf_end f) fs)"
    proof (cases "unat sz \<le> ?e - ?s")
      case True
      then show ?thesis using c by (simp add: readable_def)
    next
      case big: False
      then have "unat (sz - l) = unat sz - (?e - ?s)" using l by (subst unat_sub_u64) (auto simp: u64_nat)
      then show ?thesis using big c se unfolding readable_def c(1) by (simp add: min_def) arith
    qed
    show ?thesis
    proof (cases "unat sz \<le> ?e - ?s")
      case True
      then have "l = sz" "unat l = unat sz" using l by (auto simp: u64_eq_nat)
      then show ?thesis unfolding run n
        using True fin c se top by (auto simp: unat_eq_0)
    next
      case big: False
      then have ll: "unat l = ?e - ?s" "l \<noteq> 0" "sz \<noteq> l" "start + l = sf_end f"
        using l l0 se by (auto simp: l_def u64_nat u64_eq_nat)
      have ih: "read_loop q (f # fs) (sz - l) (acc @ take (unat l) (drop ?s st)) (start + l) =
        Some ((acc @ take (unat l) (drop ?s st)) @ take (readable (sz - l) (sf_end f) fs) (drop ?e st),
              if ?c > ?e then sf_end f + of_nat (readable (sz - l) (sf_end f) fs) else start + l,
              sfl_fin (rs_fl q) \<and> ?e + readable (sz - l) (sf_end f) fs = (if fs = [] then ?e else unat (sf_end (last fs))))"
        by (rule Cons.IH) (use Cons.prems ends se in \<open>auto simp: iter_at_def u64_nat\<close>)
      have "take (?e - ?s + readable (sz - l) (sf_end f) fs) (drop ?s st) =
          take (unat l) (drop ?s st) @ take (readable (sz - l) (sf_end f) fs) (drop ?e st)"
        unfolding take_add ll(1) using se by simp
      moreover have "start + of_nat (?e - ?s + readable (sz - l) (sf_end f) fs) = sf_end f + of_nat (readable (sz - l) (sf_end f) fs)"
        unfolding of_nat_add add.assoc [symmetric] ll(1) [symmetric] by (simp add: ll(4))
      moreover have "?c = ?e \<Longrightarrow> readable (sz - l) (sf_end f) fs = 0" by (simp add: readable_def)
      ultimately show ?thesis unfolding run n ih
        using big ll(2,3,4) c se by (auto simp: add.assoc [symmetric])
    qed
  qed
qed


section \<open>The invariant\<close>

text \<open>The stream is \<open>st\<close>: frames and ring buffer hold their part of it, the ring buffer starts at the read
  offset, the final size is the length, and a locked head is received and not read yet.\<close>

definition rs_pos :: "quic_rstream \<Rightarrow> nat" where "rs_pos q = unat (sfl_offset (rs_fl q))"

definition rs_got :: "quic_rstream \<Rightarrow> nat set" where "rs_got q = received (rs_fl q)"

definition rs_ok :: "bytes \<Rightarrow> quic_rstream \<Rightarrow> bool" where
  "rs_ok st q \<longleftrightarrow>
     length st \<le> 2 ^ 62 \<and> sfl_inv (rs_fl q) \<and> rb_ok (rs_rbuf q) \<and> rb_low (rs_rbuf q) = rs_pos q
     \<and> (\<forall>f \<in> set (sfl_frames (rs_fl q)). frame_holds (rb_stored (rs_rbuf q)) (rs_pos q) st f)
     \<and> unat (sfl_curr_end (rs_fl q)) \<le> length st
     \<and> (sfl_fin (rs_fl q) \<longrightarrow> unat (sfl_curr_end (rs_fl q)) = length st)
     \<and> (head_locked (rs_fl q) \<longrightarrow>
          r_start (head_range q) = sfl_offset (rs_fl q) \<and> sfl_offset (rs_fl q) < r_end (head_range q)
          \<and> r_end (head_range q) \<le> sfl_curr_end (rs_fl q)
          \<and> {rs_pos q..<unat (r_end (head_range q))} \<subseteq> rs_got q)"

text \<open>The record handed out is the same.\<close>

definition same_head :: "quic_rstream \<Rightarrow> quic_rstream \<Rightarrow> bool" where
  "same_head q q' \<longleftrightarrow> head_range q' = head_range q \<and> head_locked (rs_fl q') = head_locked (rs_fl q)"

lemma rs_ok_pos: "rs_ok st q \<Longrightarrow> rs_pos q \<le> length st"
  using sfl_curr_end_ge [of "rs_fl q"] by (simp add: rs_ok_def rs_pos_def u64_nat)

lemma contig_bound:
  assumes "sfl_inv fl" shows "contig (unat (sfl_offset fl)) (sfl_frames fl) \<le> unat (sfl_curr_end fl)"
proof -
  have "contig s fs = s \<or> (\<exists>f \<in> set fs. contig s fs = unat (sf_end f))" for s fs
    by (induction fs arbitrary: s) auto
  moreover have "unat (sf_end f) \<le> unat (sfl_curr_end fl)" if "f \<in> set (sfl_frames fl)" for f
    using sorted_last_end [of "sfl_frames fl" f] that assms by (auto simp: sfl_inv_def sfl_curr_end_def u64_nat)
  moreover have "unat (sfl_offset fl) \<le> unat (sfl_curr_end fl)"
    using sfl_curr_end_ge [OF assms] by (simp add: u64_nat)
  ultimately show ?thesis by metis
qed

text \<open>The first offset that is missing.\<close>

definition rs_missing :: "quic_rstream \<Rightarrow> nat" where
  "rs_missing q = contig (rs_pos q) (sfl_frames (rs_fl q))"

lemma rs_missing_first:
  assumes "rs_ok st q"
  shows "rs_pos q \<le> rs_missing q" "{..<rs_missing q} \<subseteq> rs_got q" "rs_missing q \<notin> rs_got q"
    "rs_missing q \<le> unat (sfl_curr_end (rs_fl q))"
proof -
  have inv: "sfl_inv (rs_fl q)" using assms by (simp add: rs_ok_def)
  then have s: "frames_sorted (sfl_frames (rs_fl q))" "\<forall>f \<in> set (sfl_frames (rs_fl q)). rs_pos q < unat (sf_end f)"
    by (auto simp: sfl_inv_def rs_pos_def u64_nat)
  show ge: "rs_pos q \<le> rs_missing q" using contig_ge [OF s(1)] s(2) by (simp add: rs_missing_def less_imp_le)
  have "{rs_pos q..<rs_missing q} \<subseteq> covered (sfl_frames (rs_fl q))" and m: "rs_missing q \<notin> covered (sfl_frames (rs_fl q))"
    using contig_received [OF s] by (auto simp: rs_missing_def)
  moreover have "{..<rs_missing q} = {..<rs_pos q} \<union> {rs_pos q..<rs_missing q}" using ge by auto
  ultimately show "{..<rs_missing q} \<subseteq> rs_got q" by (auto simp: rs_got_def received_def rs_pos_def)
  show "rs_missing q \<notin> rs_got q" using ge m by (auto simp: rs_got_def received_def rs_pos_def)
  show "rs_missing q \<le> unat (sfl_curr_end (rs_fl q))"
    using contig_bound [OF inv] by (simp add: rs_missing_def rs_pos_def)
qed

lemma rb_cull_to:
  assumes ok: "rb_ok r" and off: "rb_low r \<le> unat off" "unat off \<le> 2 ^ 62"
  shows "\<exists>r'. (if off > 0 then ring_buf_cpop_range r 0 (off - 1) cleanse else Some r) = Some r'
    \<and> rb_ok r' \<and> rb_low r' = unat off \<and> (\<forall>p v. unat off \<le> p \<and> rb_stored r p v \<longrightarrow> rb_stored r' p v)"
proof (cases "off = 0")
  case True
  then show ?thesis using assms by auto
next
  case False
  then have stop: "unat (off - 1) + 1 = unat off" using unat_gt_0 [of off] by (simp add: unat_minus_one)
  obtain r' where r': "ring_buf_cpop_range r 0 (off - 1) cleanse = Some r'" "rb_ok r'" "rb_low r' = unat off"
    "rb_high r' = max (rb_high r) (unat off)" "rb_bytes r' = drop (unat off - rb_low r) (rb_bytes r)"
    using ring_buf_cpop_drops [OF ok, of 0 "off - 1" cleanse] off stop by auto
  have "rb_stored r' p v" if "unat off \<le> p" "rb_stored r p v" for p v
  proof -
    have "rb_get r' p = rb_bytes r' ! (p - unat off)"
      using that r'(3,4) nth_rb_bytes_at [of r' p] by (simp add: rb_stored_def)
    also have "\<dots> = rb_bytes r ! (p - rb_low r)"
      unfolding r'(5) using that off(1) by (subst nth_drop) (auto simp: rb_stored_def)
    also have "\<dots> = rb_get r p" using that by (intro nth_rb_bytes_at) (auto simp: rb_stored_def)
    finally show ?thesis using that r'(3,4) by (auto simp: rb_stored_def)
  qed
  then show ?thesis using False r' by (auto simp: word_neq_0_conv)
qed

text \<open>Advancing the read offset over received bytes.\<close>

lemma rs_ok_advance:
  assumes ok: "rs_ok st q" and off: "rs_pos q \<le> unat off" "unat off \<le> rs_missing q"
  obtains fl' rbuf' where "ossl_sframe_list_drop_frames (rs_fl q) off = Some fl'"
    "(if off > 0 then ring_buf_cpop_range (rs_rbuf q) 0 (off - 1) (sfl_cleanse fl') else Some (rs_rbuf q)) = Some rbuf'"
    "rs_ok st (q\<lparr>rs_fl := fl', rs_rbuf := rbuf'\<rparr>)" "sfl_offset fl' = off" "received fl' = rs_got q"
    "sfl_fin fl' = sfl_fin (rs_fl q)" "\<not> head_locked fl'"
proof -
  note miss = rs_missing_first [OF ok]
  have o: "sfl_offset (rs_fl q) \<le> off" "off \<le> sfl_curr_end (rs_fl q)" "unat off \<le> length st" "length st \<le> 2 ^ 62"
    using off miss(4) ok by (auto simp: u64_nat rs_pos_def rs_ok_def)
  have inv: "sfl_inv (rs_fl q)" using ok by (simp add: rs_ok_def)
  have got: "{unat (sfl_offset (rs_fl q))..<unat off} \<subseteq> received (rs_fl q)"
    using miss(2) off(2) by (auto simp: rs_got_def)
  obtain fl' where fl': "ossl_sframe_list_drop_frames (rs_fl q) off = Some fl'" "sfl_inv fl'" "sfl_offset fl' = off"
    "received fl' = received (rs_fl q)" "set (sfl_frames fl') \<subseteq> set (sfl_frames (rs_fl q))"
    "sfl_curr_end fl' = sfl_curr_end (rs_fl q)" "sfl_fin fl' = sfl_fin (rs_fl q)" "\<not> head_locked fl'"
    using sframe_list_drop_spec [OF inv o(1,2) got] by blast
  have ring: "rb_ok (rs_rbuf q)" "rb_low (rs_rbuf q) = rs_pos q" using ok by (auto simp: rs_ok_def)
  have "\<exists>rbuf'. (if off > 0 then ring_buf_cpop_range (rs_rbuf q) 0 (off - 1) (sfl_cleanse fl') else Some (rs_rbuf q)) = Some rbuf'
    \<and> rb_ok rbuf' \<and> rb_low rbuf' = unat off \<and> (\<forall>p v. unat off \<le> p \<and> rb_stored (rs_rbuf q) p v \<longrightarrow> rb_stored rbuf' p v)"
    using rb_cull_to [OF ring(1), of off "sfl_cleanse fl'"] off(1) o(3,4) ring(2) by (simp add: u64_nat)
  then obtain rbuf' where r: "(if off > 0 then ring_buf_cpop_range (rs_rbuf q) 0 (off - 1) (sfl_cleanse fl') else Some (rs_rbuf q)) = Some rbuf'"
    "rb_ok rbuf'" "rb_low rbuf' = unat off" "\<forall>p v. unat off \<le> p \<and> rb_stored (rs_rbuf q) p v \<longrightarrow> rb_stored rbuf' p v"
    by blast
  have "frame_holds (rb_stored rbuf') (unat off) st f" if "f \<in> set (sfl_frames fl')" for f
    using frame_holds_mono [of "rb_stored (rs_rbuf q)" "rs_pos q" st f "unat off"] that fl'(5) r(4) off(1) ok
    by (auto simp: rs_ok_def)
  then have "rs_ok st (q\<lparr>rs_fl := fl', rs_rbuf := rbuf'\<rparr>)"
    using ok fl' r by (simp add: rs_ok_def rs_pos_def)
  then show ?thesis using that fl' r by (simp add: rs_got_def)
qed


section \<open>The operations keep the invariant\<close>

definition rs_avail :: "quic_rstream \<Rightarrow> size_t \<Rightarrow> nat" where
  "rs_avail q sz = min (unat sz) (rs_missing q - rs_pos q)"

lemma rs_read_loop:
  assumes ok: "rs_ok st q"
  shows "read_loop q [] sz [] 0 =
    Some (take (rs_avail q sz) (drop (rs_pos q) st),
          if rs_missing q > rs_pos q then sfl_offset (rs_fl q) + of_nat (rs_avail q sz) else 0,
          sfl_fin (rs_fl q) \<and> rs_pos q + rs_avail q sz = length st)"
proof -
  let ?fl = "rs_fl q"
  have at: "iter_at ?fl [] = (sfl_offset ?fl, sfl_frames ?fl)" by (simp add: iter_at_def)
  have s: "frames_sorted (sfl_frames ?fl)"
    "\<forall>f \<in> set (sfl_frames ?fl). sfl_offset ?fl < sf_end f \<and> frame_holds (rb_stored (rs_rbuf q)) (rs_pos q) st f"
    using ok by (auto simp: rs_ok_def sfl_inv_def)
  have n: "readable sz (sfl_offset ?fl) (sfl_frames ?fl) = rs_avail q sz"
    by (simp add: readable_def rs_avail_def rs_missing_def rs_pos_def)
  have "sfl_fin ?fl \<Longrightarrow> (if sfl_frames ?fl = [] then rs_pos q else unat (sf_end (last (sfl_frames ?fl)))) = length st"
    using ok by (auto simp: rs_ok_def sfl_curr_end_def rs_pos_def split: if_splits)
  then show ?thesis
    using read_loop_spec [OF _ _ at _ s, where sz = sz and acc = "[]" and off = 0] ok unfolding n
    by (auto simp: rs_ok_def rs_pos_def rs_missing_def)
qed

lemma read_internal_spec:
  assumes ok: "rs_ok st q"
  shows "\<exists>q'. read_internal q sz dropped = Some (take (rs_avail q sz) (drop (rs_pos q) st),
      sfl_fin (rs_fl q) \<and> rs_pos q + rs_avail q sz = length st, q')
    \<and> rs_ok st q' \<and> rs_got q' = rs_got q \<and> rs_pos q' = (if dropped then rs_pos q + rs_avail q sz else rs_pos q)
    \<and> sfl_fin (rs_fl q') = sfl_fin (rs_fl q) \<and> rs_rxfc q' = rs_rxfc q \<and> (head_locked (rs_fl q') \<longrightarrow> q' = q)"
proof -
  define off where "off = (if rs_missing q > rs_pos q then sfl_offset (rs_fl q) + of_nat (rs_avail q sz) else 0)"
  note loop = rs_read_loop [OF ok, of sz, folded off_def]
  have le: "rs_avail q sz \<le> rs_missing q - rs_pos q" by (simp add: rs_avail_def)
  have bound: "rs_missing q \<le> 2 ^ 62" using rs_missing_first(4) [OF ok] ok by (auto simp: rs_ok_def)
  have u: "unat off = rs_pos q + rs_avail q sz" if "rs_missing q > rs_pos q"
    using that le bound by (simp add: off_def rs_pos_def unat_add_of_nat_u64)
  show ?thesis
  proof (cases "dropped \<and> off \<noteq> 0")
    case False
    then have "dropped \<Longrightarrow> unat off = 0" by auto
    then have "dropped \<Longrightarrow> rs_avail q sz = 0"
      using u le by (cases "rs_missing q > rs_pos q") (auto simp: off_def)
    then show ?thesis using False ok loop by (auto simp: read_internal_def)
  next
    case True
    then have m: "rs_missing q > rs_pos q" by (auto simp: off_def split: if_splits)
    note u = u [OF m]
    obtain fl' rbuf' where a: "ossl_sframe_list_drop_frames (rs_fl q) off = Some fl'"
      "(if off > 0 then ring_buf_cpop_range (rs_rbuf q) 0 (off - 1) (sfl_cleanse fl') else Some (rs_rbuf q)) = Some rbuf'"
      "rs_ok st (q\<lparr>rs_fl := fl', rs_rbuf := rbuf'\<rparr>)" "sfl_offset fl' = off" "received fl' = rs_got q"
      "sfl_fin fl' = sfl_fin (rs_fl q)" "\<not> head_locked fl'"
      by (rule rs_ok_advance [OF ok, of off]) (use u le m in auto)
    moreover have "off > 0" using True by (simp add: word_neq_0_conv)
    ultimately have "read_internal q sz dropped = Some (take (rs_avail q sz) (drop (rs_pos q) st),
        sfl_fin (rs_fl q) \<and> rs_pos q + rs_avail q sz = length st, q\<lparr>rs_fl := fl', rs_rbuf := rbuf'\<rparr>)"
      using True by (simp add: read_internal_def loop)
    moreover have "rs_pos (q\<lparr>rs_fl := fl', rs_rbuf := rbuf'\<rparr>) = unat off"
      "rs_got (q\<lparr>rs_fl := fl', rs_rbuf := rbuf'\<rparr>) = rs_got q" using a(4,5) by (simp_all add: rs_pos_def rs_got_def)
    ultimately show ?thesis using True u a(3,6,7) by simp
  qed
qed

text \<open>A frame of the stream: its bytes, and its end when it is the last one.\<close>

definition stream_chunk :: "bytes \<Rightarrow> bool \<Rightarrow> u64 \<Rightarrow> bytes option \<Rightarrow> u64 \<Rightarrow> bool \<Rightarrow> bool" where
  "stream_chunk st final off data len fin \<longleftrightarrow>
     unat off + unat len \<le> length st
     \<and> (\<forall>d. data = Some d \<longrightarrow> take (unat len) d = take (unat len) (drop (unat off) st))
     \<and> (fin \<longrightarrow> final \<and> unat off + unat len = length st)"

lemma queue_data_spec:
  assumes ok: "rs_ok st q" and c: "stream_chunk st final off data len fin"
  shows "\<exists>ret q'. ossl_quic_rstream_queue_data mem q off data len fin = Some (ret, q') \<and> rs_ok st q'
    \<and> rs_pos q' = rs_pos q \<and> rs_rxfc q' = rs_rxfc q \<and> same_head q q'
    \<and> (if ret then rs_got q' = rs_got q \<union> {unat off..<unat off + unat len} \<and> sfl_fin (rs_fl q') = (fin \<or> sfl_fin (rs_fl q))
       else q' = q)
    \<and> (mem \<and> (data \<noteq> None \<or> len = 0) \<and> (len \<noteq> 0 \<or> fin) \<longrightarrow> ret)"
proof (cases "data = None \<and> len \<noteq> 0 \<or> len = 0 \<and> \<not> fin")
  case True
  then show ?thesis using ok by (auto simp: ossl_quic_rstream_queue_data_def same_head_def)
next
  case False
  let ?rng = "\<lparr>r_start = off, r_end = off + len\<rparr>" and ?data = "map_option (take (unat len)) data"
  have st: "length st \<le> 2 ^ 62" "unat off + unat len \<le> length st" using ok c by (auto simp: rs_ok_def stream_chunk_def)
  then have e: "unat (off + len) = unat off + unat len" by (intro unat_add_u64) simp
  have inv: "sfl_inv (rs_fl q)" using ok by (simp add: rs_ok_def)
  have "r_start ?rng \<le> r_end ?rng" "fin \<Longrightarrow> sfl_curr_end (rs_fl q) \<le> r_end ?rng"
    "sfl_fin (rs_fl q) \<Longrightarrow> r_end ?rng \<le> sfl_curr_end (rs_fl q)"
    using ok c e by (auto simp: u64_nat rs_ok_def stream_chunk_def)
  from sframe_list_insert_spec [OF inv this, where mem = mem and data = ?data]
  obtain ret fl' where i: "ossl_sframe_list_insert mem (rs_fl q) ?rng ?data fin = Some (ret, fl')" "mem \<longrightarrow> ret"
    "if ret then sfl_inv fl' \<and> received fl' = received (rs_fl q) \<union> {unat off..<unat off + unat len}
       \<and> set (sfl_frames fl') \<subseteq> insert \<lparr>sf_range = ?rng, sf_data = ?data\<rparr> (set (sfl_frames (rs_fl q)))
       \<and> sfl_curr_end fl' = max (sfl_curr_end (rs_fl q)) (off + len)
       \<and> fl' = (rs_fl q)\<lparr>sfl_frames := sfl_frames fl', sfl_fin := fin \<or> sfl_fin (rs_fl q)\<rparr>
     else fl' = rs_fl q"
    unfolding uint_range.select_convs e by blast
  have run: "ossl_quic_rstream_queue_data mem q off data len fin = Some (ret, q\<lparr>rs_fl := fl'\<rparr>)"
    unfolding ossl_quic_rstream_queue_data_def if_not_P [OF False] by (simp add: i(1))
  show ?thesis
  proof (cases ret)
    case True
    have new: "frame_holds (rb_stored (rs_rbuf q)) (rs_pos q) st \<lparr>sf_range = ?rng, sf_data = ?data\<rparr>"
      using c False e by (cases data) (auto simp: frame_holds_def stream_chunk_def)
    note i' = i(3) [unfolded if_P [OF True]]
    then obtain fs where fs: "fl' = (rs_fl q)\<lparr>sfl_frames := fs, sfl_fin := fin \<or> sfl_fin (rs_fl q)\<rparr>" by blast
    have fl': "sfl_inv fl'" "received fl' = received (rs_fl q) \<union> {unat off..<unat off + unat len}"
      "set (sfl_frames fl') \<subseteq> insert \<lparr>sf_range = ?rng, sf_data = ?data\<rparr> (set (sfl_frames (rs_fl q)))"
      "sfl_curr_end fl' = max (sfl_curr_end (rs_fl q)) (off + len)" "sfl_fin fl' = (fin \<or> sfl_fin (rs_fl q))"
      "sfl_offset fl' = sfl_offset (rs_fl q)" "head_locked fl' = head_locked (rs_fl q)"
      using i' by (simp_all add: fs)
    have "unat (sfl_curr_end fl') \<le> length st" "sfl_fin fl' \<Longrightarrow> unat (sfl_curr_end fl') = length st"
      using ok c e fl'(4,5) by (auto simp: rs_ok_def stream_chunk_def max_def u64_nat)
    then have "rs_ok st (q\<lparr>rs_fl := fl'\<rparr>)"
      using ok fl' new by (auto simp: rs_ok_def rs_pos_def rs_got_def intro: max.coboundedI1)
    then show ?thesis unfolding run using True fl' i(2)
      by (intro exI [of _ True] exI [of _ "q\<lparr>rs_fl := fl'\<rparr>"]) (simp add: rs_pos_def rs_got_def same_head_def)
  next
    case False
    then show ?thesis unfolding run using i ok by (intro exI [of _ False] exI [of _ q]) (simp add: same_head_def)
  qed
qed

lemma move_to_rbuf_spec:
  assumes ok: "rs_ok st q"
  shows "\<exists>ret q'. ossl_quic_rstream_move_to_rbuf q = Some (ret, q') \<and> rs_ok st q' \<and> rs_pos q' = rs_pos q
    \<and> rs_got q' = rs_got q \<and> sfl_fin (rs_fl q') = sfl_fin (rs_fl q) \<and> rs_rxfc q' = rs_rxfc q \<and> same_head q q'"
proof (cases "ring_buf_avail (rs_rbuf q) = 0")
  case True
  then show ?thesis using ok by (auto simp: ossl_quic_rstream_move_to_rbuf_def same_head_def)
next
  case False
  have cb: "write_at_ring_buf_cb = (\<lambda>off buf r. ring_buf_write_at r off buf)"
    by (simp add: fun_eq_iff write_at_ring_buf_cb_def)
  have b: "rb_ok (rs_rbuf q) \<and> rb_low (rs_rbuf q) = rs_pos q" and st: "length st \<le> 2 ^ 62" and inv: "sfl_inv (rs_fl q)"
    and holds: "\<forall>f \<in> set (sfl_frames (rs_fl q)). frame_holds (rb_stored (rs_rbuf q)) (unat (sfl_offset (rs_fl q))) st f"
    using ok by (auto simp: rs_ok_def rs_pos_def)
  obtain ret fl' rbuf' where r: "ossl_sframe_list_move_data write_at_ring_buf_cb (rs_fl q) (rs_rbuf q) = Some (ret, fl', rbuf')"
    "rb_ok rbuf' \<and> rb_low rbuf' = rs_pos q" "sfl_inv fl'" "received fl' = received (rs_fl q)"
    "sfl_curr_end fl' = sfl_curr_end (rs_fl q)"
    "\<forall>f \<in> set (sfl_frames fl'). frame_holds (rb_stored rbuf') (unat (sfl_offset (rs_fl q))) st f"
    "fl' = (rs_fl q)\<lparr>sfl_frames := sfl_frames fl'\<rparr>"
    using ring_storage.move_data_spec [OF b st inv holds] unfolding cb by blast
  obtain fs where fs: "fl' = (rs_fl q)\<lparr>sfl_frames := fs\<rparr>" using r(7) by blast
  have "rs_ok st (q\<lparr>rs_fl := fl', rs_rbuf := rbuf'\<rparr>)"
    using ok r(2-6) unfolding fs by (simp add: rs_ok_def rs_pos_def rs_got_def)
  then show ?thesis
    using False r(1,4) by (auto simp: ossl_quic_rstream_move_to_rbuf_def rs_pos_def rs_got_def same_head_def fs)
qed

lemma resize_rbuf_spec:
  assumes ok: "rs_ok st q" and block: "block = None \<or> length (the block) = unat n"
  shows "\<exists>ret q'. ossl_quic_rstream_resize_rbuf block q n = Some (ret, q') \<and> rs_ok st q' \<and> rs_pos q' = rs_pos q
    \<and> rs_got q' = rs_got q \<and> sfl_fin (rs_fl q') = sfl_fin (rs_fl q) \<and> rs_rxfc q' = rs_rxfc q \<and> same_head q q'"
proof (cases "head_locked (rs_fl q)")
  case True
  then show ?thesis
    using ok by (auto simp: ossl_quic_rstream_resize_rbuf_def ossl_sframe_list_is_head_locked_def same_head_def)
next
  case False
  have r0: "rb_ok (rs_rbuf q)" using ok by (simp add: rs_ok_def)
  obtain ret r' where r: "ring_buf_resize block (rs_rbuf q) n = Some (ret, r')" "rb_ok r'"
    "rb_bytes r' = rb_bytes (rs_rbuf q)" "rb_low r' = rb_low (rs_rbuf q)" "rb_high r' = rb_high (rs_rbuf q)"
    using ring_buf_resize_keeps [OF r0 block] by auto
  have "rb_stored r' p v" if "rb_stored (rs_rbuf q) p v" for p v
    using that nth_rb_bytes_at [of r' p] nth_rb_bytes_at [of "rs_rbuf q" p] r(3-5) by (simp add: rb_stored_def)
  then have "rs_ok st (q\<lparr>rs_rbuf := r'\<rparr>)"
    using ok r by (auto simp: rs_ok_def rs_pos_def rs_got_def intro: frame_holds_mono)
  then show ?thesis
    using False r(1)
    by (auto simp: ossl_quic_rstream_resize_rbuf_def ossl_sframe_list_is_head_locked_def rs_pos_def rs_got_def
        same_head_def)
qed

lemma rs_ok_lock:
  assumes ok: "rs_ok st q" and len: "0 < unat len" "rs_pos q + unat len \<le> rs_missing q"
  defines "q' \<equiv> q\<lparr>rs_fl := (rs_fl q)\<lparr>head_locked := True\<rparr>,
      head_range := \<lparr>r_start = sfl_offset (rs_fl q), r_end = sfl_offset (rs_fl q) + len\<rparr>\<rparr>"
  shows "rs_ok st q'" "rs_pos q' = rs_pos q" "rs_got q' = rs_got q"
proof -
  note miss = rs_missing_first [OF ok]
  have b: "rs_missing q \<le> 2 ^ 62" using miss(4) ok by (auto simp: rs_ok_def)
  then have u: "unat (sfl_offset (rs_fl q) + len) = rs_pos q + unat len"
    using len by (simp add: unat_add_u64 rs_pos_def)
  show pos: "rs_pos q' = rs_pos q" and got: "rs_got q' = rs_got q"
    by (simp_all add: q'_def rs_pos_def rs_got_def received_def)
  have "{rs_pos q..<rs_pos q + unat len} \<subseteq> rs_got q" using miss(2) len by auto
  moreover have "rs_pos q + unat len \<le> unat (sfl_curr_end (rs_fl q))" using miss(4) len by simp
  moreover have "sfl_curr_end (rs_fl q') = sfl_curr_end (rs_fl q)" "sfl_inv (rs_fl q') = sfl_inv (rs_fl q)"
    by (simp_all add: q'_def sfl_curr_end_def sfl_inv_def)
  ultimately show "rs_ok st q'"
    using ok len(1) u pos got by (simp add: rs_ok_def q'_def u64_nat) (simp add: rs_pos_def)
qed

lemma head_frame_len:
  assumes ok: "rs_ok st q" and f: "sfl_frames (rs_fl q) = f # fs" "sf_start f \<le> sfl_offset (rs_fl q)"
  shows "rs_pos q + unat (sf_end f - sfl_offset (rs_fl q)) = unat (sf_end f)" "rs_pos q < unat (sf_end f)"
    "unat (sf_end f) \<le> rs_missing q"
proof -
  have s: "sfl_offset (rs_fl q) < sf_end f" "frames_sorted (f # fs)" using ok f by (auto simp: rs_ok_def sfl_inv_def)
  then show "rs_pos q + unat (sf_end f - sfl_offset (rs_fl q)) = unat (sf_end f)" "rs_pos q < unat (sf_end f)"
    by (simp_all add: unat_sub_u64 rs_pos_def u64_nat)
  have "unat (sf_end f) \<le> contig (unat (sf_end f)) fs" using s(2) by (intro contig_ge) (auto simp: u64_nat less_imp_le)
  then show "unat (sf_end f) \<le> rs_missing q" using f by (simp add: rs_missing_def rs_pos_def u64_nat)
qed

lemma head_frame_ptr:
  assumes ok: "rs_ok st q" and f: "sfl_frames (rs_fl q) = f # fs" "sf_start f \<le> sfl_offset (rs_fl q)" "sf_data f = None"
  obtains d where "ring_buf_get_ptr (rs_rbuf q) (sfl_offset (rs_fl q)) = Some (Some d)" "d \<noteq> []" "length d < 2 ^ 64"
    "\<And>n. n \<le> length d \<Longrightarrow> rs_pos q + n \<le> unat (sf_end f) \<Longrightarrow> take n d = take n (drop (rs_pos q) st)"
proof -
  let ?r = "rs_rbuf q" let ?a = "length (rb_data ?r)"
  have r: "rb_ok ?r" using ok by (simp add: rs_ok_def)
  have h: "frame_holds (rb_stored ?r) (rs_pos q) st f" using ok f(1) by (simp add: rs_ok_def)
  then have st: "unat (sf_end f) \<le> length st" by (simp add: frame_holds_def)
  have stored: "rb_stored ?r p (st ! p)" if "rs_pos q \<le> p" "p < unat (sf_end f)" for p
    using h that f(2,3) by (auto simp: frame_holds_def rs_pos_def u64_nat)
  have ptr: "ring_buf_get_ptr ?r (sfl_offset (rs_fl q)) = Some (Some (drop (rs_pos q mod ?a) (rb_data ?r)))" "0 < ?a"
    using ring_buf_get_ptr_drop [OF r, of "sfl_offset (rs_fl q)"] stored [of "rs_pos q"] head_frame_len(2) [OF ok f(1,2)]
    by (auto simp: rb_stored_def rs_pos_def)
  show ?thesis
  proof (rule that [OF ptr(1)])
    show "drop (rs_pos q mod ?a) (rb_data ?r) \<noteq> []" using ptr(2) by simp
    show "length (drop (rs_pos q mod ?a) (rb_data ?r)) < 2 ^ 64" using r by (auto simp: rb_ok_def)
    fix n assume n: "n \<le> length (drop (rs_pos q mod ?a) (rb_data ?r))" "rs_pos q + n \<le> unat (sf_end f)"
    then show "take n (drop (rs_pos q mod ?a) (rb_data ?r)) = take n (drop (rs_pos q) st)"
      using stored st by (intro take_drop_block [OF ptr(2)]) (auto simp: rb_stored_def)
  qed
qed

text \<open>Handing out the first frame, or as much of it as lies in one piece of the ring buffer.\<close>

lemma get_record_head:
  assumes ok: "rs_ok st q" and unlocked: "\<not> head_locked (rs_fl q)"
    and f: "sfl_frames (rs_fl q) = f # fs" "sf_start f \<le> sfl_offset (rs_fl q)"
    and peek: "ossl_sframe_list_peek (rs_fl q) [] = Some (True, f # fs, \<lparr>r_start = sfl_offset (rs_fl q), r_end = sf_end f\<rparr>,
      map_option (drop (unat (sfl_offset (rs_fl q) - sf_start f))) (sf_data f), fin)"
  obtains len where "0 < unat len" "rs_pos q + unat len \<le> rs_missing q"
    "ossl_quic_rstream_get_record q = Some (Some (take (unat len) (drop (rs_pos q) st)), len, Some fin,
       q\<lparr>rs_fl := (rs_fl q)\<lparr>head_locked := True\<rparr>,
         head_range := \<lparr>r_start = sfl_offset (rs_fl q), r_end = sfl_offset (rs_fl q) + len\<rparr>\<rparr>)"
proof -
  let ?start = "sfl_offset (rs_fl q)"
  define l where "l = sf_end f - ?start"
  note hl = head_frame_len [OF ok f, folded l_def]
  have l: "0 < unat l" "l \<noteq> 0" "sf_end f \<noteq> ?start" "?start + l = sf_end f" using hl(1,2) by (auto simp: l_def)
  note run = ossl_quic_rstream_get_record_def ossl_sframe_list_lock_head_def unlocked peek Let_def l_def [symmetric]
  show ?thesis
  proof (cases "sf_data f")
    case (Some data)
    have h: "frame_holds (rb_stored (rs_rbuf q)) (rs_pos q) st f" "rb_ok (rs_rbuf q)" "length st \<le> 2 ^ 62"
      using ok f(1) by (simp_all add: rs_ok_def)
    have "take (unat l) (drop (unat (?start - sf_start f)) data) = take (unat l) (drop (rs_pos q) st)"
      using frame_data [OF h(2,3,1) f(2), of l] hl l Some by (auto simp: rs_pos_def split: if_splits)
    then show ?thesis using that [of l] hl l Some by (simp add: run)
  next
    case None
    obtain d where d: "ring_buf_get_ptr (rs_rbuf q) ?start = Some (Some d)" "d \<noteq> []" "length d < 2 ^ 64"
      "\<And>n. n \<le> length d \<Longrightarrow> rs_pos q + n \<le> unat (sf_end f) \<Longrightarrow> take n d = take n (drop (rs_pos q) st)"
      using head_frame_ptr [OF ok f None] by blast
    have u: "unat (of_nat (length d) :: u64) = length d" using d(3) by (rule unat_of_nat_u64)
    show ?thesis
    proof (cases "of_nat (length d) < l")
      case True
      then have "length d < unat l" by (simp add: u64_less_nat u del: unat_of_nat)
      then show ?thesis
        using that [of "of_nat (length d)"] d(1,2) d(4) [of "length d"] True u hl l None
        by (simp add: run del: unat_of_nat)
    next
      case False
      then have "unat l \<le> length d" by (simp add: u64_less_nat u del: unat_of_nat)
      then show ?thesis using that [of l] d(1) d(4) [of "unat l"] False hl l None by (simp add: run)
    qed
  qed
qed

lemma get_record_spec:
  assumes ok: "rs_ok st q"
  shows "\<exists>rcrd len fin q'. ossl_quic_rstream_get_record q = Some (rcrd, len, fin, q') \<and> rs_ok st q'
    \<and> rs_pos q' = rs_pos q \<and> rs_got q' = rs_got q \<and> sfl_fin (rs_fl q') = sfl_fin (rs_fl q) \<and> rs_rxfc q' = rs_rxfc q
    \<and> (if head_locked (rs_fl q) then rcrd = None \<and> len = 0 \<and> q' = q
       else if rs_missing q = rs_pos q then rcrd = None \<and> len = 0 \<and> \<not> head_locked (rs_fl q')
       else head_locked (rs_fl q') \<and> 0 < unat len \<and> rs_pos q + unat len \<le> rs_missing q
         \<and> rcrd = Some (take (unat len) (drop (rs_pos q) st)) \<and> r_end (head_range q') = r_start (head_range q') + len)"
proof (cases "head_locked (rs_fl q)")
  case True
  then show ?thesis using ok by (simp add: ossl_quic_rstream_get_record_def ossl_sframe_list_lock_head_def)
next
  case unlocked: False
  let ?fl = "rs_fl q" and ?start = "sfl_offset (rs_fl q)"
  have s: "frames_sorted (sfl_frames ?fl)" "\<forall>f \<in> set (sfl_frames ?fl). ?start < sf_end f"
    using ok by (auto simp: rs_ok_def sfl_inv_def)
  have keep: "rs_ok st (q\<lparr>head_range := rng\<rparr>)" for rng using ok unlocked by (simp add: rs_ok_def rs_pos_def rs_got_def)
  have peek: "ossl_sframe_list_peek ?fl [] =
    (case sfl_frames ?fl of
       [] \<Rightarrow> Some (False, [], \<lparr>r_start = ?start, r_end = ?start\<rparr>, None, sfl_fin ?fl)
     | f # fs \<Rightarrow> peek_frame ?fl ?start f fs)"
    using sframe_list_peek_eq [of ?fl "[]"] s by (simp add: iter_at_def Let_def peek_frame_def split: list.split)
  show ?thesis
  proof (cases "sfl_frames ?fl = [] \<or> ?start < sf_start (hd (sfl_frames ?fl))")
    case True
    then have "rs_missing q = rs_pos q" by (cases "sfl_frames ?fl") (auto simp: rs_missing_def rs_pos_def u64_nat)
    moreover obtain fin where "ossl_quic_rstream_get_record q =
        Some (None, 0, Some fin, q\<lparr>head_range := \<lparr>r_start = ?start, r_end = ?start\<rparr>\<rparr>)"
      using True unlocked peek
      by (cases "sfl_frames ?fl") (auto simp: ossl_quic_rstream_get_record_def ossl_sframe_list_lock_head_def peek_frame_def)
    ultimately show ?thesis using keep unlocked by (simp add: rs_pos_def rs_got_def)
  next
    case False
    then obtain f fs where f: "sfl_frames ?fl = f # fs" "sf_start f \<le> ?start" by (cases "sfl_frames ?fl") auto
    then have p: "ossl_sframe_list_peek ?fl [] = Some (True, f # fs, \<lparr>r_start = ?start, r_end = sf_end f\<rparr>,
        map_option (drop (unat (?start - sf_start f))) (sf_data f), fs = [] \<and> sfl_fin ?fl)"
      using peek by (simp add: peek_frame_def)
    obtain len where r: "0 < unat len" "rs_pos q + unat len \<le> rs_missing q"
      "ossl_quic_rstream_get_record q = Some (Some (take (unat len) (drop (rs_pos q) st)), len,
         Some (fs = [] \<and> sfl_fin ?fl), q\<lparr>rs_fl := ?fl\<lparr>head_locked := True\<rparr>,
         head_range := \<lparr>r_start = ?start, r_end = ?start + len\<rparr>\<rparr>)"
      by (rule get_record_head [OF ok unlocked f p])
    then show ?thesis using rs_ok_lock [OF ok r(1,2)] unlocked by auto
  qed
qed

lemma locked_received:
  assumes ok: "rs_ok st q" and "head_locked (rs_fl q)"
  shows "unat (r_end (head_range q)) \<le> rs_missing q"
proof (rule ccontr)
  assume "\<not> unat (r_end (head_range q)) \<le> rs_missing q"
  then have "rs_missing q \<in> {rs_pos q..<unat (r_end (head_range q))}" using rs_missing_first(1) [OF ok] by simp
  moreover have "{rs_pos q..<unat (r_end (head_range q))} \<subseteq> rs_got q" using assms by (simp add: rs_ok_def)
  ultimately show False using rs_missing_first(3) [OF ok] by blast
qed

lemma release_record_spec:
  assumes ok: "rs_ok st q"
  defines "len \<equiv> r_end (head_range q) - r_start (head_range q)"
  shows "\<exists>ret q' h' w'. ossl_quic_rstream_release_record now w sm h q n = Some (ret, q', h', w') \<and> rs_ok st q'
    \<and> rs_got q' = rs_got q \<and> sfl_fin (rs_fl q') = sfl_fin (rs_fl q) \<and> rs_rxfc q' = rs_rxfc q
    \<and> (if \<not> head_locked (rs_fl q) \<or> n > len \<and> n \<noteq> SIZE_MAX then \<not> ret \<and> q' = q
       else \<not> head_locked (rs_fl q') \<and> rs_pos q' = rs_pos q + min (unat n) (unat len))"
proof (cases "\<not> head_locked (rs_fl q) \<or> n > len \<and> n \<noteq> SIZE_MAX")
  case True
  then show ?thesis
    using ok by (auto simp: ossl_quic_rstream_release_record_def ossl_sframe_list_is_head_locked_def len_def Let_def)
next
  case False
  define off where "off = (if n > len then r_end (head_range q) else r_start (head_range q) + n)"
  have hr: "r_start (head_range q) = sfl_offset (rs_fl q)" "sfl_offset (rs_fl q) < r_end (head_range q)"
    using ok False by (auto simp: rs_ok_def)
  then have len: "rs_pos q + unat len = unat (r_end (head_range q))"
    by (simp add: len_def rs_pos_def unat_sub_u64 u64_nat)
  have off: "unat off = rs_pos q + min (unat n) (unat len)"
  proof (cases "n > len")
    case True
    then show ?thesis using len by (simp add: off_def u64_nat min_def)
  next
    case False
    then show ?thesis
      using len hr unat_u64_bound [of "r_end (head_range q)"]
      by (simp add: off_def u64_nat min_def unat_add_u64 rs_pos_def)
  qed
  obtain fl' rbuf' where a: "ossl_sframe_list_drop_frames (rs_fl q) off = Some fl'"
    "(if off > 0 then ring_buf_cpop_range (rs_rbuf q) 0 (off - 1) (sfl_cleanse fl') else Some (rs_rbuf q)) = Some rbuf'"
    "rs_ok st (q\<lparr>rs_fl := fl', rs_rbuf := rbuf'\<rparr>)" "sfl_offset fl' = off" "received fl' = rs_got q"
    "sfl_fin fl' = sfl_fin (rs_fl q)" "\<not> head_locked fl'"
    by (rule rs_ok_advance [OF ok, of off]) (use off len locked_received [OF ok] False in auto)
  define q' where "q' = q\<lparr>rs_fl := fl', rs_rbuf := rbuf'\<rparr>"
  obtain ret h' w' where "ossl_quic_rstream_release_record now w sm h q n = Some (ret, q', h', w')"
    using False a(1,2) unfolding ossl_quic_rstream_release_record_def Let_def len_def [symmetric] off_def [symmetric]
    by (cases "rs_rxfc q"; cases "ossl_quic_rxfc_on_retire now w h (the (rs_rxfc q)) off (get_rtt sm q')")
       (auto simp: ossl_sframe_list_is_head_locked_def q'_def)
  moreover have "rs_pos q' = unat off" "rs_got q' = rs_got q" using a(4,5) by (simp_all add: q'_def rs_pos_def rs_got_def)
  ultimately show ?thesis using a(3,6,7) off unfolding if_not_P [OF False] by (simp add: q'_def)
qed

lemma available_loop_spec:
  assumes "iter_at (rs_fl q) iter = (start, sf)" "frames_sorted sf" "\<forall>f \<in> set sf. start < sf_end f"
  shows "available_loop q iter avail =
    Some (avail + of_nat (contig (unat start) sf - unat start),
          sfl_fin (rs_fl q) \<and> contig (unat start) sf = (if sf = [] then unat start else unat (sf_end (last sf))))"
  using assms
proof (induction sf arbitrary: iter start avail)
  case Nil
  then show ?case using sframe_list_peek_eq [of "rs_fl q" iter] by (subst available_loop.simps) simp
next
  case (Cons f fs)
  have peek: "ossl_sframe_list_peek (rs_fl q) iter = peek_frame (rs_fl q) start f fs"
    by (rule peek_Cons) (use Cons.prems in auto)
  have ends: "start < sf_end f" "\<forall>g \<in> set fs. sf_end f < sf_end g" using Cons.prems(2,3) by auto
  then have top: "fs \<noteq> [] \<Longrightarrow> unat (sf_end f) < unat (sf_end (last fs))" by (simp add: u64_nat)
  show ?case
  proof (cases "start < sf_start f")
    case True
    have "unat start < unat (sf_end (last (f # fs)))" using ends(1) top by (auto simp: u64_nat)
    then show ?thesis using True by (subst available_loop.simps) (auto simp: peek peek_frame_def u64_nat)
  next
    case False
    let ?s = "unat start" and ?e = "unat (sf_end f)" and ?c = "contig (unat (sf_end f)) fs"
    have c: "contig ?s (f # fs) = ?c" "?e \<le> ?c" and se: "?s < ?e"
      using False contig_ge [of fs ?e] Cons.prems(2,3) by (auto simp: u64_nat less_imp_le)
    have "available_loop q iter avail = available_loop q (f # fs) (avail + (sf_end f - start))"
      using False by (subst available_loop.simps) (simp add: peek peek_frame_def)
    also have "\<dots> = Some (avail + (sf_end f - start) + of_nat (?c - ?e),
        sfl_fin (rs_fl q) \<and> ?c = (if fs = [] then ?e else unat (sf_end (last fs))))"
      by (rule Cons.IH) (use Cons.prems ends in \<open>auto simp: iter_at_def\<close>)
    also have "avail + (sf_end f - start) + of_nat (?c - ?e) = avail + of_nat (?c - ?s)"
    proof -
      have "(of_nat (?c - ?s) :: u64) = of_nat (?e - ?s) + of_nat (?c - ?e)"
        unfolding of_nat_add [symmetric] using c(2) se by simp
      moreover have "(of_nat (?e - ?s) :: u64) = sf_end f - start" using se by (simp add: of_nat_diff)
      ultimately show ?thesis by simp
    qed
    finally show ?thesis using c(1) by simp
  qed
qed

lemma available_spec:
  assumes ok: "rs_ok st q"
  shows "ossl_quic_rstream_available q =
    Some (of_nat (rs_missing q - rs_pos q), sfl_fin (rs_fl q) \<and> rs_missing q = length st)"
proof -
  let ?fl = "rs_fl q"
  have at: "iter_at ?fl [] = (sfl_offset ?fl, sfl_frames ?fl)" by (simp add: iter_at_def)
  have s: "frames_sorted (sfl_frames ?fl)" "\<forall>f \<in> set (sfl_frames ?fl). sfl_offset ?fl < sf_end f"
    using ok by (auto simp: rs_ok_def sfl_inv_def)
  have "sfl_fin ?fl \<Longrightarrow> (if sfl_frames ?fl = [] then rs_pos q else unat (sf_end (last (sfl_frames ?fl)))) = length st"
    using ok by (auto simp: rs_ok_def sfl_curr_end_def rs_pos_def split: if_splits)
  then show ?thesis
    using available_loop_spec [OF at s, of 0]
    by (auto simp: ossl_quic_rstream_available_def rs_pos_def rs_missing_def)
qed

lemma rstream_new_spec:
  assumes "length st \<le> 2 ^ 62" "block = None \<or> length (the block) = unat n"
  shows "\<exists>r. ossl_quic_rstream_new mem block rxfc statm n = Some r \<and> (r = None \<longrightarrow> \<not> mem \<or> block = None)
    \<and> (\<forall>q. r = Some q \<longrightarrow> rs_ok st q \<and> rs_pos q = 0 \<and> rs_got q = {} \<and> \<not> sfl_fin (rs_fl q) \<and> \<not> head_locked (rs_fl q)
          \<and> rs_rxfc q = rxfc)"
proof -
  have r0: "rb_ok ring_buf_init" by (simp add: rb_ok_def rb_low_def rb_high_def ring_buf_init_def)
  have "ring_buf_used ring_buf_init = 0" by (simp add: ring_buf_used_def ring_buf_init_def)
  then obtain ret r' where r: "ring_buf_resize block ring_buf_init n = Some (ret, r')" "rb_ok r'" "rb_low r' = 0"
    "block \<noteq> None \<longrightarrow> ret"
    using ring_buf_resize_keeps [OF r0 assms(2)] by (auto simp: rb_low_def ring_buf_init_def)
  then show ?thesis
    using assms(1)
    by (auto simp: ossl_quic_rstream_new_def rs_ok_def rs_pos_def rs_got_def received_def sfl_inv_def sfl_curr_end_def
        ossl_sframe_list_init_def)
qed

lemma set_cleanse_spec:
  "rs_ok st (ossl_quic_rstream_set_cleanse q c) = rs_ok st q" "rs_pos (ossl_quic_rstream_set_cleanse q c) = rs_pos q"
  "rs_got (ossl_quic_rstream_set_cleanse q c) = rs_got q"
  "sfl_fin (rs_fl (ossl_quic_rstream_set_cleanse q c)) = sfl_fin (rs_fl q)" "same_head q (ossl_quic_rstream_set_cleanse q c)"
  by (simp_all add: ossl_quic_rstream_set_cleanse_def rs_ok_def rs_pos_def rs_got_def sfl_inv_def sfl_curr_end_def received_def
      same_head_def)

end
