(* ===== verification/RecvStream.thy ===== *)
theory RecvStream
  imports RStream
begin

text \<open>
  The receive stream as its users drive it: frames of one byte stream arrive in any order, overlapping,
  repeated or not at all, and in between the application reads, takes and releases records, data is
  moved to the ring buffer and the ring buffer is resized. In every state reached this way no
  operation is undefined and the application has received exactly a prefix of the stream. A record
  is the bytes it had when it was handed out; the lifetime of the memory behind it is not modelled.
\<close>

section \<open>Steps\<close>

text \<open>The steps of the application and of the buffer management: \<open>rcrd\<close> is the record handed out last, \<open>bs\<close> what
  the step gives to the application.\<close>

inductive rstream_step :: "'w clock \<Rightarrow> quic_rstream \<Rightarrow> bytes \<Rightarrow> bytes \<Rightarrow> quic_rstream \<Rightarrow> bytes \<Rightarrow> bool" for now where
  read: "ossl_quic_rstream_read now w sm h q sz = Some (ok, bs, fin, q', h', w') \<Longrightarrow> rstream_step now q rcrd bs q' rcrd"
| get_record: "ossl_quic_rstream_get_record q = Some (r, len, fin, q') \<Longrightarrow>
    rstream_step now q rcrd [] q' (case r of None \<Rightarrow> rcrd | Some x \<Rightarrow> x)"
| release_record: "ossl_quic_rstream_release_record now w sm h q n = Some (ret, q', h', w') \<Longrightarrow>
    rstream_step now q rcrd (take (rs_pos q' - rs_pos q) rcrd) q' rcrd"
| move: "ossl_quic_rstream_move_to_rbuf q = Some (ret, q') \<Longrightarrow> rstream_step now q rcrd [] q' rcrd"
| resize: "block = None \<or> length (the block) = unat n \<Longrightarrow> ossl_quic_rstream_resize_rbuf block q n = Some (ret, q') \<Longrightarrow>
    rstream_step now q rcrd [] q' rcrd"
| set_cleanse: "rstream_step now q rcrd [] (ossl_quic_rstream_set_cleanse q c) rcrd"

text \<open>The whole history of a receive stream: \<open>out\<close> is what the application got, \<open>D\<close> are the offsets of the
  accepted frames.\<close>

inductive rstream_reach :: "'w clock \<Rightarrow> bytes \<Rightarrow> bool \<Rightarrow> quic_rstream \<Rightarrow> bytes \<Rightarrow> bytes \<Rightarrow> nat set \<Rightarrow> bool" for now st final where
  create: "length st \<le> 2 ^ 62 \<Longrightarrow> block = None \<or> length (the block) = unat n \<Longrightarrow>
    ossl_quic_rstream_new mem block rxfc statm n = Some (Some q) \<Longrightarrow> rstream_reach now st final q [] [] {}"
| queue: "rstream_reach now st final q rcrd out D \<Longrightarrow> stream_chunk st final off data len fin \<Longrightarrow>
    ossl_quic_rstream_queue_data mem q off data len fin = Some (ret, q') \<Longrightarrow>
    rstream_reach now st final q' rcrd out (if ret then D \<union> {unat off..<unat off + unat len} else D)"
| step: "rstream_reach now st final q rcrd out D \<Longrightarrow> rstream_step now q rcrd bs q' rcrd' \<Longrightarrow>
    rstream_reach now st final q' rcrd' (out @ bs) D"

section \<open>The invariant of a history\<close>

definition rs_inv :: "bytes \<Rightarrow> quic_rstream \<Rightarrow> bytes \<Rightarrow> bytes \<Rightarrow> nat set \<Rightarrow> bool" where
  "rs_inv st q rcrd out D \<longleftrightarrow> rs_ok st q \<and> out = take (rs_pos q) st \<and> rs_got q = D
     \<and> (head_locked (rs_fl q) \<longrightarrow>
          rcrd = take (unat (r_end (head_range q)) - rs_pos q) (drop (rs_pos q) st))"

lemma rs_inv_new:
  "length st \<le> 2 ^ 62 \<Longrightarrow> block = None \<or> length (the block) = unat n \<Longrightarrow>
   ossl_quic_rstream_new mem block rxfc statm n = Some (Some q) \<Longrightarrow>
   rs_inv st q [] [] {} \<and> \<not> sfl_fin (rs_fl q) \<and> rs_rxfc q = rxfc"
  using rstream_new_spec [of st block n mem rxfc statm] by (auto simp: rs_inv_def)

lemma rs_inv_queue:
  assumes inv: "rs_inv st q rcrd out D" and c: "stream_chunk st final off data len fin"
    and run: "ossl_quic_rstream_queue_data mem q off data len fin = Some (ret, q')"
  shows "rs_inv st q' rcrd out (if ret then D \<union> {unat off..<unat off + unat len} else D)"
    "sfl_fin (rs_fl q') \<longleftrightarrow> ret \<and> fin \<or> sfl_fin (rs_fl q)"
  using queue_data_spec [of st q final off data len fin mem] inv c run
  by (auto simp: rs_inv_def same_head_def split: if_splits)

lemma rs_inv_step:
  assumes "rstream_step now q rcrd bs q' rcrd'" and "rs_inv st q rcrd out D"
  shows "rs_inv st q' rcrd' (out @ bs) D \<and> sfl_fin (rs_fl q') = sfl_fin (rs_fl q)"
  using assms
proof (induction rule: rstream_step.induct)
  case (read w sm h q sz ok bs fin q' h' w' rcrd)
  have inv: "rs_ok st q" "out = take (rs_pos q) st" using read(2) by (simp_all add: rs_inv_def)
  obtain q2 where q2: "read_internal q sz True = Some (take (rs_avail q sz) (drop (rs_pos q) st),
      sfl_fin (rs_fl q) \<and> rs_pos q + rs_avail q sz = length st, q2)"
    "rs_ok st q2" "rs_got q2 = rs_got q" "rs_pos q2 = rs_pos q + rs_avail q sz"
    "sfl_fin (rs_fl q2) = sfl_fin (rs_fl q)" "head_locked (rs_fl q2) \<longrightarrow> q2 = q"
    using read_internal_spec [OF inv(1), of sz True] by auto
  have "q' = q2 \<and> bs = take (rs_avail q sz) (drop (rs_pos q) st)"
    using read(1) unfolding ossl_quic_rstream_read_def q2(1)
    by (cases "rs_rxfc q2") (simp_all add: Let_def split: prod.splits)
  moreover have "head_locked (rs_fl q2) \<longrightarrow> rcrd = take (unat (r_end (head_range q2)) - rs_pos q2) (drop (rs_pos q2) st)"
    using q2(6) read(2) unfolding rs_inv_def by metis
  moreover have "out @ take (rs_avail q sz) (drop (rs_pos q) st) = take (rs_pos q2) st"
    unfolding q2(4) inv(2) take_add ..
  ultimately show ?case using read(2) q2(2,3,5) by (simp add: rs_inv_def)
next
  case (get_record q r len fin q' rcrd)
  have inv: "rs_ok st q" using get_record(2) by (simp add: rs_inv_def)
  have spec: "rs_ok st q'" "rs_pos q' = rs_pos q" "rs_got q' = rs_got q" "sfl_fin (rs_fl q') = sfl_fin (rs_fl q)"
    "if head_locked (rs_fl q) then r = None \<and> len = 0 \<and> q' = q
     else if rs_missing q = rs_pos q then r = None \<and> len = 0 \<and> \<not> head_locked (rs_fl q')
     else head_locked (rs_fl q') \<and> 0 < unat len \<and> rs_pos q + unat len \<le> rs_missing q
       \<and> r = Some (take (unat len) (drop (rs_pos q) st)) \<and> r_end (head_range q') = r_start (head_range q') + len"
    using get_record_spec [OF inv] get_record(1) by auto
  have "rs_missing q \<le> 2 ^ 62" using rs_missing_first(4) [OF inv] inv by (auto simp: rs_ok_def)
  then have "unat (r_end (head_range q')) = rs_pos q + unat len"
    if "\<not> head_locked (rs_fl q)" "rs_missing q \<noteq> rs_pos q"
    using spec(1,2,5) that by (auto simp: rs_ok_def rs_pos_def unat_add_u64)
  then show ?case using get_record(2) spec by (auto simp: rs_inv_def split: if_splits)
next
  case (release_record w sm h q n ret q' h' w' rcrd)
  have inv: "rs_ok st q" using release_record(2) by (simp add: rs_inv_def)
  let ?len = "r_end (head_range q) - r_start (head_range q)"
  have spec: "rs_ok st q'" "rs_got q' = rs_got q" "sfl_fin (rs_fl q') = sfl_fin (rs_fl q)"
    "if \<not> head_locked (rs_fl q) \<or> n > ?len \<and> n \<noteq> SIZE_MAX then q' = q
     else \<not> head_locked (rs_fl q') \<and> rs_pos q' = rs_pos q + min (unat n) (unat ?len)"
    using release_record_spec [OF inv, of now w sm h n] release_record(1) by auto
  show ?case
  proof (cases "\<not> head_locked (rs_fl q) \<or> n > ?len \<and> n \<noteq> SIZE_MAX")
    case True
    then show ?thesis using spec(4) release_record(2) by simp
  next
    case False
    note rel = spec(4) [unfolded if_not_P [OF False]]
    have len: "unat (r_end (head_range q)) - rs_pos q = unat ?len"
      using inv False by (auto simp: rs_ok_def rs_pos_def unat_sub_u64)
    have "out @ take (rs_pos q' - rs_pos q) rcrd = take (rs_pos q') st"
      using release_record(2) False rel by (simp add: rs_inv_def len take_add min_def)
    then show ?thesis using release_record(2) spec(1-3) rel by (simp add: rs_inv_def)
  qed
next
  case (move q ret q' rcrd)
  then show ?case using move_to_rbuf_spec [of st q] by (auto simp: rs_inv_def same_head_def)
next
  case (resize block n q ret q' rcrd)
  then show ?case using resize_rbuf_spec [of st q block n] by (auto simp: rs_inv_def same_head_def)
next
  case (set_cleanse q rcrd c)
  then show ?case using set_cleanse_spec(5) [of q c] by (simp add: rs_inv_def same_head_def set_cleanse_spec)
qed

lemma rs_inv_reach:
  assumes "rstream_reach now st final q rcrd out D"
  shows "rs_inv st q rcrd out D \<and> (sfl_fin (rs_fl q) \<longrightarrow> final)"
  using assms
proof (induction rule: rstream_reach.induct)
  case (create block n mem rxfc statm q)
  then show ?case using rs_inv_new by blast
next
  case (queue q rcrd out D off data len fin mem ret q')
  then show ?case using rs_inv_queue [of st q rcrd out D final off data len fin mem ret q']
    by (auto simp: stream_chunk_def)
next
  case (step q rcrd out D bs q' rcrd')
  then show ?case using rs_inv_step by blast
qed


section \<open>Three defects of the record interface\<close>

text \<open>A frame that arrives again while it is locked replaces the locked one: the frame whose bytes the
  application holds is freed, and its packet with it.\<close>

lemma insert_frees_locked_head:
  "ossl_sframe_list_insert True
     \<lparr>sfl_frames = [\<lparr>sf_range = \<lparr>r_start = 0, r_end = 2\<rparr>, sf_data = Some [7, 8]\<rparr>], sfl_fin = False, sfl_offset = 0,
      head_locked = True, sfl_cleanse = True\<rparr> \<lparr>r_start = 0, r_end = 2\<rparr> (Some [17, 18]) False =
   Some (True, \<lparr>sfl_frames = [\<lparr>sf_range = \<lparr>r_start = 0, r_end = 2\<rparr>, sf_data = Some [17, 18]\<rparr>], sfl_fin = False,
      sfl_offset = 0, head_locked = True, sfl_cleanse = True\<rparr>)"
  by code_simp

text \<open>A record that is cut at the end of the block of the ring buffer keeps the end of stream flag of the whole
  frame: two of three bytes are reported as the last ones.\<close>

lemma get_record_fin_too_early:
  "map_option (\<lambda>(r, len, fin, q). (r, len, fin)) (ossl_quic_rstream_get_record
     \<lparr>rs_fl = \<lparr>sfl_frames = [\<lparr>sf_range = \<lparr>r_start = 1, r_end = 4\<rparr>, sf_data = None\<rparr>], sfl_fin = True, sfl_offset = 1,
               head_locked = False, sfl_cleanse = False\<rparr>,
      rs_rxfc = None, rs_statm = None, head_range = \<lparr>r_start = 0, r_end = 0\<rparr>,
      rs_rbuf = \<lparr>rb_data = [13, 11, 12], head_offset = 4, ctail_offset = 1\<rparr>\<rparr>)
   = Some (Some [11, 12], 2, Some True)"
  by code_simp

text \<open>Releasing a record retires the offset instead of the number of bytes: of a stream of two bytes the
  second release is refused, although both bytes were received and released.\<close>

definition two_bytes_left :: "quic_rstream" where
  "two_bytes_left =
     \<lparr>rs_fl = \<lparr>sfl_frames = [\<lparr>sf_range = \<lparr>r_start = 0, r_end = 1\<rparr>, sf_data = Some [7]\<rparr>,
                           \<lparr>sf_range = \<lparr>r_start = 1, r_end = 2\<rparr>, sf_data = Some [8]\<rparr>], sfl_fin = False,
              sfl_offset = 0, head_locked = False, sfl_cleanse = False\<rparr>,
      rs_rxfc = Some 0, rs_statm = None, head_range = \<lparr>r_start = 0, r_end = 0\<rparr>,
      rs_rbuf = ring_buf_init\<rparr>"

definition two_bytes_rxfc :: rxfc_store where
  "two_bytes_rxfc a =
     \<lparr>rxfc_cwm = 100, rxfc_swm = 2, rxfc_rwm = 0, rxfc_esrwm = 0, rxfc_hwm = 2, rxfc_cur_window_size = 100,
      rxfc_max_window_size = 100, rxfc_epoch_start = 0, rxfc_parent = None, rxfc_error_code = 0,
      rxfc_cwm_changed = False, rxfc_is_fin = False, rxfc_standalone = True\<rparr>"

definition release_next :: "(bool \<times> quic_rstream \<times> rxfc_store \<times> unit) option \<Rightarrow> (bool \<times> quic_rstream \<times> rxfc_store \<times> unit) option" where
  "release_next s =
     (case s of None \<Rightarrow> None
      | Some (_, q, h, w) \<Rightarrow>
        (case ossl_quic_rstream_get_record q of None \<Rightarrow> None
         | Some (_, _, _, q) \<Rightarrow> ossl_quic_rstream_release_record (\<lambda>w. (0, w)) w (\<lambda>_. ossl_statm_init) h q SIZE_MAX))"

lemma release_record_retires_offset:
  "map_option (\<lambda>(ok, q, h, w). (ok, rxfc_rwm (h 0))) (release_next (Some (True, two_bytes_left, two_bytes_rxfc, ())))
     = Some (True, 1)"
  "map_option (\<lambda>(ok, q, h, w). (ok, rxfc_rwm (h 0)))
     (release_next (release_next (Some (True, two_bytes_left, two_bytes_rxfc, ())))) = Some (False, 1)"
  by code_simp+


section \<open>Properties\<close>

lemma read_result:
  assumes ok: "rs_ok st q"
  shows "\<exists>ret q' h' w'. ossl_quic_rstream_read now w sm h q sz =
    Some (ret, take (unat sz) (drop (rs_pos q) (take (rs_missing q) st)),
      sfl_fin (rs_fl q) \<and> rs_pos q + min (unat sz) (rs_missing q - rs_pos q) = length st, q', h', w')"
proof -
  obtain q' where q': "read_internal q sz True = Some (take (rs_avail q sz) (drop (rs_pos q) st),
      sfl_fin (rs_fl q) \<and> rs_pos q + rs_avail q sz = length st, q')"
    using read_internal_spec [OF ok, of sz True] by blast
  have "take (rs_avail q sz) (drop (rs_pos q) st) = take (unat sz) (drop (rs_pos q) (take (rs_missing q) st))"
    by (simp add: rs_avail_def drop_take)
  then show ?thesis
    using q' by (cases "rs_rxfc q'") (auto simp: ossl_quic_rstream_read_def rs_avail_def Let_def split: prod.split)
qed

text \<open>C3. However the frames of a stream arrive, and however reads, records, moves to the ring buffer and
  resizings are interleaved, the application has received a prefix of the stream, and no operation
  (queueing a frame of the stream, reading, asking what is available, taking or releasing a record,
  moving to the ring buffer, resizing it) fails an assertion or leaves its memory. The next read returns the bytes from there to the first
  offset that did not arrive, as far as the buffer goes, and reports the end of the stream exactly
  when it was announced and is reached; the number of available bytes is what such a read can get.\<close>

theorem rstream_reads:
  assumes "rstream_reach now st final q rcrd out D"
  shows "out = take (length out) st \<and>
    (\<exists>m. {..<m} \<subseteq> D \<and> m \<notin> D \<and> length out \<le> m \<and> m \<le> length st
       \<and> ossl_quic_rstream_available q = Some (of_nat (m - length out), sfl_fin (rs_fl q) \<and> m = length st)
       \<and> (\<forall>w sm h sz. \<exists>ret q' h' w'. ossl_quic_rstream_read now w sm h q sz =
            Some (ret, take (unat sz) (drop (length out) (take m st)),
              sfl_fin (rs_fl q) \<and> length out + min (unat sz) (m - length out) = length st, q', h', w')))
    \<and> (\<forall>mem off data len fin. stream_chunk st final off data len fin \<longrightarrow>
         ossl_quic_rstream_queue_data mem q off data len fin \<noteq> None)
    \<and> ossl_quic_rstream_get_record q \<noteq> None
    \<and> (\<forall>w sm h n. ossl_quic_rstream_release_record now w sm h q n \<noteq> None)
    \<and> ossl_quic_rstream_move_to_rbuf q \<noteq> None
    \<and> (\<forall>block n. (block = None \<or> length (the block) = unat n) \<longrightarrow> ossl_quic_rstream_resize_rbuf block q n \<noteq> None)"
proof -
  have inv: "rs_inv st q rcrd out D" using rs_inv_reach [OF assms] by blast
  then have ok: "rs_ok st q" and got: "rs_got q = D" and out: "out = take (rs_pos q) st" by (simp_all add: rs_inv_def)
  have pos: "length out = rs_pos q" using out rs_ok_pos [OF ok] by simp
  note miss = rs_missing_first [OF ok]
  have "rs_missing q \<le> length st" using miss(4) ok by (auto simp: rs_ok_def)
  then have "\<exists>m. {..<m} \<subseteq> D \<and> m \<notin> D \<and> length out \<le> m \<and> m \<le> length st
       \<and> ossl_quic_rstream_available q = Some (of_nat (m - length out), sfl_fin (rs_fl q) \<and> m = length st)
       \<and> (\<forall>w sm h sz. \<exists>ret q' h' w'. ossl_quic_rstream_read now w sm h q sz =
            Some (ret, take (unat sz) (drop (length out) (take m st)),
              sfl_fin (rs_fl q) \<and> length out + min (unat sz) (m - length out) = length st, q', h', w'))"
    unfolding pos using miss(1-3) got available_spec [OF ok] read_result [OF ok, of now] by (intro exI [of _ "rs_missing q"]) simp
  moreover have "ossl_quic_rstream_queue_data mem q off data len fin \<noteq> None"
    if "stream_chunk st final off data len fin" for mem off data len fin
    using queue_data_spec [OF ok that, of mem] by auto
  moreover have "ossl_quic_rstream_get_record q \<noteq> None" using get_record_spec [OF ok] by auto
  moreover have "ossl_quic_rstream_release_record now w sm h q n \<noteq> None" for w sm h n
    using release_record_spec [OF ok, of now w sm h n] by auto
  moreover have "ossl_quic_rstream_move_to_rbuf q \<noteq> None" using move_to_rbuf_spec [OF ok] by auto
  moreover have "ossl_quic_rstream_resize_rbuf block q n \<noteq> None" if "block = None \<or> length (the block) = unat n" for block n
    using resize_rbuf_spec [OF ok that] by auto
  ultimately show ?thesis using out pos by auto
qed

text \<open>The second half of a stream of four bytes arrives first and is moved to the ring buffer.\<close>

definition half_rstream :: quic_rstream where
  "half_rstream =
     \<lparr>rs_fl = \<lparr>sfl_frames = [\<lparr>sf_range = \<lparr>r_start = 2, r_end = 4\<rparr>, sf_data = None\<rparr>], sfl_fin = True, sfl_offset = 0,
              head_locked = False, sfl_cleanse = False\<rparr>,
      rs_rxfc = None, rs_statm = None, head_range = \<lparr>r_start = 0, r_end = 0\<rparr>,
      rs_rbuf = \<lparr>rb_data = [0, 0, 3, 4, 0], head_offset = 4, ctail_offset = 0\<rparr>\<rparr>"

lemma half_reach: "rstream_reach (\<lambda>w :: unit. (0, w)) [1, 2, 3, 4] True half_rstream [] [] {2..<4}"
proof -
  let ?q = "\<lambda>fs fin d h. \<lparr>rs_fl = \<lparr>sfl_frames = fs, sfl_fin = fin, sfl_offset = 0, head_locked = False, sfl_cleanse = False\<rparr>,
    rs_rxfc = None, rs_statm = None, head_range = \<lparr>r_start = 0, r_end = 0\<rparr>,
    rs_rbuf = \<lparr>rb_data = d, head_offset = h, ctail_offset = 0\<rparr>\<rparr>"
  let ?now = "\<lambda>w :: unit. (0 :: ossl_time, w)"
  let ?f = "\<lambda>d. \<lparr>sf_range = \<lparr>r_start = 2, r_end = 4\<rparr>, sf_data = d\<rparr>"
  have "ossl_quic_rstream_new True (Some [0, 0, 0, 0, 0]) None None 5 = Some (Some (?q [] False [0, 0, 0, 0, 0] 0))"
    by code_simp
  then have 1: "rstream_reach ?now [1, 2, 3, 4] True (?q [] False [0, 0, 0, 0, 0] 0) [] [] {}"
    by (intro rstream_reach.create) auto
  have c: "stream_chunk [1, 2, 3, 4] True 2 (Some [3, 4]) 2 True" by (simp add: stream_chunk_def)
  have "ossl_quic_rstream_queue_data True (?q [] False [0, 0, 0, 0, 0] 0) 2 (Some [3, 4]) 2 True =
      Some (True, ?q [?f (Some [3, 4])] True [0, 0, 0, 0, 0] 0)"
    by code_simp
  from rstream_reach.queue [OF 1 c this]
  have 2: "rstream_reach ?now [1, 2, 3, 4] True (?q [?f (Some [3, 4])] True [0, 0, 0, 0, 0] 0) [] [] {2..<4}" by simp
  have "ossl_quic_rstream_move_to_rbuf (?q [?f (Some [3, 4])] True [0, 0, 0, 0, 0] 0) = Some (True, half_rstream)"
    unfolding half_rstream_def by code_simp
  from rstream_reach.step [OF 2 rstream_step.move [OF this]] show ?thesis by simp
qed

theorem rstream_reads_witness:
  "rstream_reach (\<lambda>w :: unit. (0, w)) [1, 2, 3, 4] True half_rstream [] [] {2..<4}
   \<and> ossl_quic_rstream_move_to_rbuf half_rstream \<noteq> None
   \<and> ossl_quic_rstream_available half_rstream \<noteq> None \<and> ossl_quic_rstream_resize_rbuf None half_rstream 3 \<noteq> None"
  using rstream_reads [OF half_reach] half_reach by auto

end
