(* ===== verification/StreamTransfer.thy ===== *)
theory StreamTransfer
  imports SendStream RecvStream
begin

text \<open>
  A send stream and a receive stream with a network between them that may lose, delay, reorder and
  repeat frames. The sender appends, takes frames and is told about losses and acknowledgements;
  only bytes that arrived are acknowledged. The receiver gets any frame that was ever sent, and its
  application reads. The theory shows that the application always has a prefix of what the sender
  appended, and that from every state in which no byte is in flight any more sending what is to be sent
  once, delivering it and reading gives the application the whole stream.
\<close>

section \<open>The system\<close>

text \<open>The frames sent so far are kept as offset, bytes and end of stream flag. A sender may cut a frame to
  \<open>n\<close> bytes before it sends it; the flag is then cleared.\<close>

type_synonym sent_frame = "u64 \<times> bytes \<times> bool"

inductive stream_transfer ::
    "'w clock \<Rightarrow> quic_sstream \<Rightarrow> bytes \<Rightarrow> sent_frame set \<Rightarrow> quic_rstream \<Rightarrow> bytes \<Rightarrow> bytes \<Rightarrow> nat set \<Rightarrow> bool" for now where
  start: "ossl_quic_sstream_new mem block n = Some (Some q) \<Longrightarrow> block = None \<or> length (the block) = unat n \<Longrightarrow>
    ossl_quic_rstream_new mem' block' rxfc statm n' = Some (Some r) \<Longrightarrow> block' = None \<or> length (the block') = unat n' \<Longrightarrow>
    stream_transfer now q [] {} r [] [] {}"
| sender: "stream_transfer now q st W r rcrd out D \<Longrightarrow> sstream_step q st q' st' \<Longrightarrow> stream_transfer now q' st' W r rcrd out D"
| send: "stream_transfer now q st W r rcrd out D \<Longrightarrow> ossl_quic_sstream_get_stream_frame q skip hdr 2 = Some (Some (h, iov)) \<Longrightarrow>
    n \<le> fs_len h \<Longrightarrow> stream_transfer now q st
      (insert (fs_offset h, concat (ossl_quic_sstream_adjust_iov n iov), is_fin h \<and> n = fs_len h) W) r rcrd out D"
| deliver: "stream_transfer now q st W r rcrd out D \<Longrightarrow> (off, bs, fin) \<in> W \<Longrightarrow>
    ossl_quic_rstream_queue_data mem r off (Some bs) (of_nat (length bs)) fin = Some (ret, r') \<Longrightarrow>
    stream_transfer now q st W r' rcrd out (if ret then D \<union> {unat off..<unat off + length bs} else D)"
| acked: "stream_transfer now q st W r rcrd out D \<Longrightarrow> a \<le> b \<Longrightarrow> {a..b} \<subseteq> in_flight q \<Longrightarrow> unat ` {a..b} \<subseteq> D \<Longrightarrow>
    ossl_quic_sstream_mark_acked mem q a b = Some (res, q') \<Longrightarrow> stream_transfer now q' st W r rcrd out D"
| receiver: "stream_transfer now q st W r rcrd out D \<Longrightarrow> rstream_step now r rcrd bs r' rcrd' \<Longrightarrow>
    stream_transfer now q st W r' rcrd' (out @ bs) D"

section \<open>Growing streams\<close>

lemma frame_holds_append: "frame_holds stored lo st f \<Longrightarrow> frame_holds stored lo (st @ xs) f"
  by (auto simp: frame_holds_def nth_append split: option.splits)

lemma rs_inv_append:
  assumes "rs_inv st r rcrd out D" "\<not> sfl_fin (rs_fl r)" "length (st @ xs) \<le> 2 ^ 62"
  shows "rs_inv (st @ xs) r rcrd out D"
proof -
  have ok: "rs_ok st r" using assms(1) by (simp add: rs_inv_def)
  have "rs_ok (st @ xs) r" using ok assms(2,3) by (auto simp: rs_ok_def intro: frame_holds_append)
  moreover have "unat (r_end (head_range r)) \<le> length st" if "head_locked (rs_fl r)"
    using ok that by (auto simp: rs_ok_def u64_nat)
  ultimately show ?thesis using assms(1) rs_ok_pos [OF ok] by (auto simp: rs_inv_def)
qed

lemma stream_chunk_append:
  "stream_chunk st final off data len fin \<Longrightarrow> (final \<Longrightarrow> xs = []) \<Longrightarrow> (final \<Longrightarrow> final') \<Longrightarrow>
   stream_chunk (st @ xs) final' off data len fin"
  by (auto simp: stream_chunk_def)

lemma sstream_step_mono:
  "sstream_step q st q' st' \<Longrightarrow> acked_set q' = acked_set q \<and> (have_final_size q \<longrightarrow> have_final_size q')
     \<and> (\<exists>xs. st' = st @ xs \<and> (have_final_size q \<longrightarrow> xs = []))"
proof (induction rule: sstream_step.induct)
  case (append mem q buf res n q' st)
  then show ?case by (auto simp: ossl_quic_sstream_append_def Let_def split: if_splits option.splits prod.splits)
qed (auto simp: ossl_quic_sstream_mark_transmitted_def ossl_quic_sstream_mark_lost_def ossl_quic_sstream_fin_def
    ossl_quic_sstream_mark_transmitted_fin_def ossl_quic_sstream_mark_lost_fin_def ossl_quic_sstream_mark_acked_fin_def
    ossl_quic_sstream_set_buffer_size_def ossl_quic_sstream_set_cleanse_def split: prod.splits)

section \<open>The invariant of the system\<close>

definition transfer_inv :: "quic_sstream \<Rightarrow> bytes \<Rightarrow> sent_frame set \<Rightarrow> quic_rstream \<Rightarrow> bytes \<Rightarrow> bytes \<Rightarrow> nat set \<Rightarrow> bool" where
  "transfer_inv q st W r rcrd out D \<longleftrightarrow>
     ss_ok q st \<and> rs_inv st r rcrd out D \<and> (sfl_fin (rs_fl r) \<longrightarrow> have_final_size q)
     \<and> unat ` uset_elems (acked_set q) \<subseteq> D
     \<and> (\<forall>(off, bs, fin) \<in> W. length bs < 2 ^ 64 \<and> stream_chunk st (have_final_size q) off (Some bs) (of_nat (length bs)) fin)"

lemma ss_ok_limit: "ss_ok q st \<Longrightarrow> length st \<le> 2 ^ 62"
  using carries_limit [of "ss_ring q" st] by (simp add: ss_ok_def)

lemma sent_chunk:
  assumes ok: "ss_ok q st" and get: "ossl_quic_sstream_get_stream_frame q skip hdr 2 = Some (Some (h, iov))" and n: "n \<le> fs_len h"
  defines "bs \<equiv> concat (ossl_quic_sstream_adjust_iov n iov)"
  shows "length bs = unat n" "stream_chunk st (have_final_size q) (fs_offset h) (Some bs) (of_nat (length bs)) (is_fin h \<and> n = fs_len h)"
proof -
  have head: "unat (head_offset (ss_ring q)) = length st"
    using ok carries_high [of "ss_ring q" st] by (simp add: ss_ok_def rb_high_def)
  have h: "concat iov = take (unat (fs_len h)) (drop (unat (fs_offset h)) st)"
    "unat (fs_offset h) + unat (fs_len h) \<le> length st"
    "is_fin h \<longleftrightarrow> have_final_size q \<and> unat (fs_offset h) + unat (fs_len h) = length st"
    using frame_carries [OF ok head, of skip hdr] get by auto
  have n': "unat n \<le> unat (fs_len h)" using n by (simp add: u64_nat)
  have "bs = take (unat n) (concat iov)"
    using adjust_iov_concat [of iov n] h(1) ss_ok_limit [OF ok] by (simp add: bs_def)
  then have bs: "bs = take (unat n) (drop (unat (fs_offset h)) st)" using n' by (simp add: h(1) min_def)
  then show len: "length bs = unat n" using h(2) n' by simp
  show "stream_chunk st (have_final_size q) (fs_offset h) (Some bs) (of_nat (length bs)) (is_fin h \<and> n = fs_len h)"
    unfolding len using bs h(2,3) n' by (auto simp: stream_chunk_def)
qed

lemma transfer_reach_inv:
  "stream_transfer now q st W r rcrd out D \<Longrightarrow> transfer_inv q st W r rcrd out D"
proof (induction rule: stream_transfer.induct)
  case (start mem block n q mem' block' rxfc statm n' r)
  then have "ss_ok q []" "rs_inv [] r [] [] {} \<and> \<not> sfl_fin (rs_fl r)"
    using sstream_new_ok rs_inv_new [of "[]" block' n' mem' rxfc statm r] by auto
  then show ?case by (auto simp: transfer_inv_def ss_ok_def offsets_def)
next
  case (sender q st W r rcrd out D q' st')
  then have ok: "ss_ok q' st'" using step_ok by (auto simp: transfer_inv_def)
  obtain xs where m: "st' = st @ xs" "acked_set q' = acked_set q" "have_final_size q \<longrightarrow> have_final_size q' \<and> xs = []"
    using sstream_step_mono [OF sender.hyps(2)] by auto
  have "rs_inv st' r rcrd out D"
    using sender.IH m ss_ok_limit [OF ok] rs_inv_append [of st r rcrd out D xs]
    by (cases "sfl_fin (rs_fl r)") (auto simp: transfer_inv_def)
  then show ?case
    using sender.IH m ok by (auto simp: transfer_inv_def intro: stream_chunk_append)
next
  case (send q st W r rcrd out D skip hdr h iov n)
  then show ?case
    using sent_chunk [of q st skip hdr h iov n] unat_u64_bound [of n] by (auto simp: transfer_inv_def)
next
  case (deliver q st W r rcrd out D off bs fin mem ret r')
  have c: "stream_chunk st (have_final_size q) off (Some bs) (of_nat (length bs)) fin" and l: "length bs < 2 ^ 64"
    and inv: "rs_inv st r rcrd out D"
    using deliver by (auto simp: transfer_inv_def)
  have "unat (of_nat (length bs) :: u64) = length bs" using l by (rule unat_of_nat_u64)
  then show ?case
    using rs_inv_queue [OF inv c deliver.hyps(3)] deliver.IH c
    by (auto simp: transfer_inv_def stream_chunk_def simp del: unat_of_nat)
next
  case (acked q st W r rcrd out D a b mem res q')
  then show ?case using mark_acked_ok [of q st a b mem] by (auto simp: transfer_inv_def split: if_splits)
next
  case (receiver q st W r rcrd out D bs r' rcrd')
  then show ?case using rs_inv_step [of now r rcrd bs r' rcrd' st out D] by (auto simp: transfer_inv_def)
qed


section \<open>Delivering everything\<close>

fun deliver_all :: "quic_rstream \<Rightarrow> (frame_stream \<times> bytes list) list \<Rightarrow> quic_rstream option" where
  "deliver_all r [] = Some r"
| "deliver_all r ((h, iov) # fs) =
     (case ossl_quic_rstream_queue_data True r (fs_offset h) (Some (concat iov)) (fs_len h) (is_fin h) of
        None \<Rightarrow> None | Some (_, r) \<Rightarrow> deliver_all r fs)"

lemma deliver_all_ok:
  assumes "rs_inv st r rcrd out D"
    and "\<forall>f \<in> set fs. sent_frame_wf st final f
      \<and> stream_chunk st final (fs_offset (fst f)) (Some (concat (snd f))) (fs_len (fst f)) (is_fin (fst f))"
  shows "\<exists>r'. deliver_all r fs = Some r'
    \<and> rs_inv st r' rcrd out (D \<union> (\<Union>(h, iov) \<in> set fs. {unat (fs_offset h)..<unat (fs_offset h) + length (concat iov)}))"
  using assms
proof (induction fs arbitrary: r D)
  case (Cons f fs)
  obtain h iov where f: "f = (h, iov)" by fastforce
  have wf: "unat (fs_len h) = length (concat iov)" "concat iov \<noteq> []"
    and c: "stream_chunk st final (fs_offset h) (Some (concat iov)) (fs_len h) (is_fin h)"
    using Cons.prems(2) by (auto simp: f sent_frame_wf_def)
  have "fs_len h \<noteq> 0" unfolding u64_eq_nat wf(1) using wf(2) by simp
  then obtain r1 where q: "ossl_quic_rstream_queue_data True r (fs_offset h) (Some (concat iov)) (fs_len h) (is_fin h) = Some (True, r1)"
    using queue_data_spec [OF _ c, of r True] Cons.prems(1) by (auto simp: rs_inv_def)
  have "rs_inv st r1 rcrd out (D \<union> {unat (fs_offset h)..<unat (fs_offset h) + length (concat iov)})"
    using rs_inv_queue(1) [OF Cons.prems(1) c q] by (simp add: wf(1))
  then show ?case using Cons.IH Cons.prems(2) q by (fastforce simp: f Un_assoc)
qed simp


lemma send_frames_chunks:
  assumes ok: "ss_ok q st" and wf: "\<forall>f \<in> set fs. sent_frame_wf st final f"
    and fs: "map (\<lambda>(h, iov). (fs_offset h, concat iov)) fs =
      map (\<lambda>r. (r_start r, take (unat (r_end r) + 1 - unat (r_start r)) (drop (unat (r_start r)) st))) (new_set q)"
  shows "\<forall>f \<in> set fs. stream_chunk st final (fs_offset (fst f)) (Some (concat (snd f))) (fs_len (fst f)) (is_fin (fst f))"
    "unat ` uset_elems (new_set q) \<subseteq> (\<Union>(h, iov) \<in> set fs. {unat (fs_offset h)..<unat (fs_offset h) + length (concat iov)})"
proof -
  have rng: "r_start r \<le> r_end r" "unat (r_end r) < length st" if "r \<in> set (new_set q)" for r
    using ok that uset_bounds [of "new_set q" r] uset_inv_wf [of "new_set q" r] by (auto simp: ss_ok_def offsets_def)
  have origin: "\<exists>r \<in> set (new_set q). fs_offset h = r_start r
      \<and> concat iov = take (unat (r_end r) + 1 - unat (r_start r)) (drop (unat (r_start r)) st)" if "(h, iov) \<in> set fs" for h iov
  proof -
    have "(fs_offset h, concat iov) \<in> set (map (\<lambda>(h, iov). (fs_offset h, concat iov)) fs)" using that by force
    then show ?thesis unfolding fs by auto
  qed
  show "\<forall>f \<in> set fs. stream_chunk st final (fs_offset (fst f)) (Some (concat (snd f))) (fs_len (fst f)) (is_fin (fst f))"
  proof
    fix f assume f: "f \<in> set fs"
    obtain h iov where hi: "f = (h, iov)" by fastforce
    obtain r where r: "r \<in> set (new_set q)" "fs_offset h = r_start r"
      "concat iov = take (unat (r_end r) + 1 - unat (r_start r)) (drop (unat (r_start r)) st)"
      using origin f hi by blast
    have "unat (fs_len h) = unat (r_end r) + 1 - unat (r_start r)"
      using wf f rng(2) [OF r(1)] by (auto simp: hi sent_frame_wf_def r(3))
    then show "stream_chunk st final (fs_offset (fst f)) (Some (concat (snd f))) (fs_len (fst f)) (is_fin (fst f))"
      using wf f rng [OF r(1)] r(2,3) by (auto simp: hi sent_frame_wf_def stream_chunk_def u64_nat)
  qed
  show "unat ` uset_elems (new_set q) \<subseteq> (\<Union>(h, iov) \<in> set fs. {unat (fs_offset h)..<unat (fs_offset h) + length (concat iov)})"
  proof
    fix p assume "p \<in> unat ` uset_elems (new_set q)"
    then obtain r where r: "r \<in> set (new_set q)" "unat (r_start r) \<le> p" "p \<le> unat (r_end r)"
      by (auto simp: uset_elems_def range_elems_def u64_nat)
    then have "(r_start r, take (unat (r_end r) + 1 - unat (r_start r)) (drop (unat (r_start r)) st))
        \<in> set (map (\<lambda>(h, iov). (fs_offset h, concat iov)) fs)"
      unfolding fs by auto
    then obtain h iov where "(h, iov) \<in> set fs" "fs_offset h = r_start r"
      "concat iov = take (unat (r_end r) + 1 - unat (r_start r)) (drop (unat (r_start r)) st)" by auto
    then show "p \<in> (\<Union>(h, iov) \<in> set fs. {unat (fs_offset h)..<unat (fs_offset h) + length (concat iov)})"
      using r rng(2) [OF r(1)] by (intro UN_I [of "(h, iov)"]) auto
  qed
qed


section \<open>Properties\<close>

text \<open>C1. Whatever the network loses, delays, reorders or repeats, what the application on the receiving side has
  got is a prefix of what was appended on the sending side, a read gives it the bytes that follow up to the
  first one that did not arrive, and the end of the stream is reported only when the sender has finished
  the stream and everything was read.\<close>

theorem stream_transfer_prefix:
  assumes "stream_transfer now q st W r rcrd out D"
  shows "out = take (length out) st \<and>
    (\<exists>m. {..<m} \<subseteq> D \<and> m \<notin> D \<and>
       (\<forall>w sm h sz. \<exists>ret fin r' h' w'. ossl_quic_rstream_read now w sm h r sz =
          Some (ret, take (unat sz) (drop (length out) (take m st)), fin, r', h', w')
          \<and> (fin \<longrightarrow> have_final_size q \<and> out @ take (unat sz) (drop (length out) (take m st)) = st)))"
proof -
  have inv: "transfer_inv q st W r rcrd out D" using assms by (rule transfer_reach_inv)
  then have ok: "rs_ok st r" and out: "out = take (rs_pos r) st" and got: "rs_got r = D"
    and fin: "sfl_fin (rs_fl r) \<longrightarrow> have_final_size q"
    by (simp_all add: transfer_inv_def rs_inv_def)
  have pos: "length out = rs_pos r" using out rs_ok_pos [OF ok] by simp
  note miss = rs_missing_first [OF ok]
  have m: "rs_missing r \<le> length st" using miss(4) ok by (auto simp: rs_ok_def)
  have "\<exists>ret fin r' h' w'. ossl_quic_rstream_read now w sm h r sz =
      Some (ret, take (unat sz) (drop (rs_pos r) (take (rs_missing r) st)), fin, r', h', w')
      \<and> (fin \<longrightarrow> have_final_size q \<and> out @ take (unat sz) (drop (rs_pos r) (take (rs_missing r) st)) = st)" for w sm h sz
  proof -
    have "out @ take (unat sz) (drop (rs_pos r) (take (rs_missing r) st)) = st"
      if "rs_pos r + min (unat sz) (rs_missing r - rs_pos r) = length st"
    proof -
      have "rs_missing r = length st" using that m miss(1) by linarith
      then show ?thesis using that out by (simp add: min_def split: if_splits)
    qed
    then show ?thesis using read_result [OF ok, of now w sm h sz] fin by blast
  qed
  then show ?thesis using miss(2,3) out unfolding pos got by (intro conjI exI [of _ "rs_missing r"]) auto
qed

text \<open>C2. Loss is repaired: whenever every byte is either to be sent or acknowledged, so that nothing is in flight
  any more, sending once what is to be sent, delivering these frames and reading with a large enough buffer
  gives the application the rest of the stream.\<close>

theorem stream_transfer_completes:
  assumes "stream_transfer now q st W r rcrd out D" "in_flight q = {}"
  shows "\<exists>fs q' r'. send_frames (length (new_set q)) hdr q = Some (fs, q') \<and> deliver_all r fs = Some r'
    \<and> (\<forall>w sm h sz. length st - length out \<le> unat sz \<longrightarrow>
         (\<exists>ret bs fin r2 h' w'. ossl_quic_rstream_read now w sm h r' sz = Some (ret, bs, fin, r2, h', w') \<and> out @ bs = st))"
proof -
  have inv: "transfer_inv q st W r rcrd out D" using assms(1) by (rule transfer_reach_inv)
  then have ok: "ss_ok q st" and r: "rs_inv st r rcrd out D" and ack: "unat ` uset_elems (acked_set q) \<subseteq> D"
    by (simp_all add: transfer_inv_def)
  obtain fs q' where s: "send_frames (length (new_set q)) hdr q = Some (fs, q')"
    and wf: "\<forall>f \<in> set fs. sent_frame_wf st (have_final_size q) f"
    and fs: "map (\<lambda>(h, iov). (fs_offset h, concat iov)) fs =
      map (\<lambda>r. (r_start r, take (unat (r_end r) + 1 - unat (r_start r)) (drop (unat (r_start r)) st))) (new_set q)"
    using send_frames_all [OF ok, of hdr] by auto
  note c = send_frames_chunks [OF ok wf fs]
  define D' where "D' = D \<union> (\<Union>(h, iov) \<in> set fs. {unat (fs_offset h)..<unat (fs_offset h) + length (concat iov)})"
  obtain r' where r': "deliver_all r fs = Some r'" "rs_inv st r' rcrd out D'"
    using deliver_all_ok [OF r, of fs "have_final_size q"] wf c(1) by (auto simp: D'_def)
  then have ok': "rs_ok st r'" and out: "out = take (rs_pos r') st" and got: "rs_got r' = D'" by (simp_all add: rs_inv_def)
  note miss = rs_missing_first [OF ok']
  have "offsets st \<subseteq> uset_elems (new_set q) \<union> uset_elems (acked_set q)"
    using assms(2) in_flight_offsets [of q st] ok by (auto simp: ss_ok_def)
  then have "unat ` offsets st \<subseteq> unat ` uset_elems (new_set q) \<union> unat ` uset_elems (acked_set q)" by auto
  from subset_trans [OF this Un_mono [OF c(2) ack]]
  have cover: "unat ` offsets st \<subseteq> D'" by (simp add: D'_def Un_commute)
  have all: "p \<in> D'" if "p < length st" for p
  proof -
    have "unat (of_nat p :: u64) = p" using that ss_ok_limit [OF ok] by (intro unat_of_nat_u64) simp
    then have "(of_nat p :: u64) \<in> offsets st" "p = unat (of_nat p :: u64)"
      using that by (simp_all add: offsets_def del: unat_of_nat)
    then show ?thesis using cover by blast
  qed
  have "rs_missing r' \<le> length st" using miss(4) ok' by (auto simp: rs_ok_def)
  moreover have "\<not> rs_missing r' < length st" using all miss(3) got by blast
  ultimately have "rs_missing r' = length st" by simp
  then have "\<exists>ret bs fin r2 h' w'. ossl_quic_rstream_read now w sm h r' sz = Some (ret, bs, fin, r2, h', w') \<and> out @ bs = st"
    if "length st - length out \<le> unat sz" for w sm h sz
    using read_result [OF ok', of now w sm h sz] that out rs_ok_pos [OF ok'] by fastforce
  then show ?thesis using s r'(1) by blast
qed

text \<open>The sender of four bytes and a receiver that has got nothing; and the same sender with its four bytes
  still to be sent.\<close>

definition fresh_sstream :: quic_sstream where
  "fresh_sstream = \<lparr>ss_ring = \<lparr>rb_data = [1, 2, 3, 4, 0], head_offset = 4, ctail_offset = 0\<rparr>,
     new_set = [\<lparr>r_start = 0, r_end = 3\<rparr>], acked_set = [], have_final_size = False, sent_final_size = False,
     acked_final_size = False, ss_cleanse = False\<rparr>"

definition fresh_rstream :: quic_rstream where
  "fresh_rstream = \<lparr>rs_fl = ossl_sframe_list_init, rs_rxfc = None, rs_statm = None,
     head_range = \<lparr>r_start = 0, r_end = 0\<rparr>, rs_rbuf = \<lparr>rb_data = [0, 0, 0], head_offset = 0, ctail_offset = 0\<rparr>\<rparr>"

lemma fresh_transfer: "stream_transfer (\<lambda>w :: unit. (0, w)) fresh_sstream [1, 2, 3, 4] {} fresh_rstream [] [] {}"
proof -
  let ?q = "\<lparr>ss_ring = \<lparr>rb_data = [0, 0, 0, 0, 0], head_offset = 0, ctail_offset = 0\<rparr>,
    new_set = [], acked_set = [], have_final_size = False, sent_final_size = False,
    acked_final_size = False, ss_cleanse = False\<rparr>"
  have "ossl_quic_sstream_new True (Some [0, 0, 0, 0, 0]) 5 = Some (Some ?q)" by code_simp
  moreover have "ossl_quic_rstream_new True (Some [0, 0, 0]) None None 3 = Some (Some fresh_rstream)"
    unfolding fresh_rstream_def by code_simp
  ultimately have 1: "stream_transfer (\<lambda>w :: unit. (0, w)) ?q [] {} fresh_rstream [] [] {}"
    by (intro stream_transfer.start) auto
  have "ossl_quic_sstream_append True ?q [1, 2, 3, 4] = Some (True, 4, fresh_sstream)"
    by (simp add: ossl_quic_sstream_append_def append_loop.simps ring_buf_push_eval
        ossl_uint_set_insert_def create_set_item_def fresh_sstream_def)
  from stream_transfer.sender [OF 1 sstream_step.append [OF this]] show ?thesis by simp
qed

theorem stream_transfer_prefix_witness:
  "stream_transfer (\<lambda>w :: unit. (0, w)) fresh_sstream [1, 2, 3, 4] {} fresh_rstream [] [] {} \<and>
   (\<exists>ret fin r' h' w'. ossl_quic_rstream_read (\<lambda>w. (0, w)) () (\<lambda>_. ossl_statm_init) two_bytes_rxfc fresh_rstream 2 =
      Some (ret, [], fin, r', h', w'))"
  by (rule exE [OF stream_transfer_prefix [OF fresh_transfer, THEN conjunct2]], elim conjE, drule spec [of _ "()"],
      drule spec [of _ "\<lambda>_. ossl_statm_init"], drule spec [of _ two_bytes_rxfc], drule spec [of _ 2])
     (auto simp: fresh_transfer lessThan_empty_iff)

theorem stream_transfer_completes_witness:
  "stream_transfer (\<lambda>w :: unit. (0, w)) fresh_sstream [1, 2, 3, 4] {} fresh_rstream [] [] {} \<and>
   (\<exists>fs q' r'. send_frames 1 \<lparr>fs_stream_id = 0, fs_offset = 0, fs_len = 0, fs_data = None,
      has_explicit_len = True, is_fin = False\<rparr> fresh_sstream = Some (fs, q') \<and> deliver_all fresh_rstream fs = Some r')"
proof -
  have "in_flight fresh_sstream = {}" "length (new_set fresh_sstream) = 1"
    by (auto simp: in_flight_def ossl_quic_sstream_get_cur_size_def range_elems_def fresh_sstream_def u64_nat)
  then show ?thesis
    using stream_transfer_completes [OF fresh_transfer, of "\<lparr>fs_stream_id = 0, fs_offset = 0, fs_len = 0,
        fs_data = None, has_explicit_len = True, is_fin = False\<rparr>"] fresh_transfer
    by auto
qed

end
