(* ===== verification/WirePkt.thy ===== *)
theory WirePkt
  imports WireRoundtrip
begin

text \<open>
  QUIC packet headers, \<open>ssl/quic/quic_wire_pkt.c\<close> and \<open>include/internal/quic_wire_pkt.h\<close>: the packet
  types, the header structure with its codec, header protection, the truncated packet numbers, and the
  integrity tag of Retry packets. The ciphers are parameters: \<open>EVP_CipherUpdate\<close> and its companions are
  code of the crypto library.

  A bit field of \<open>QUIC_PKT_HDR\<close> is a word of the field's width, or a truth value when it is one bit wide.
  A pointer into the packet is an offset from its start; \<open>None\<close> is the NULL pointer. As in the packet
  writer, the outer \<open>None\<close> of a result is an access outside an object or a failed assertion.
\<close>

section \<open>Packet types\<close>

definition QUIC_VERSION_NONE :: u32 where "QUIC_VERSION_NONE = 0"
definition QUIC_VERSION_1 :: u32 where "QUIC_VERSION_1 = 1"

definition QUIC_PKT_TYPE_INITIAL :: u32 where "QUIC_PKT_TYPE_INITIAL = 1"
definition QUIC_PKT_TYPE_0RTT :: u32 where "QUIC_PKT_TYPE_0RTT = 2"
definition QUIC_PKT_TYPE_HANDSHAKE :: u32 where "QUIC_PKT_TYPE_HANDSHAKE = 3"
definition QUIC_PKT_TYPE_RETRY :: u32 where "QUIC_PKT_TYPE_RETRY = 4"
definition QUIC_PKT_TYPE_1RTT :: u32 where "QUIC_PKT_TYPE_1RTT = 5"
definition QUIC_PKT_TYPE_VERSION_NEG :: u32 where "QUIC_PKT_TYPE_VERSION_NEG = 6"

lemmas pkt_types =
  QUIC_PKT_TYPE_INITIAL_def QUIC_PKT_TYPE_0RTT_def QUIC_PKT_TYPE_HANDSHAKE_def QUIC_PKT_TYPE_RETRY_def
  QUIC_PKT_TYPE_1RTT_def QUIC_PKT_TYPE_VERSION_NEG_def

definition QUIC_ENC_LEVEL_INITIAL :: u32 where "QUIC_ENC_LEVEL_INITIAL = 0"
definition QUIC_ENC_LEVEL_HANDSHAKE :: u32 where "QUIC_ENC_LEVEL_HANDSHAKE = 1"
definition QUIC_ENC_LEVEL_0RTT :: u32 where "QUIC_ENC_LEVEL_0RTT = 2"
definition QUIC_ENC_LEVEL_1RTT :: u32 where "QUIC_ENC_LEVEL_1RTT = 3"
definition QUIC_ENC_LEVEL_NUM :: u32 where "QUIC_ENC_LEVEL_NUM = 4"

lemmas enc_levels =
  QUIC_ENC_LEVEL_INITIAL_def QUIC_ENC_LEVEL_HANDSHAKE_def QUIC_ENC_LEVEL_0RTT_def QUIC_ENC_LEVEL_1RTT_def
  QUIC_ENC_LEVEL_NUM_def

definition ossl_quic_pkt_type_to_enc_level :: "u32 \<Rightarrow> u32" where
  "ossl_quic_pkt_type_to_enc_level pkt_type =
     (if pkt_type = QUIC_PKT_TYPE_INITIAL then QUIC_ENC_LEVEL_INITIAL
      else if pkt_type = QUIC_PKT_TYPE_HANDSHAKE then QUIC_ENC_LEVEL_HANDSHAKE
      else if pkt_type = QUIC_PKT_TYPE_0RTT then QUIC_ENC_LEVEL_0RTT
      else if pkt_type = QUIC_PKT_TYPE_1RTT then QUIC_ENC_LEVEL_1RTT
      else QUIC_ENC_LEVEL_NUM)"

definition ossl_quic_enc_level_to_pkt_type :: "u32 \<Rightarrow> u32" where
  "ossl_quic_enc_level_to_pkt_type enc_level =
     (if enc_level = QUIC_ENC_LEVEL_INITIAL then QUIC_PKT_TYPE_INITIAL
      else if enc_level = QUIC_ENC_LEVEL_HANDSHAKE then QUIC_PKT_TYPE_HANDSHAKE
      else if enc_level = QUIC_ENC_LEVEL_0RTT then QUIC_PKT_TYPE_0RTT
      else if enc_level = QUIC_ENC_LEVEL_1RTT then QUIC_PKT_TYPE_1RTT
      else 0xffffffff)"

definition ossl_quic_pkt_type_is_encrypted :: "u32 \<Rightarrow> bool" where
  "ossl_quic_pkt_type_is_encrypted pkt_type \<longleftrightarrow> pkt_type \<notin> {QUIC_PKT_TYPE_RETRY, QUIC_PKT_TYPE_VERSION_NEG}"

definition ossl_quic_pkt_type_has_pn :: "u32 \<Rightarrow> bool" where
  "ossl_quic_pkt_type_has_pn pkt_type = ossl_quic_pkt_type_is_encrypted pkt_type"

definition ossl_quic_pkt_type_can_share_dgram :: "u32 \<Rightarrow> bool" where
  "ossl_quic_pkt_type_can_share_dgram pkt_type = ossl_quic_pkt_type_is_encrypted pkt_type"

definition ossl_quic_pkt_type_must_be_last :: "u32 \<Rightarrow> bool" where
  "ossl_quic_pkt_type_must_be_last pkt_type \<longleftrightarrow>
     \<not> ossl_quic_pkt_type_can_share_dgram pkt_type \<or> pkt_type = QUIC_PKT_TYPE_1RTT"

definition ossl_quic_pkt_type_has_version :: "u32 \<Rightarrow> bool" where
  "ossl_quic_pkt_type_has_version pkt_type \<longleftrightarrow>
     pkt_type \<noteq> QUIC_PKT_TYPE_1RTT \<and> pkt_type \<noteq> QUIC_PKT_TYPE_VERSION_NEG"

definition ossl_quic_pkt_type_has_scid :: "u32 \<Rightarrow> bool" where
  "ossl_quic_pkt_type_has_scid pkt_type \<longleftrightarrow> pkt_type \<noteq> QUIC_PKT_TYPE_1RTT"

lemmas pkt_type_tests =
  ossl_quic_pkt_type_is_encrypted_def ossl_quic_pkt_type_has_pn_def ossl_quic_pkt_type_can_share_dgram_def
  ossl_quic_pkt_type_must_be_last_def

definition QUIC_MIN_VALID_PKT_LEN_CRYPTO :: nat where "QUIC_MIN_VALID_PKT_LEN_CRYPTO = 21"
definition QUIC_MIN_VALID_PKT_LEN :: nat where "QUIC_MIN_VALID_PKT_LEN = 7"

lemmas pkt_lens = QUIC_MIN_VALID_PKT_LEN_CRYPTO_def QUIC_MIN_VALID_PKT_LEN_def QUIC_MAX_CONN_ID_LEN_def

section \<open>Header structures\<close>

record pkt_hdr =
  ph_type :: u8
  ph_spin_bit :: bool
  ph_key_phase :: bool
  ph_pn_len :: "4 word"
  ph_partial :: bool
  ph_fixed :: bool
  ph_unused :: "4 word"
  ph_reserved :: "2 word"
  ph_version :: u32
  ph_dst_conn_id :: conn_id
  ph_src_conn_id :: conn_id
  ph_pn :: bytes
  ph_token :: "bytes option"
  ph_token_len :: size_t
  ph_len :: size_t
  ph_data :: "bytes option"

record pkt_hdr_ptrs =
  raw_start :: "nat option"
  raw_sample :: "nat option"
  raw_sample_len :: size_t
  raw_pn :: "nat option"

text \<open>The value of the 8-bit field \<open>type\<close>, promoted.\<close>

definition hdr_type :: "pkt_hdr \<Rightarrow> u32" where
  "hdr_type hdr = ucast (ph_type hdr)"

section \<open>Truncated packet numbers\<close>

type_synonym quic_pn = u64

definition QUIC_PN_INVALID :: quic_pn where "QUIC_PN_INVALID = UINT64_MAX"

definition ossl_quic_wire_determine_pn_len :: "quic_pn \<Rightarrow> quic_pn \<Rightarrow> nat" where
  "ossl_quic_wire_determine_pn_len pn largest_acked =
     (let num_unacked = (if largest_acked = QUIC_PN_INVALID then pn + 1 else pn - largest_acked) in
      if num_unacked \<le> push_bit 7 1 then 1
      else if num_unacked \<le> push_bit 15 1 then 2
      else if num_unacked \<le> push_bit 23 1 then 3
      else 4)"

text \<open>The bytes stored in \<open>enc_pn\<close>, from its start.\<close>

definition ossl_quic_wire_encode_pkt_hdr_pn :: "quic_pn \<Rightarrow> nat \<Rightarrow> bytes option" where
  "ossl_quic_wire_encode_pkt_hdr_pn pn enc_pn_len =
     (if enc_pn_len = 1 then Some [ucast pn]
      else if enc_pn_len = 2 then Some [ucast (drop_bit 8 pn), ucast pn]
      else if enc_pn_len = 3 then Some [ucast (drop_bit 16 pn), ucast (drop_bit 8 pn), ucast pn]
      else if enc_pn_len = 4 then
        Some [ucast (drop_bit 24 pn), ucast (drop_bit 16 pn), ucast (drop_bit 8 pn), ucast pn]
      else None)"

text \<open>The \<open>int64_t\<close> variables of the decoder are integers; \<open>largest_pn + 1\<close> is computed unsigned and then
  converted. The array \<open>enc_pn\<close> has at least \<open>enc_pn_len\<close> bytes.\<close>

definition truncated_pn :: "bytes \<Rightarrow> nat \<Rightarrow> int option" where
  "truncated_pn enc_pn enc_pn_len =
     (let b = (\<lambda>i. ucast (enc_pn ! i) :: quic_pn) in
      if enc_pn_len = 1 then Some (sint (b 0))
      else if enc_pn_len = 2 then Some (sint (push_bit 8 (b 0) OR b 1))
      else if enc_pn_len = 3 then Some (sint (push_bit 16 (b 0) OR push_bit 8 (b 1) OR b 2))
      else if enc_pn_len = 4 then
        Some (sint (push_bit 24 (b 0) OR push_bit 16 (b 1) OR push_bit 8 (b 2) OR b 3))
      else None)"

definition ossl_quic_wire_decode_pkt_hdr_pn :: "bytes \<Rightarrow> nat \<Rightarrow> quic_pn \<Rightarrow> quic_pn option" where
  "ossl_quic_wire_decode_pkt_hdr_pn enc_pn enc_pn_len largest_pn =
     (case truncated_pn enc_pn enc_pn_len of None \<Rightarrow> None
      | Some truncated \<Rightarrow>
        (let expected_pn = sint (largest_pn + 1);
             pn_win = push_bit (enc_pn_len * 8) 1;
             pn_hwin = pn_win div 2;
             pn_mask = pn_win - 1;
             candidate_pn = (expected_pn AND NOT pn_mask) OR truncated
         in
         if candidate_pn \<le> expected_pn - pn_hwin \<and> candidate_pn < push_bit 62 1 - pn_win
         then Some (word_of_int (candidate_pn + pn_win))
         else if candidate_pn > expected_pn + pn_hwin \<and> candidate_pn \<ge> pn_win
         then Some (word_of_int (candidate_pn - pn_win))
         else Some (word_of_int candidate_pn)))"

section \<open>Header protection\<close>

text \<open>A cipher context with its key set: given the initialisation vector of \<open>EVP_CipherInit_ex\<close> (\<open>None\<close> for
  NULL) and the input of \<open>EVP_CipherUpdate\<close>, the bytes written to the output, unless one of the two calls
  fails. The crypto library offers the allocation of a context, the key length of a cipher it can
  fetch, and the context a key gives.\<close>

type_synonym cipher_ctx = "bytes option \<Rightarrow> bytes \<Rightarrow> bytes option"

record evp_lib =
  evp_ctx_new :: bool
  evp_fetch :: "string \<Rightarrow> nat option"
  evp_init :: "string \<Rightarrow> bytes \<Rightarrow> cipher_ctx option"

definition QUIC_HDR_PROT_CIPHER_AES_128 :: u32 where "QUIC_HDR_PROT_CIPHER_AES_128 = 1"
definition QUIC_HDR_PROT_CIPHER_AES_256 :: u32 where "QUIC_HDR_PROT_CIPHER_AES_256 = 2"
definition QUIC_HDR_PROT_CIPHER_CHACHA :: u32 where "QUIC_HDR_PROT_CIPHER_CHACHA = 3"

record hdr_protector =
  hp_cipher_ctx :: "cipher_ctx option"
  hp_cipher :: "string option"
  hp_cipher_id :: u32

definition ossl_quic_hdr_protector_cleanup :: "hdr_protector \<Rightarrow> hdr_protector" where
  "ossl_quic_hdr_protector_cleanup hpr = hpr\<lparr>hp_cipher_ctx := None, hp_cipher := None\<rparr>"

definition ossl_quic_hdr_protector_init ::
    "evp_lib \<Rightarrow> u32 \<Rightarrow> bytes \<Rightarrow> hdr_protector \<Rightarrow> bool \<times> hdr_protector" where
  "ossl_quic_hdr_protector_init evp cipher_id quic_hp_key hpr =
     (let name = (if cipher_id = QUIC_HDR_PROT_CIPHER_AES_128 then Some ''AES-128-ECB''
                  else if cipher_id = QUIC_HDR_PROT_CIPHER_AES_256 then Some ''AES-256-ECB''
                  else if cipher_id = QUIC_HDR_PROT_CIPHER_CHACHA then Some ''ChaCha20''
                  else None)
      in
      case name of None \<Rightarrow> (False, hpr)
      | Some cipher_name \<Rightarrow>
        if \<not> evp_ctx_new evp then (False, hpr\<lparr>hp_cipher_ctx := None\<rparr>)
        else if evp_fetch evp cipher_name \<noteq> Some (length quic_hp_key)
        then (False, ossl_quic_hdr_protector_cleanup hpr)
        else
          (case evp_init evp cipher_name quic_hp_key of
             None \<Rightarrow> (False, ossl_quic_hdr_protector_cleanup hpr)
           | Some ctx \<Rightarrow>
             (True, hpr\<lparr>hp_cipher_ctx := Some ctx, hp_cipher := Some cipher_name, hp_cipher_id := cipher_id\<rparr>)))"

text \<open>The array \<open>mask\<close> holds five bytes; \<open>sample\<close> is the memory the pointer refers to.\<close>

definition hdr_generate_mask :: "hdr_protector \<Rightarrow> bytes \<Rightarrow> size_t \<Rightarrow> bytes option option" where
  "hdr_generate_mask hpr sample sample_len =
     (if hp_cipher_id hpr = QUIC_HDR_PROT_CIPHER_AES_128 \<or> hp_cipher_id hpr = QUIC_HDR_PROT_CIPHER_AES_256 then
        if sample_len < 16 then Some None
        else
          (case hp_cipher_ctx hpr of None \<Rightarrow> None
           | Some ctx \<Rightarrow>
             if length sample < 16 then None
             else
               (case ctx None (take 16 sample) of None \<Rightarrow> Some None
                | Some dst \<Rightarrow> if length dst = 16 then Some (Some (take 5 dst)) else None))
      else if hp_cipher_id hpr = QUIC_HDR_PROT_CIPHER_CHACHA then
        if sample_len < 16 then Some None
        else
          (case hp_cipher_ctx hpr of None \<Rightarrow> None
           | Some ctx \<Rightarrow>
             if length sample < 16 then None
             else
               (case ctx (Some (take 16 sample)) (replicate 5 0) of None \<Rightarrow> Some None
                | Some msk \<Rightarrow> if length msk = 5 then Some (Some msk) else None))
      else None)"

text \<open>\<open>for (i = 0; i < pn_len; ++i) pn_bytes[i] ^= mask[i + 1];\<close>\<close>

definition xor_pn :: "nat \<Rightarrow> bytes \<Rightarrow> bytes \<Rightarrow> bytes option" where
  "xor_pn pn_len msk pn_bytes =
     (if pn_len \<le> length pn_bytes \<and> pn_len + 1 \<le> length msk
      then Some (map2 (XOR) (take pn_len pn_bytes) (take pn_len (tl msk)) @ drop pn_len pn_bytes)
      else None)"

definition first_byte_mask :: "u8 \<Rightarrow> bytes \<Rightarrow> u8" where
  "first_byte_mask first_byte msk = msk ! 0 AND (if first_byte AND 0x80 \<noteq> 0 then 0xf else 0x1f)"

type_synonym protect_fields = "hdr_protector \<Rightarrow> bytes \<Rightarrow> size_t \<Rightarrow> u8 \<Rightarrow> bytes \<Rightarrow> (u8 \<times> bytes) option option"

definition ossl_quic_hdr_protector_decrypt_fields :: protect_fields where
  "ossl_quic_hdr_protector_decrypt_fields hpr sample sample_len first_byte pn_bytes =
     (case hdr_generate_mask hpr sample sample_len of None \<Rightarrow> None
      | Some None \<Rightarrow> Some None
      | Some (Some msk) \<Rightarrow>
        (let first_byte = first_byte XOR first_byte_mask first_byte msk;
             pn_len = unat (first_byte AND 0x3) + 1
         in
         case xor_pn pn_len msk pn_bytes of None \<Rightarrow> None
         | Some pn_bytes \<Rightarrow> Some (Some (first_byte, pn_bytes))))"

definition ossl_quic_hdr_protector_encrypt_fields :: protect_fields where
  "ossl_quic_hdr_protector_encrypt_fields hpr sample sample_len first_byte pn_bytes =
     (case hdr_generate_mask hpr sample sample_len of None \<Rightarrow> None
      | Some None \<Rightarrow> Some None
      | Some (Some msk) \<Rightarrow>
        (let pn_len = unat (first_byte AND 0x3) + 1 in
         case xor_pn pn_len msk pn_bytes of None \<Rightarrow> None
         | Some pn_bytes \<Rightarrow> Some (Some (first_byte XOR first_byte_mask first_byte msk, pn_bytes))))"

text \<open>The two operations on the packet \<open>buf\<close> the pointers point into.\<close>

definition protect_at :: "protect_fields \<Rightarrow> hdr_protector \<Rightarrow> pkt_hdr_ptrs \<Rightarrow> bytes \<Rightarrow> bytes option option" where
  "protect_at f hpr ptrs buf =
     (case (raw_start ptrs, raw_sample ptrs, raw_pn ptrs) of
        (Some start, Some sample, Some pn) \<Rightarrow>
          if start < length buf then
            (case f hpr (drop sample buf) (raw_sample_len ptrs) (buf ! start) (drop pn buf) of
               None \<Rightarrow> None
             | Some None \<Rightarrow> Some None
             | Some (Some (first_byte, pn_bytes)) \<Rightarrow> Some (Some ((take pn buf @ pn_bytes)[start := first_byte])))
          else None
      | _ \<Rightarrow> None)"

definition ossl_quic_hdr_protector_decrypt :: "hdr_protector \<Rightarrow> pkt_hdr_ptrs \<Rightarrow> bytes \<Rightarrow> bytes option option" where
  "ossl_quic_hdr_protector_decrypt = protect_at ossl_quic_hdr_protector_decrypt_fields"

definition ossl_quic_hdr_protector_encrypt :: "hdr_protector \<Rightarrow> pkt_hdr_ptrs \<Rightarrow> bytes \<Rightarrow> bytes option option" where
  "ossl_quic_hdr_protector_encrypt = protect_at ossl_quic_hdr_protector_encrypt_fields"

section \<open>Decoding headers\<close>

text \<open>The position reached in the packet, and the bytes up to its end.\<close>

definition packet_pos :: "nat \<Rightarrow> nat reader" where
  "packet_pos l pkt = (Some (l - PACKET_remaining pkt), pkt)"

definition get_rest :: "bytes reader" where
  "get_rest pkt = data_forward (PACKET_remaining pkt) pkt"

text \<open>A connection ID with its length byte; the rest of the array \<open>id\<close> keeps its value.\<close>

definition decode_conn_id :: "conn_id \<Rightarrow> conn_id reader" where
  "decode_conn_id cid =
     read_then PACKET_get_1 (\<lambda>len.
       if unat len > QUIC_MAX_CONN_ID_LEN then read_fail
       else
         read_then (PACKET_copy_bytes (unat len)) (\<lambda>bs.
           read_return \<lparr>id_len = ucast len, cid_id = set_prefix bs (cid_id cid)\<rparr>))"

text \<open>Skipping the packet number of a partially decoded header, or reading that of a full one.\<close>

definition decode_pn_field :: "bool \<Rightarrow> pkt_hdr \<Rightarrow> pkt_hdr reader" where
  "decode_pn_field partial hdr =
     (if partial then read_then (PACKET_forward 4) (\<lambda>_. read_return hdr)
      else
        read_then (PACKET_copy_bytes (unat (ph_pn_len hdr))) (\<lambda>bs.
          read_return (hdr\<lparr>ph_pn := set_prefix bs (ph_pn hdr)\<rparr>)))"

text \<open>The branches of \<open>ossl_quic_wire_decode_pkt_hdr\<close>, each with the position of the packet number.\<close>

definition decode_short_hdr :: "nat \<Rightarrow> size_t \<Rightarrow> bool \<Rightarrow> u32 \<Rightarrow> pkt_hdr \<Rightarrow> (pkt_hdr \<times> nat option) reader" where
  "decode_short_hdr l short_conn_id_len partial b0 hdr =
     (if unat short_conn_id_len > QUIC_MAX_CONN_ID_LEN then read_fail
      else if b0 AND 0x40 = 0 \<or> l < QUIC_MIN_VALID_PKT_LEN_CRYPTO then read_fail
      else
        (let hdr = hdr\<lparr>ph_type := ucast QUIC_PKT_TYPE_1RTT, ph_fixed := True, ph_spin_bit := b0 AND 0x20 \<noteq> 0\<rparr>;
             hdr = (if partial then hdr\<lparr>ph_key_phase := False, ph_pn_len := 0, ph_reserved := 0\<rparr>
                    else hdr\<lparr>ph_key_phase := b0 AND 0x04 \<noteq> 0, ph_pn_len := ucast ((b0 AND 0x03) + 1),
                             ph_reserved := ucast (drop_bit 3 (b0 AND 0x18))\<rparr>)
         in
         read_then (PACKET_copy_bytes (unat short_conn_id_len)) (\<lambda>bs.
         (let hdr = hdr\<lparr>ph_dst_conn_id := \<lparr>id_len = ucast short_conn_id_len,
                                             cid_id = set_prefix bs (cid_id (ph_dst_conn_id hdr))\<rparr>,
                        ph_pn := replicate 4 0\<rparr>
          in
          read_then (packet_pos l) (\<lambda>pn.
          read_then (decode_pn_field partial hdr) (\<lambda>hdr.
          read_then get_rest (\<lambda>d.
            read_return
              (hdr\<lparr>ph_version := 0, ph_src_conn_id := (ph_src_conn_id hdr)\<lparr>id_len := 0\<rparr>,
                   ph_token := None, ph_token_len := 0, ph_len := of_nat (length d), ph_data := Some d\<rparr>,
               Some pn))))))))"

definition decode_version_neg :: "u32 \<Rightarrow> pkt_hdr \<Rightarrow> (pkt_hdr \<times> nat option) reader" where
  "decode_version_neg b0 hdr pkt =
     (if PACKET_remaining pkt mod 4 \<noteq> 0 then (None, pkt)
      else
        read_then get_rest (\<lambda>d.
          read_return
            (hdr\<lparr>ph_type := ucast QUIC_PKT_TYPE_VERSION_NEG, ph_fixed := b0 AND 0x40 \<noteq> 0, ph_data := Some d,
                 ph_len := of_nat (length d), ph_partial := False, ph_pn_len := 0, ph_spin_bit := False,
                 ph_key_phase := False, ph_token := None, ph_token_len := 0, ph_pn := replicate 4 0\<rparr>,
             None)) pkt)"

definition long_hdr_type :: "u32 \<Rightarrow> u32" where
  "long_hdr_type b0 =
     (let raw_type = drop_bit 4 b0 AND 0x3 in
      if raw_type = 0 then QUIC_PKT_TYPE_INITIAL
      else if raw_type = 1 then QUIC_PKT_TYPE_0RTT
      else if raw_type = 2 then QUIC_PKT_TYPE_HANDSHAKE
      else QUIC_PKT_TYPE_RETRY)"

definition decode_token :: "pkt_hdr \<Rightarrow> pkt_hdr reader" where
  "decode_token hdr =
     (if hdr_type hdr = QUIC_PKT_TYPE_INITIAL then
        read_then PACKET_get_quic_vlint (\<lambda>token_len.
          if token_len > SIZE_MAX then read_fail
          else
            read_then (PACKET_get_bytes (unat token_len)) (\<lambda>token.
              read_return (hdr\<lparr>ph_token := (if token_len = 0 then None else Some token),
                               ph_token_len := token_len\<rparr>)))
      else read_return (hdr\<lparr>ph_token := None, ph_token_len := 0\<rparr>))"

definition decode_retry :: "u32 \<Rightarrow> pkt_hdr \<Rightarrow> (pkt_hdr \<times> nat option) reader" where
  "decode_retry b0 hdr =
     read_then get_rest (\<lambda>d.
       read_return
         (hdr\<lparr>ph_data := Some d, ph_len := of_nat (length d), ph_partial := False, ph_unused := ucast (b0 AND 0x0f),
              ph_pn := replicate 4 0\<rparr>, None))"

text \<open>The sizes are compared as 64-bit integers.\<close>

definition decode_numbered :: "nat \<Rightarrow> bool \<Rightarrow> bool \<Rightarrow> u32 \<Rightarrow> pkt_hdr \<Rightarrow> (pkt_hdr \<times> nat option) reader" where
  "decode_numbered l partial nodata b0 hdr =
     (let hdr = hdr\<lparr>ph_pn_len := (if partial then 0 else ucast ((b0 AND 0x03) + 1)),
                    ph_reserved := (if partial then 0 else ucast (drop_bit 2 (b0 AND 0x0C)))\<rparr>
      in
      read_then PACKET_get_quic_vlint (\<lambda>len.
        if len < 4 then read_fail
        else (\<lambda>pkt.
          if \<not> nodata \<and> unat len > PACKET_remaining pkt then (None, pkt)
          else
            read_then (packet_pos l) (\<lambda>pn.
            read_then (decode_pn_field partial (hdr\<lparr>ph_pn := replicate 4 0\<rparr>)) (\<lambda>hdr.
            (let hdr = hdr\<lparr>ph_len := (if partial then len - 4 else len - ucast (ph_pn_len hdr))\<rparr> in
             if nodata then read_return (hdr\<lparr>ph_data := None\<rparr>, Some pn)
             else
               read_then (data_forward (unat (ph_len hdr))) (\<lambda>d.
                 read_return (hdr\<lparr>ph_data := Some d\<rparr>, Some pn))))) pkt)))"

definition decode_long_hdr :: "nat \<Rightarrow> bool \<Rightarrow> bool \<Rightarrow> u32 \<Rightarrow> pkt_hdr \<Rightarrow> (pkt_hdr \<times> nat option) reader" where
  "decode_long_hdr l partial nodata b0 hdr =
     read_then PACKET_get_net_4 (\<lambda>version.
       if version \<noteq> 0 \<and> b0 AND 0x40 = 0 then read_fail
       else
         read_then (decode_conn_id (ph_dst_conn_id hdr)) (\<lambda>dst.
         read_then (decode_conn_id (ph_src_conn_id hdr)) (\<lambda>src.
         (let hdr = hdr\<lparr>ph_version := ucast version, ph_dst_conn_id := dst, ph_src_conn_id := src\<rparr> in
          if version = 0 then decode_version_neg b0 hdr
          else if version \<noteq> ucast QUIC_VERSION_1 then read_fail
          else if l < QUIC_MIN_VALID_PKT_LEN_CRYPTO then read_fail
          else
            read_then
              (decode_token (hdr\<lparr>ph_type := ucast (long_hdr_type b0), ph_pn_len := 0, ph_fixed := True,
                                 ph_spin_bit := False, ph_key_phase := False\<rparr>)) (\<lambda>hdr.
              if hdr_type hdr = QUIC_PKT_TYPE_RETRY then decode_retry b0 hdr
              else decode_numbered l partial nodata b0 hdr)))))"

definition decoded_ptrs :: "nat \<Rightarrow> nat option \<Rightarrow> pkt_hdr_ptrs" where
  "decoded_ptrs l pn =
     (case pn of
        None \<Rightarrow> \<lparr>raw_start = Some 0, raw_sample = None, raw_sample_len = 0, raw_pn = None\<rparr>
      | Some p \<Rightarrow> \<lparr>raw_start = Some 0, raw_sample = Some (p + 4), raw_sample_len = of_nat l - of_nat (p + 4),
                   raw_pn = Some p\<rparr>)"

text \<open>The structures \<open>hdr\<close> and \<open>ptrs\<close> are filled in when the decoding succeeds.\<close>

definition ossl_quic_wire_decode_pkt_hdr ::
    "size_t \<Rightarrow> bool \<Rightarrow> bool \<Rightarrow> pkt_hdr \<Rightarrow> (pkt_hdr \<times> pkt_hdr_ptrs) reader" where
  "ossl_quic_wire_decode_pkt_hdr short_conn_id_len partial nodata hdr pkt =
     (let l = PACKET_remaining pkt in
      if l < QUIC_MIN_VALID_PKT_LEN then (None, pkt)
      else
        read_then PACKET_get_1 (\<lambda>b0.
        (let hdr = hdr\<lparr>ph_partial := partial, ph_unused := 0, ph_reserved := 0\<rparr> in
         read_then
           (if b0 AND 0x80 = 0 then decode_short_hdr l short_conn_id_len partial b0 hdr
            else decode_long_hdr l partial nodata b0 hdr) (\<lambda>(hdr, pn).
           read_return (hdr, decoded_ptrs l pn)))) pkt)"

definition ossl_quic_wire_get_pkt_hdr_dst_conn_id :: "bytes \<Rightarrow> size_t \<Rightarrow> conn_id \<Rightarrow> conn_id option" where
  "ossl_quic_wire_get_pkt_hdr_dst_conn_id buf short_conn_id_len dst_conn_id =
     (if length buf < QUIC_MIN_VALID_PKT_LEN \<or> unat short_conn_id_len > QUIC_MAX_CONN_ID_LEN then None
      else
        (let b0 = buf ! 0 in
         if b0 AND 0x80 \<noteq> 0 then
           if (buf ! 1 \<noteq> 0 \<or> buf ! 2 \<noteq> 0 \<or> buf ! 3 \<noteq> 0 \<or> buf ! 4 \<noteq> 0) \<and> b0 AND 0x40 = 0 then None
           else
             (let blen = unat (buf ! 5) in
              if blen > QUIC_MAX_CONN_ID_LEN \<or> length buf < QUIC_MIN_VALID_PKT_LEN + blen then None
              else Some \<lparr>id_len = of_nat blen, cid_id = set_prefix (take blen (drop 6 buf)) (cid_id dst_conn_id)\<rparr>)
         else if b0 AND 0x40 = 0 then None
         else if length buf < QUIC_MIN_VALID_PKT_LEN_CRYPTO + unat short_conn_id_len then None
         else Some \<lparr>id_len = ucast short_conn_id_len,
                    cid_id = set_prefix (take (unat short_conn_id_len) (drop 1 buf)) (cid_id dst_conn_id)\<rparr>))"

section \<open>Encoding headers\<close>

definition total_written :: "size_t wop" where
  "total_written pkt = wret (WPACKET_get_total_written pkt) pkt"

text \<open>\<open>WPACKET_memcpy\<close> from the memory a pointer refers to.\<close>

definition memcpy_from :: "bytes option \<Rightarrow> size_t \<Rightarrow> unit wop" where
  "memcpy_from src len =
     (if len = 0 then wret ()
      else
        (case src of None \<Rightarrow> (\<lambda>_. None)
         | Some bs \<Rightarrow> if unat len \<le> length bs then WPACKET_memcpy (take (unat len) bs) else (\<lambda>_. None)))"

definition cid_bytes :: "conn_id \<Rightarrow> bytes" where
  "cid_bytes cid = take (unat (id_len cid)) (cid_id cid)"

definition bad_pn_len :: "pkt_hdr \<Rightarrow> bool" where
  "bad_pn_len hdr \<longleftrightarrow> ph_pn_len hdr < 1 \<or> ph_pn_len hdr > 4"

definition short_first_byte :: "pkt_hdr \<Rightarrow> u8" where
  "short_first_byte hdr =
     push_bit 5 (of_bool (ph_spin_bit hdr)) OR push_bit 2 (of_bool (ph_key_phase hdr)) OR
     (ucast (ph_pn_len hdr) - 1) OR push_bit 3 (ucast (ph_reserved hdr)) OR 0x40"

text \<open>Copies the packet number and returns the number of bytes written before it.\<close>

definition encode_pn_field :: "pkt_hdr \<Rightarrow> size_t wop" where
  "encode_pn_field hdr =
     wbind total_written (\<lambda>off_pn.
     wbind (WPACKET_memcpy (take (unat (ph_pn_len hdr)) (ph_pn hdr))) (\<lambda>_.
       wret off_pn))"

definition encode_short_hdr :: "size_t \<Rightarrow> pkt_hdr \<Rightarrow> size_t wop" where
  "encode_short_hdr short_conn_id_len hdr =
     (if ucast (id_len (ph_dst_conn_id hdr)) \<noteq> short_conn_id_len \<or>
         unat short_conn_id_len > QUIC_MAX_CONN_ID_LEN \<or> bad_pn_len hdr
      then wfail
      else
        wbind (all_ok [WPACKET_put_bytes_n (ucast (short_first_byte hdr)) 1,
          WPACKET_memcpy (take (unat short_conn_id_len) (cid_id (ph_dst_conn_id hdr)))]) (\<lambda>_.
          encode_pn_field hdr))"

definition raw_hdr_type :: "pkt_hdr \<Rightarrow> u8 option" where
  "raw_hdr_type hdr =
     (if hdr_type hdr = QUIC_PKT_TYPE_VERSION_NEG then if ph_version hdr \<noteq> 0 then None else Some 0
      else if hdr_type hdr = QUIC_PKT_TYPE_INITIAL then Some 0
      else if hdr_type hdr = QUIC_PKT_TYPE_0RTT then Some 1
      else if hdr_type hdr = QUIC_PKT_TYPE_HANDSHAKE then Some 2
      else if hdr_type hdr = QUIC_PKT_TYPE_RETRY then Some 3
      else None)"

definition long_first_byte :: "pkt_hdr \<Rightarrow> u8 \<Rightarrow> u8" where
  "long_first_byte hdr raw_type =
     push_bit 4 raw_type OR 0x80 OR
     (if hdr_type hdr \<noteq> QUIC_PKT_TYPE_VERSION_NEG \<or> ph_fixed hdr then 0x40 else 0) OR
     (if ossl_quic_pkt_type_has_pn (hdr_type hdr)
      then (ucast (ph_pn_len hdr) - 1) OR push_bit 2 (ucast (ph_reserved hdr)) else 0) OR
     (if hdr_type hdr = QUIC_PKT_TYPE_RETRY then ucast (ph_unused hdr) else 0)"

definition encode_conn_id :: "conn_id \<Rightarrow> unit wop" where
  "encode_conn_id cid = all_ok [WPACKET_put_bytes_n (ucast (id_len cid)) 1, WPACKET_memcpy (cid_bytes cid)]"

text \<open>The result is \<open>None\<close> for the packets that have no packet number.\<close>

definition encode_long_hdr :: "pkt_hdr \<Rightarrow> size_t option wop" where
  "encode_long_hdr hdr =
     (if unat (id_len (ph_dst_conn_id hdr)) > QUIC_MAX_CONN_ID_LEN \<or>
         unat (id_len (ph_src_conn_id hdr)) > QUIC_MAX_CONN_ID_LEN
      then wfail
      else if ossl_quic_pkt_type_has_pn (hdr_type hdr) \<and> bad_pn_len hdr then wfail
      else
        (case raw_hdr_type hdr of None \<Rightarrow> wfail
         | Some raw_type \<Rightarrow>
           wbind (all_ok [WPACKET_put_bytes_n (ucast (long_first_byte hdr raw_type)) 1,
             WPACKET_put_bytes_n (ucast (ph_version hdr)) 4, encode_conn_id (ph_dst_conn_id hdr),
             encode_conn_id (ph_src_conn_id hdr)]) (\<lambda>_.
             if hdr_type hdr = QUIC_PKT_TYPE_VERSION_NEG \<or> hdr_type hdr = QUIC_PKT_TYPE_RETRY then wret None
             else
               wbind (if hdr_type hdr = QUIC_PKT_TYPE_INITIAL
                      then all_ok [WPACKET_quic_write_vlint (ph_token_len hdr),
                                   memcpy_from (ph_token hdr) (ph_token_len hdr)]
                      else wret ()) (\<lambda>_.
               wbind (WPACKET_quic_write_vlint (ph_len hdr + ucast (ph_pn_len hdr))) (\<lambda>_.
               wbind (encode_pn_field hdr) (\<lambda>off_pn. wret (Some off_pn)))))))"

text \<open>\<open>if (hdr->len > 0 && !WPACKET_reserve_bytes(pkt, hdr->len, NULL)) return 0;\<close>\<close>

definition reserve_payload :: "pkt_hdr \<Rightarrow> unit wop" where
  "reserve_payload hdr =
     (if ph_len hdr > 0 then wbind (WPACKET_reserve_bytes (ph_len hdr)) (\<lambda>_. wret ()) else wret ())"

definition no_ptrs :: pkt_hdr_ptrs where
  "no_ptrs = \<lparr>raw_start = None, raw_sample = None, raw_sample_len = 0, raw_pn = None\<rparr>"

text \<open>The pointers into the buffer; \<open>pos\<close> is the writing position after the header.\<close>

definition encoded_ptrs :: "nat \<Rightarrow> size_t \<Rightarrow> size_t \<Rightarrow> size_t \<Rightarrow> nat \<Rightarrow> pkt_hdr_ptrs" where
  "encoded_ptrs start off_start off_pn len pos =
     (let sample = start + unat (off_pn + 4 - off_start) in
      \<lparr>raw_start = Some start, raw_sample = Some sample, raw_sample_len = of_nat pos + len - of_nat sample,
       raw_pn = Some (start + unat (off_pn - off_start))\<rparr>)"

text \<open>The parameter \<open>want_ptrs\<close> tells whether the caller passes a structure for the pointers; the
  assertion that the buffer is static returns 0 when it fails.\<close>

definition ossl_quic_wire_encode_pkt_hdr :: "size_t \<Rightarrow> pkt_hdr \<Rightarrow> bool \<Rightarrow> pkt_hdr_ptrs wop" where
  "ossl_quic_wire_encode_pkt_hdr short_conn_id_len hdr want_ptrs pkt =
     (let start = WPACKET_get_curr pkt; off_start = WPACKET_get_total_written pkt in
      if want_ptrs \<and> \<not> (case w_buf pkt of StaticBuf _ \<Rightarrow> True | _ \<Rightarrow> False) then wfail pkt
      else if ph_partial hdr \<or>
        hdr_type hdr = QUIC_PKT_TYPE_1RTT \<and> ucast (id_len (ph_dst_conn_id hdr)) \<noteq> short_conn_id_len
      then wfail pkt
      else
        wbind (if hdr_type hdr = QUIC_PKT_TYPE_1RTT
               then wbind (encode_short_hdr short_conn_id_len hdr) (\<lambda>off_pn. wret (Some off_pn))
               else encode_long_hdr hdr) (\<lambda>off.
        wbind (reserve_payload hdr) (\<lambda>_ pkt.
          (case (off, start, WPACKET_get_curr pkt) of
             (Some off_pn, Some start, Some pos) \<Rightarrow>
               wret (if want_ptrs then encoded_ptrs start off_start off_pn (ph_len hdr) pos else no_ptrs) pkt
           | _ \<Rightarrow> wret no_ptrs pkt))) pkt)"

text \<open>The length is computed in a \<open>size_t\<close> and returned as an \<open>int\<close>.\<close>

definition encoded_hdr_len :: "size_t \<Rightarrow> pkt_hdr \<Rightarrow> size_t" where
  "encoded_hdr_len short_conn_id_len hdr =
     (if ph_partial hdr \<or>
         hdr_type hdr = QUIC_PKT_TYPE_1RTT \<and> ucast (id_len (ph_dst_conn_id hdr)) \<noteq> short_conn_id_len
      then 0
      else if hdr_type hdr = QUIC_PKT_TYPE_1RTT then
        if ucast (id_len (ph_dst_conn_id hdr)) \<noteq> short_conn_id_len \<or>
           unat short_conn_id_len > QUIC_MAX_CONN_ID_LEN \<or> bad_pn_len hdr
        then 0 else 1 + short_conn_id_len + ucast (ph_pn_len hdr)
      else if unat (id_len (ph_dst_conn_id hdr)) > QUIC_MAX_CONN_ID_LEN \<or>
        unat (id_len (ph_src_conn_id hdr)) > QUIC_MAX_CONN_ID_LEN
      then 0
      else
        (let len = 1 + 4 + 1 + ucast (id_len (ph_dst_conn_id hdr)) + 1 + ucast (id_len (ph_src_conn_id hdr)) in
         if ossl_quic_pkt_type_has_pn (hdr_type hdr) \<and> bad_pn_len hdr then 0
         else
           (let len = (if ossl_quic_pkt_type_has_pn (hdr_type hdr) then len + ucast (ph_pn_len hdr) else len);
                enclen = ossl_quic_vlint_encode_len (ph_token_len hdr)
            in
            if hdr_type hdr = QUIC_PKT_TYPE_INITIAL \<and> enclen = 0 then 0
            else
              (let len = (if hdr_type hdr = QUIC_PKT_TYPE_INITIAL then len + (enclen + ph_token_len hdr) else len);
                   enclen = ossl_quic_vlint_encode_len (ph_len hdr + ucast (ph_pn_len hdr))
               in
               if \<not> ossl_quic_pkt_type_must_be_last (hdr_type hdr) then
                 if enclen = 0 then 0 else len + enclen
               else len))))"

definition ossl_quic_wire_get_encoded_pkt_hdr_len :: "size_t \<Rightarrow> pkt_hdr \<Rightarrow> int" where
  "ossl_quic_wire_get_encoded_pkt_hdr_len short_conn_id_len hdr =
     sint (ucast (encoded_hdr_len short_conn_id_len hdr) :: u32)"

section \<open>The integrity tag of Retry packets\<close>

definition QUIC_RETRY_INTEGRITY_TAG_LEN :: nat where "QUIC_RETRY_INTEGRITY_TAG_LEN = 16"

definition retry_integrity_key :: bytes where
  "retry_integrity_key =
     [0xbe, 0x0c, 0x69, 0x0b, 0x9f, 0x66, 0x57, 0x5a, 0x1d, 0x76, 0x6b, 0x54, 0xe3, 0x68, 0xc8, 0x4e]"

definition retry_integrity_nonce :: bytes where
  "retry_integrity_nonce = [0x46, 0x15, 0x99, 0xd3, 0x5d, 0x63, 0x2b, 0xf2, 0x23, 0x98, 0x25, 0xbb]"

text \<open>\<open>aead key nonce aad\<close> is the tag of AES-128-GCM without plaintext, unless a call of the crypto library
  fails. \<open>pkt\<close> is the uninitialised structure \<open>wpkt\<close> on the stack.\<close>

type_synonym aead_tag = "bytes \<Rightarrow> bytes \<Rightarrow> bytes \<Rightarrow> bytes option"

definition retry_pseudo_hdr :: "pkt_hdr \<Rightarrow> conn_id \<Rightarrow> pkt_hdr_ptrs wop" where
  "retry_pseudo_hdr hdr client_initial_dcid =
     wbind (all_ok [WPACKET_init_static_len (replicate 128 0) 0, encode_conn_id client_initial_dcid]) (\<lambda>_.
       ossl_quic_wire_encode_pkt_hdr (ucast (id_len (ph_dst_conn_id hdr))) (hdr\<lparr>ph_len := 0\<rparr>) False)"

definition ossl_quic_calculate_retry_integrity_tag ::
    "aead_tag \<Rightarrow> wpacket \<Rightarrow> pkt_hdr \<Rightarrow> conn_id \<Rightarrow> bytes option option" where
  "ossl_quic_calculate_retry_integrity_tag aead pkt hdr client_initial_dcid =
     (if hdr_type hdr \<noteq> QUIC_PKT_TYPE_RETRY \<or> ph_version hdr = 0 \<or>
         unat (ph_len hdr) < QUIC_RETRY_INTEGRITY_TAG_LEN \<or> ph_data hdr = None \<or>
         unat (id_len client_initial_dcid) > QUIC_MAX_CONN_ID_LEN
      then Some None
      else
        (case retry_pseudo_hdr hdr client_initial_dcid pkt of
           None \<Rightarrow> None
         | Some (None, _) \<Rightarrow> Some None
         | Some (Some _, pkt) \<Rightarrow>
           (let buf = (case w_buf pkt of StaticBuf d \<Rightarrow> d | _ \<Rightarrow> []);
                hdr_enc_len = unat (WPACKET_get_total_written pkt);
                body = take (unat (ph_len hdr) - QUIC_RETRY_INTEGRITY_TAG_LEN) (the (ph_data hdr))
            in
            if unat (ph_len hdr) > length (the (ph_data hdr)) then None
            else Some (aead retry_integrity_key retry_integrity_nonce (take hdr_enc_len buf @ body)))))"

definition ossl_quic_validate_retry_integrity_tag ::
    "aead_tag \<Rightarrow> wpacket \<Rightarrow> pkt_hdr \<Rightarrow> conn_id \<Rightarrow> bool option" where
  "ossl_quic_validate_retry_integrity_tag aead pkt hdr client_initial_dcid =
     (if unat (ph_len hdr) < QUIC_RETRY_INTEGRITY_TAG_LEN then Some False
      else
        (case ossl_quic_calculate_retry_integrity_tag aead pkt hdr client_initial_dcid of
           None \<Rightarrow> None
         | Some None \<Rightarrow> Some False
         | Some (Some expected_tag) \<Rightarrow>
           Some (expected_tag =
             take QUIC_RETRY_INTEGRITY_TAG_LEN
               (drop (unat (ph_len hdr) - QUIC_RETRY_INTEGRITY_TAG_LEN) (the (ph_data hdr))))))"

end
