(* ===== verification/PktNumber.thy ===== *)
theory PktNumber
  imports WirePkt
begin

text \<open>
  Truncated packet numbers: a number sent in the length chosen from what the peer has acknowledged is
  recovered by a receiver whose largest packet number is not too far away.
\<close>

lemma sint_small: "uint (v :: u64) < 2 ^ 63 \<Longrightarrow> sint v = uint v"
  unfolding sint_uint by (rule signed_take_bit_int_eq_self) (simp_all add: order_trans [OF _ uint_ge_0])

lemma encode_pn_bytes: "n \<in> {1..4} \<Longrightarrow> ossl_quic_wire_encode_pkt_hdr_pn pn n = Some (be_bytes n pn)"
proof -
  assume "n \<in> {1..4}"
  then have "n = 1 \<or> n = 2 \<or> n = 3 \<or> n = 4" by auto
  then show ?thesis by (auto simp: ossl_quic_wire_encode_pkt_hdr_pn_def eval_nat_numeral)
qed

lemma truncated_pn_value:
  assumes "n \<in> {1..4}" "length bs = n"
  shows "truncated_pn bs n = Some (sint (be_value bs))"
proof -
  have "n = 1 \<or> n = 2 \<or> n = 3 \<or> n = 4" using assms(1) by auto
  then show ?thesis
    using assms(2) by (auto simp: truncated_pn_def be_value_upper length_Suc_conv eval_nat_numeral)
qed

lemma truncated_pn_bytes:
  assumes n: "n \<in> {1..4}"
  shows "truncated_pn (be_bytes n pn) n = Some (uint pn mod 2 ^ (8 * n))"
proof -
  have small: "uint pn mod 2 ^ (8 * n) < 2 ^ 32"
  proof -
    have "uint pn mod 2 ^ (8 * n) < 2 ^ (8 * n)" by simp
    also have "\<dots> \<le> (2 ^ 32 :: int)" using n by (intro power_increasing) auto
    finally show ?thesis .
  qed
  have "uint (take_bit (8 * n) pn) = uint pn mod 2 ^ (8 * n)"
    by (simp only: unsigned_take_bit_eq) (simp only: take_bit_eq_mod)
  then have "sint (take_bit (8 * n) pn) = uint pn mod 2 ^ (8 * n)"
    using small by (simp add: sint_small)
  then show ?thesis
    using truncated_pn_value [OF n length_be_bytes] by (simp add: be_value_be_bytes)
qed

text \<open>Clearing the low bits of the expected number and inserting the truncated one.\<close>

lemma insert_low_bits:
  fixes e t :: int
  assumes "0 \<le> t" "t < 2 ^ k"
  shows "(e AND NOT (2 ^ k - 1)) OR t = e - e mod 2 ^ k + t"
proof -
  have t: "take_bit k t = t" using assms by (simp add: take_bit_int_eq_self)
  have e: "e AND NOT (2 ^ k - 1) = push_bit k (drop_bit k e)"
    by (rule bit_eqI) (auto simp: bit_simps simp flip: mask_eq_exp_minus_1)
  have "push_bit k (drop_bit k e) OR take_bit k t = push_bit k (drop_bit k e) + take_bit k t"
    by (subst disjunctive_add) (auto simp: bit_simps)
  then show ?thesis
    by (simp add: e t push_bit_eq_mult drop_bit_eq_div minus_mod_eq_div_mult)
qed

text \<open>The candidate is at most one window away from the number.\<close>

lemma window_recovers:
  fixes e p w h :: int
  assumes w: "w = 2 * h" "0 < h" and p: "0 \<le> p" "p < m" and near: "e - h < p" "p \<le> e + h"
  defines "c \<equiv> e - e mod w + p mod w"
  shows "(if c \<le> e - h \<and> c < m - w then c + w else if c > e + h \<and> c \<ge> w then c - w else c) = p"
proof -
  have c: "c = p + w * (e div w - p div w)"
    unfolding c_def by (simp add: minus_mod_eq_mult_div algebra_simps)
  have "e div w \<le> (p + w) div w" "p div w \<le> (e + w) div w" using w near by (auto intro!: zdiv_mono1)
  moreover have "w \<noteq> 0" using w by simp
  ultimately have "e div w - p div w \<in> {-1, 0, 1}"
    by (auto simp only: div_add_self2 insert_iff empty_iff)
  then have "c \<in> {p - w, p, p + w}" unfolding c by (elim insertE) simp_all
  then consider "c = p - w" | "c = p" | "c = p + w" by auto
  then show ?thesis using w p near by cases auto
qed

lemma uint_less_add: "unat (x :: u64) < unat (y :: u64) + 2 ^ k \<Longrightarrow> uint x < uint y + 2 ^ k"
proof -
  assume "unat x < unat y + 2 ^ k"
  then have "int (unat x) < int (unat y + 2 ^ k)" by (simp only: of_nat_less_iff)
  then show ?thesis by simp
qed

lemma decode_pn_recovers:
  assumes n: "n \<in> {1..4}" and pn: "unat pn < 2 ^ 62" and largest: "unat (largest + 1) \<le> 2 ^ 62"
    and near: "unat (largest + 1) < unat pn + 2 ^ (8 * n - 1)" "unat pn < unat (largest + 1) + 2 ^ (8 * n - 1)"
  shows "ossl_quic_wire_decode_pkt_hdr_pn (be_bytes n pn) n largest = Some pn"
proof -
  define e where "e = uint (largest + 1)"
  define h where "h = (2 ^ (8 * n - 1) :: int)"
  have e: "sint (largest + 1) = e"
    using uint_less_add [of "largest + 1" 0 63] largest by (simp add: e_def sint_small)
  have w: "2 ^ (8 * n) = 2 * h" using n by (simp add: h_def flip: power_Suc)
  have hw: "2 * h div 2 = h" by simp
  have t: "0 \<le> uint pn mod (2 * h)" "uint pn mod (2 * h) < 2 ^ (8 * n)"
    unfolding w by (simp_all add: h_def)
  define c where "c = e - e mod (2 * h) + uint pn mod (2 * h)"
  have c: "(e AND NOT (2 * h - 1)) OR (uint pn mod (2 * h)) = c"
    using insert_low_bits [OF t, of e] unfolding w c_def .
  have sel: "(if x then Some (f u) else if y then Some (f v) else Some (f z)) =
      Some (f (if x then u else if y then v else z))" for f :: "int \<Rightarrow> u64" and x y u v z
    by simp
  have "(if c \<le> e - h \<and> c < 2 ^ 62 - 2 * h then c + 2 * h else if c > e + h \<and> c \<ge> 2 * h then c - 2 * h else c) = uint pn"
    unfolding c_def using near [THEN uint_less_add] uint_less_add [of pn 0 62] pn
    by (intro window_recovers) (simp_all add: h_def e_def)
  then have "ossl_quic_wire_decode_pkt_hdr_pn (be_bytes n pn) n largest = Some (word_of_int (uint pn))"
    unfolding ossl_quic_wire_decode_pkt_hdr_pn_def truncated_pn_bytes [OF n] Let_def e option.case push_bit_eq_mult
      mult_1 mult.commute [of n 8] w hw c sel by (simp only:)
  then show ?thesis by simp
qed

text \<open>The length is enough for the numbers the peer may not have seen.\<close>

lemma determine_pn_len_bounds: "ossl_quic_wire_determine_pn_len pn acked \<in> {1..4}"
  by (simp add: ossl_quic_wire_determine_pn_len_def Let_def)

lemma determine_pn_len_enough:
  assumes "unat (acked + 1) \<le> unat pn" "unat pn < unat (acked + 1) + 2 ^ 31"
  shows "unat pn < unat (acked + 1) + 2 ^ (8 * ossl_quic_wire_determine_pn_len pn acked - 1)"
proof -
  have "unat (pn - acked) = unat pn + 1 - unat (acked + 1)"
  proof -
    have sub: "unat (pn - (acked + 1)) = unat pn - unat (acked + 1)"
      using assms(1) by (intro unat_sub_u64) (simp add: u64_le_nat)
    have "unat (pn - (acked + 1) + 1) = unat (pn - (acked + 1)) + unat (1 :: u64)"
      using assms sub by (intro unat_add_u64) simp
    then show ?thesis using assms(1) sub by simp
  qed
  moreover have "(if acked = QUIC_PN_INVALID then pn + 1 else pn - acked) = pn - acked"
    by (simp add: QUIC_PN_INVALID_def)
  ultimately show ?thesis
    using assms by (simp add: ossl_quic_wire_determine_pn_len_def Let_def u64_le_nat) linarith
qed

section \<open>Property\<close>

text \<open>C37. Packet numbers survive truncation. A sender cuts a packet number to the length computed from
  the largest number the peer has acknowledged (or from the fact that there is none); the receiver,
  whose own largest number is at least the acknowledged one, reconstructs the full number from
  these bytes. This holds for every number up to the protocol's limit as long as the
  unacknowledged numbers span at most \<open>2 ^ 31\<close> and the packet is not overtaken by half a window or
  more.\<close>

theorem pn_roundtrip:
  assumes "unat pn < 2 ^ 62" "unat (largest + 1) \<le> 2 ^ 62"
    and "unat (acked + 1) \<le> unat pn" "unat pn < unat (acked + 1) + 2 ^ 31" "unat (acked + 1) \<le> unat (largest + 1)"
    and "unat (largest + 1) < unat pn + 2 ^ (8 * ossl_quic_wire_determine_pn_len pn acked - 1)"
  shows "\<exists>bs. ossl_quic_wire_encode_pkt_hdr_pn pn (ossl_quic_wire_determine_pn_len pn acked) = Some bs \<and>
    length bs = ossl_quic_wire_determine_pn_len pn acked \<and>
    ossl_quic_wire_decode_pkt_hdr_pn bs (ossl_quic_wire_determine_pn_len pn acked) largest = Some pn"
proof -
  let ?n = "ossl_quic_wire_determine_pn_len pn acked"
  have "ossl_quic_wire_decode_pkt_hdr_pn (be_bytes ?n pn) ?n largest = Some pn"
    using assms determine_pn_len_bounds [of pn acked] determine_pn_len_enough [OF assms(3,4)]
    by (intro decode_pn_recovers) simp_all
  then show ?thesis using encode_pn_bytes [OF determine_pn_len_bounds, of pn pn acked] by simp
qed

theorem pn_roundtrip_witness:
  "\<exists>bs. ossl_quic_wire_encode_pkt_hdr_pn 0xa82f9b32 (ossl_quic_wire_determine_pn_len 0xa82f9b32 0xa82f30ea) = Some bs \<and>
    length bs = 2 \<and> ossl_quic_wire_decode_pkt_hdr_pn bs 2 0xa82f30eb = Some 0xa82f9b32"
proof -
  have n: "ossl_quic_wire_determine_pn_len 0xa82f9b32 0xa82f30ea = 2"
    by (simp add: ossl_quic_wire_determine_pn_len_def QUIC_PN_INVALID_def)
  show ?thesis
    using pn_roundtrip [of "0xa82f9b32" "0xa82f30eb" "0xa82f30ea"] unfolding n by simp
qed

end
