(* ===== verification/PktCodec.thy ===== *)
theory PktCodec
  imports PktNumber
begin

text \<open>
  The wire format of QUIC packets: what a packet is, independently of the header structure, the bytes
  it is on the wire, and that the encoder writes these bytes and the decoder reads them back.
\<close>

section \<open>Packets\<close>

datatype long_kind = KInitial bytes | KZeroRtt | KHandshake

datatype wire_pkt =
    ShortPkt bool bool "2 word" bytes bytes bytes
  | NumberedPkt long_kind "2 word" bytes bytes bytes bytes
  | VersionNegPkt bool bytes bytes bytes
  | RetryPkt "4 word" bytes bytes bytes

fun kind_bits :: "long_kind \<Rightarrow> u8" where
  "kind_bits (KInitial _) = 0"
| "kind_bits KZeroRtt = 1"
| "kind_bits KHandshake = 2"

fun kind_type :: "long_kind \<Rightarrow> u32" where
  "kind_type (KInitial _) = QUIC_PKT_TYPE_INITIAL"
| "kind_type KZeroRtt = QUIC_PKT_TYPE_0RTT"
| "kind_type KHandshake = QUIC_PKT_TYPE_HANDSHAKE"

fun pkt_payload :: "wire_pkt \<Rightarrow> bytes" where
  "pkt_payload (ShortPkt _ _ _ _ _ payload) = payload"
| "pkt_payload (NumberedPkt _ _ _ _ _ payload) = payload"
| "pkt_payload (VersionNegPkt _ _ _ payload) = payload"
| "pkt_payload (RetryPkt _ _ _ payload) = payload"

fun pkt_pn :: "wire_pkt \<Rightarrow> bytes" where
  "pkt_pn (ShortPkt _ _ _ _ pn _) = pn"
| "pkt_pn (NumberedPkt _ _ _ _ pn _) = pn"
| "pkt_pn _ = []"

text \<open>The first byte, and the bytes between it and the packet number.\<close>

definition short_byte :: "bool \<Rightarrow> bool \<Rightarrow> 2 word \<Rightarrow> nat \<Rightarrow> u8" where
  "short_byte spin key_phase reserved n =
     0x40 OR push_bit 5 (of_bool spin) OR push_bit 3 (ucast reserved) OR push_bit 2 (of_bool key_phase) OR of_nat (n - 1)"

definition long_byte :: "u8 \<Rightarrow> 2 word \<Rightarrow> nat \<Rightarrow> u8" where
  "long_byte kind reserved n = 0xC0 OR push_bit 4 kind OR push_bit 2 (ucast reserved) OR of_nat (n - 1)"

fun pkt_first :: "wire_pkt \<Rightarrow> u8" where
  "pkt_first (ShortPkt spin key_phase reserved _ pn _) = short_byte spin key_phase reserved (length pn)"
| "pkt_first (NumberedPkt kind reserved _ _ pn _) = long_byte (kind_bits kind) reserved (length pn)"
| "pkt_first (VersionNegPkt fixed _ _ _) = 0x80 OR push_bit 6 (of_bool fixed)"
| "pkt_first (RetryPkt unused _ _ _) = 0xF0 OR ucast unused"

definition cid_field :: "bytes \<Rightarrow> bytes" where
  "cid_field cid = of_nat (length cid) # cid"

fun token_field :: "long_kind \<Rightarrow> bytes" where
  "token_field (KInitial token) = ossl_quic_vlint_encode (of_nat (length token)) @ token"
| "token_field _ = []"

fun pkt_mid :: "wire_pkt \<Rightarrow> bytes" where
  "pkt_mid (ShortPkt _ _ _ dcid _ _) = dcid"
| "pkt_mid (NumberedPkt kind _ dcid scid pn payload) =
     [0, 0, 0, 1] @ cid_field dcid @ cid_field scid @ token_field kind @
     ossl_quic_vlint_encode (of_nat (length pn + length payload))"
| "pkt_mid (VersionNegPkt _ dcid scid _) = [0, 0, 0, 0] @ cid_field dcid @ cid_field scid"
| "pkt_mid (RetryPkt _ dcid scid _) = [0, 0, 0, 1] @ cid_field dcid @ cid_field scid"

definition pkt_hdr_bytes :: "wire_pkt \<Rightarrow> bytes" where
  "pkt_hdr_bytes p = pkt_first p # pkt_mid p @ pkt_pn p"

definition pkt_bytes :: "wire_pkt \<Rightarrow> bytes" where
  "pkt_bytes p = pkt_hdr_bytes p @ pkt_payload p"

text \<open>The packets an endpoint whose connection IDs have \<open>short_len\<close> bytes can exchange.\<close>

fun pkt_fields_ok :: "nat \<Rightarrow> wire_pkt \<Rightarrow> bool" where
  "pkt_fields_ok short_len (ShortPkt _ _ _ dcid pn payload) \<longleftrightarrow>
     length dcid = short_len \<and> short_len \<le> QUIC_MAX_CONN_ID_LEN \<and> length pn \<in> {1..4}"
| "pkt_fields_ok short_len (NumberedPkt kind _ dcid scid pn payload) \<longleftrightarrow>
     length dcid \<le> QUIC_MAX_CONN_ID_LEN \<and> length scid \<le> QUIC_MAX_CONN_ID_LEN \<and> length pn \<in> {1..4} \<and>
     4 \<le> length pn + length payload \<and> length pn + length payload < 2 ^ 62 \<and>
     (case kind of KInitial token \<Rightarrow> length token < 2 ^ 62 | _ \<Rightarrow> True)"
| "pkt_fields_ok short_len (VersionNegPkt _ dcid scid payload) \<longleftrightarrow>
     length dcid \<le> QUIC_MAX_CONN_ID_LEN \<and> length scid \<le> QUIC_MAX_CONN_ID_LEN \<and> length payload mod 4 = 0"
| "pkt_fields_ok short_len (RetryPkt _ dcid scid payload) \<longleftrightarrow>
     length dcid \<le> QUIC_MAX_CONN_ID_LEN \<and> length scid \<le> QUIC_MAX_CONN_ID_LEN"

fun min_pkt_len :: "wire_pkt \<Rightarrow> nat" where
  "min_pkt_len (VersionNegPkt _ _ _ _) = QUIC_MIN_VALID_PKT_LEN"
| "min_pkt_len _ = QUIC_MIN_VALID_PKT_LEN_CRYPTO"

definition pkt_ok :: "nat \<Rightarrow> wire_pkt \<Rightarrow> bool" where
  "pkt_ok short_len p \<longleftrightarrow> pkt_fields_ok short_len p \<and> length (pkt_bytes p) < 2 ^ 62 \<and>
     min_pkt_len p \<le> length (pkt_bytes p)"

text \<open>The packet a header and a payload describe.\<close>

definition kind_of :: "pkt_hdr \<Rightarrow> long_kind" where
  "kind_of hdr =
     (if hdr_type hdr = QUIC_PKT_TYPE_INITIAL
      then KInitial (case ph_token hdr of None \<Rightarrow> [] | Some token \<Rightarrow> take (unat (ph_token_len hdr)) token)
      else if hdr_type hdr = QUIC_PKT_TYPE_0RTT then KZeroRtt else KHandshake)"

definition pkt_of_hdr :: "pkt_hdr \<Rightarrow> bytes \<Rightarrow> wire_pkt" where
  "pkt_of_hdr hdr payload =
     (let dcid = cid_bytes (ph_dst_conn_id hdr); scid = cid_bytes (ph_src_conn_id hdr);
          pn = take (unat (ph_pn_len hdr)) (ph_pn hdr)
      in
      if hdr_type hdr = QUIC_PKT_TYPE_1RTT
      then ShortPkt (ph_spin_bit hdr) (ph_key_phase hdr) (ph_reserved hdr) dcid pn payload
      else if hdr_type hdr = QUIC_PKT_TYPE_VERSION_NEG then VersionNegPkt (ph_fixed hdr) dcid scid payload
      else if hdr_type hdr = QUIC_PKT_TYPE_RETRY then RetryPkt (ph_unused hdr) dcid scid payload
      else NumberedPkt (kind_of hdr) (ph_reserved hdr) dcid scid pn payload)"

section \<open>The first byte\<close>

lemma word2_cases: "(r :: 2 word) = 0 \<or> r = 1 \<or> r = 2 \<or> r = 3"
proof -
  have "unat r < 4" using unsigned_less [of r, where 'a = nat] by simp
  then have "unat r = 0 \<or> unat r = 1 \<or> unat r = 2 \<or> unat r = 3" by linarith
  then show ?thesis by (simp add: word_unat_eq_iff)
qed

text \<open>Header protection changes the low five bits of a short header's first byte and the low four bits of
  a long one; the decoder needs the others to tell packets apart.\<close>

definition same_form :: "wire_pkt \<Rightarrow> u8 \<Rightarrow> bool" where
  "same_form p b \<longleftrightarrow>
     (case p of ShortPkt _ _ _ _ _ _ \<Rightarrow> drop_bit 5 b = drop_bit 5 (pkt_first p)
      | NumberedPkt _ _ _ _ _ _ \<Rightarrow> drop_bit 4 b = drop_bit 4 (pkt_first p)
      | _ \<Rightarrow> b = pkt_first p)"

lemma drop_bit_masked: "drop_bit n (m AND (mask n)) = (0 :: 'a :: len word)"
  by (rule bit_word_eqI) (auto simp: bit_simps)

lemma pn_len_cases:
  assumes "n \<in> {1..4 :: nat}"
  obtains "n = 1" | "n = 2" | "n = 3" | "n = 4"
proof -
  have "n = 1 \<or> n = 2 \<or> n = 3 \<or> n = 4" using assms by auto
  then show thesis using that by blast
qed

lemma kind_bits_cases: obtains "kind_bits k = 0" | "kind_bits k = 1" | "kind_bits k = 2"
  by (cases k) simp_all

lemma short_byte_fields:
  assumes "n \<in> {1..4}"
  shows "drop_bit 5 (short_byte spin kp r n) = 2 OR of_bool spin" "short_byte spin kp r n AND 4 = 4 * of_bool kp"
    "drop_bit 3 (short_byte spin kp r n AND 0x18) = ucast r" "short_byte spin kp r n AND 3 = of_nat (n - 1)"
  using word2_cases [of r] unfolding short_byte_def
  by (cases rule: pn_len_cases [OF assms]; cases spin; cases kp; auto)+

lemma long_byte_fields:
  assumes "n \<in> {1..4}" "k = kind_bits kind"
  shows "drop_bit 4 (long_byte k r n) = 12 OR k" "drop_bit 2 (long_byte k r n AND 0xC) = ucast r"
    "long_byte k r n AND 3 = of_nat (n - 1)"
  unfolding assms(2) long_byte_def using word2_cases [of r]
  by (cases rule: pn_len_cases [OF assms(1)]; cases rule: kind_bits_cases [of kind]; auto)+

section \<open>Decoding\<close>

lemma and_top_bits: "(b :: u8) AND push_bit n k = push_bit n (drop_bit n b AND k)"
  by (rule bit_word_eqI) (auto simp: bit_simps)

lemma first_byte_u32:
  fixes b :: u8
  shows "(ucast b :: u32) AND 0x80 = ucast (b AND 0x80)" "(ucast b :: u32) AND 0x40 = ucast (b AND 0x40)"
    "(ucast b :: u32) AND 0x20 = ucast (b AND 0x20)" "(ucast b :: u32) AND 4 = ucast (b AND 4)"
    "(ucast b :: u32) AND 3 = ucast (b AND 3)" "(ucast b :: u32) AND 0x18 = ucast (b AND 0x18)"
    "(ucast b :: u32) AND 0xC = ucast (b AND 0xC)" "(ucast b :: u32) AND 0xF = ucast (b AND 0xF)"
    "(ucast b :: u32) AND 0x30 = ucast (b AND 0x30)"
  by (simp_all add: unsigned_and_eq)

lemma ucast_u32_0 [simp]: "(ucast (b :: u8) :: u32) = 0 \<longleftrightarrow> b = 0"
  by (metis byte_u32(2) unsigned_0)

lemma ucast_u32_small: "(ucast (ucast (b :: u8) :: u32) :: 4 word) = ucast b" "(ucast (ucast (b :: u8) :: u32) :: 2 word) = ucast b"
  by (rule bit_word_eqI; auto simp: bit_simps)+

lemma drop_bit_ucast_u32: "drop_bit n (ucast (b :: u8) :: u32) = ucast (drop_bit n b)"
  by (rule bit_word_eqI) (auto simp: bit_simps dest: bit_imp_le_length)

lemma short_form_tests:
  assumes "same_form (ShortPkt spin kp r dcid pn payload) b" "length pn \<in> {1..4}"
  shows "(ucast b :: u32) AND 0x80 = 0" "(ucast b :: u32) AND 0x40 \<noteq> 0" "(ucast b :: u32) AND 0x20 \<noteq> 0 \<longleftrightarrow> spin"
proof -
  have "drop_bit 5 b = 2 OR of_bool spin" using assms by (simp add: same_form_def short_byte_fields)
  then show "(ucast b :: u32) AND 0x80 = 0" "(ucast b :: u32) AND 0x40 \<noteq> 0" "(ucast b :: u32) AND 0x20 \<noteq> 0 \<longleftrightarrow> spin"
    unfolding first_byte_u32 using and_top_bits [of b 5 4] and_top_bits [of b 5 2] and_top_bits [of b 5 1]
    by (cases spin; simp)+
qed

lemma long_form_tests:
  assumes "same_form (NumberedPkt kind r dcid scid pn payload) b" "length pn \<in> {1..4}"
  shows "(ucast b :: u32) AND 0x80 \<noteq> 0" "(ucast b :: u32) AND 0x40 \<noteq> 0" "long_hdr_type (ucast b) = kind_type kind"
proof -
  have top: "drop_bit 4 b = 12 OR kind_bits kind" using assms by (simp add: same_form_def long_byte_fields [OF _ refl])
  then show "(ucast b :: u32) AND 0x80 \<noteq> 0" "(ucast b :: u32) AND 0x40 \<noteq> 0"
    unfolding first_byte_u32 using and_top_bits [of b 4 8] and_top_bits [of b 4 4]
    by (cases kind; simp)+
  show "long_hdr_type (ucast b) = kind_type kind"
    unfolding long_hdr_type_def Let_def drop_bit_ucast_u32 using top by (cases kind) simp_all
qed

lemma get_rest_all [simp]: "get_rest p = (Some p, [])"
  using data_forward_append [of "length p" p "[]"] by (simp add: get_rest_def PACKET_remaining_def)

lemma forward_skip: "n \<le> length p \<Longrightarrow> PACKET_forward n p = (Some (), drop n p)"
  by (simp add: PACKET_forward_def PACKET_remaining_def packet_forward_def)

lemma take_set_prefix [simp]: "take (length bs) (set_prefix bs old) = bs"
  by (simp add: set_prefix_def)

lemma unat_small_u8: "n \<le> QUIC_MAX_CONN_ID_LEN \<Longrightarrow> unat (of_nat n :: u8) = n"
  by (simp add: QUIC_MAX_CONN_ID_LEN_def unat_of_nat)

lemma decode_cid_field [simp]:
  assumes "length cid \<le> QUIC_MAX_CONN_ID_LEN"
  shows "decode_conn_id c (cid_field cid @ r) =
    (Some \<lparr>id_len = of_nat (length cid), cid_id = set_prefix cid (cid_id c)\<rparr>, r)"
proof -
  have "unat (ucast (of_nat (length cid) :: u8) :: u32) = length cid"
    unfolding byte_u32 using assms by (rule unat_small_u8)
  then show ?thesis
    using assms by (simp add: decode_conn_id_def cid_field_def read_then_simps read_return_def byte_u32)
qed

lemma cid_bytes_decoded: "length cid \<le> QUIC_MAX_CONN_ID_LEN \<Longrightarrow>
    cid_bytes \<lparr>id_len = of_nat (length cid), cid_id = set_prefix cid old\<rparr> = cid"
  by (simp add: cid_bytes_def unat_small_u8)

lemma decode_pn_partial: "4 \<le> length p \<Longrightarrow> decode_pn_field True hdr p = (Some hdr, drop 4 p)"
  by (simp add: decode_pn_field_def read_then_simps forward_skip read_return_def)

lemma decode_pn_full: "unat (ph_pn_len hdr) = length pn \<Longrightarrow>
    decode_pn_field False hdr (pn @ r) = (Some (hdr\<lparr>ph_pn := set_prefix pn (ph_pn hdr)\<rparr>), r)"
  by (simp add: decode_pn_field_def read_then_simps read_return_def)

lemma get_version [simp]: "PACKET_get_net_4 (0 # 0 # 0 # 0 # r) = (Some 0, r)" "PACKET_get_net_4 (0 # 0 # 0 # 1 # r) = (Some 1, r)"
proof -
  have "be_bytes 4 0 = [0, 0, 0, 0]" "be_bytes 4 1 = [0, 0, 0, 1]" by code_simp+
  then show "PACKET_get_net_4 (0 # 0 # 0 # 0 # r) = (Some 0, r)" "PACKET_get_net_4 (0 # 0 # 0 # 1 # r) = (Some 1, r)"
    using get_net_4_be [of 0 r] get_net_4_be [of 1 r] by simp_all
qed

lemma pn_len_decoded:
  assumes "(b :: u8) AND 3 = of_nat (n - 1)" "n \<in> {1..4}"
  shows "(ucast (((ucast b :: u32) AND 3) + 1) :: 4 word) = of_nat n"
  unfolding first_byte_u32 assms(1) by (cases rule: pn_len_cases [OF assms(2)]) simp_all

lemma unat_pn_len: "n \<in> {1..4} \<Longrightarrow> unat (of_nat n :: 4 word) = n"
  by (simp add: unat_of_nat)

lemma short_byte_decoded:
  assumes "n \<in> {1..4}" "b = short_byte spin kp r n"
  shows "(ucast b :: u32) AND 0x04 \<noteq> 0 \<longleftrightarrow> kp" "(ucast (((ucast b :: u32) AND 0x03) + 1) :: 4 word) = of_nat n"
    "(ucast (drop_bit 3 ((ucast b :: u32) AND 0x18)) :: 2 word) = r"
proof -
  note fields = short_byte_fields [OF assms(1), of spin kp r, folded assms(2)]
  show "(ucast b :: u32) AND 0x04 \<noteq> 0 \<longleftrightarrow> kp" unfolding first_byte_u32 using fields(2) by simp
  show "(ucast (((ucast b :: u32) AND 0x03) + 1) :: 4 word) = of_nat n" by (rule pn_len_decoded [OF fields(4) assms(1)])
  show "(ucast (drop_bit 3 ((ucast b :: u32) AND 0x18)) :: 2 word) = r"
    unfolding first_byte_u32 drop_bit_ucast_u32 fields(3) ucast_u32_small using word2_cases [of r] by auto
qed

text \<open>A decoded header describes the packet \<open>p\<close> and gives access to its payload.\<close>

definition describes :: "pkt_hdr \<Rightarrow> wire_pkt \<Rightarrow> bool" where
  "describes hdr p \<longleftrightarrow> pkt_of_hdr hdr (pkt_payload p) = p \<and> ph_data hdr = Some (pkt_payload p) \<and>
     ph_len hdr = of_nat (length (pkt_payload p)) \<and> \<not> ph_partial hdr"

lemma decode_short_partial:
  assumes p: "p = ShortPkt spin kp r dcid pn payload" and ok: "pkt_fields_ok (unat scid) p" "same_form p b"
    and l: "QUIC_MIN_VALID_PKT_LEN_CRYPTO \<le> l" "l = 1 + length dcid + length tail" "4 \<le> length tail"
  shows "\<exists>hdr'. decode_short_hdr l scid True (ucast b) hdr (dcid @ tail) = (Some (hdr', Some (1 + length dcid)), [])"
proof -
  note tests = short_form_tests [OF ok(2) [unfolded p]]
  show ?thesis
    using ok l tests
    by (simp add: p decode_short_hdr_def Let_def read_then_simps packet_pos_def PACKET_remaining_def decode_pn_partial
        read_return_def)
qed

lemma decode_short_full:
  assumes p: "p = ShortPkt spin kp r dcid pn payload" and ok: "pkt_fields_ok (unat scid) p" and b: "b = pkt_first p"
    and l: "QUIC_MIN_VALID_PKT_LEN_CRYPTO \<le> l" "l = length (pkt_bytes p)" "\<not> ph_partial hdr"
  shows "\<exists>hdr'. decode_short_hdr l scid False (ucast b) hdr (dcid @ pn @ payload) =
    (Some (hdr', Some (1 + length dcid)), []) \<and> describes hdr' p"
proof -
  have n: "length pn \<in> {1..4}" and id: "unat scid = length dcid" "length dcid \<le> QUIC_MAX_CONN_ID_LEN"
    using ok by (auto simp: p)
  have form: "same_form (ShortPkt spin kp r dcid pn payload) b" by (simp add: same_form_def b p)
  have idl: "to_u8 scid = of_nat (length dcid)" by (simp add: flip: id(1))
  have len: "l = Suc (length dcid + (length pn + length payload))" using l(2) by (simp add: p pkt_bytes_def pkt_hdr_bytes_def)
  have byte: "b = short_byte spin kp r (length pn)" by (simp add: b p)
  note bits = short_byte_decoded [OF n byte] short_form_tests [OF form n]
  show ?thesis
    using l(1,3) n id unfolding decode_short_hdr_def Let_def bits idl
    by (simp add: p bits read_then_simps packet_pos_def PACKET_remaining_def decode_pn_full unat_pn_len
        read_return_def len describes_def pkt_of_hdr_def hdr_type_def pkt_types cid_bytes_decoded)
qed

definition long_hdr_of :: "pkt_hdr \<Rightarrow> u32 \<Rightarrow> bytes \<Rightarrow> bytes \<Rightarrow> pkt_hdr" where
  "long_hdr_of hdr version dcid scid =
     hdr\<lparr>ph_version := version,
         ph_dst_conn_id := \<lparr>id_len = of_nat (length dcid), cid_id = set_prefix dcid (cid_id (ph_dst_conn_id hdr))\<rparr>,
         ph_src_conn_id := \<lparr>id_len = of_nat (length scid), cid_id = set_prefix scid (cid_id (ph_src_conn_id hdr))\<rparr>\<rparr>"

lemma decode_long_v1:
  assumes "length dcid \<le> QUIC_MAX_CONN_ID_LEN" "length scid \<le> QUIC_MAX_CONN_ID_LEN" "b0 AND 0x40 \<noteq> 0"
    and "QUIC_MIN_VALID_PKT_LEN_CRYPTO \<le> l"
  shows "decode_long_hdr l partial nodata b0 hdr ([0, 0, 0, 1] @ cid_field dcid @ cid_field scid @ r) =
    read_then (decode_token ((long_hdr_of hdr 1 dcid scid)\<lparr>ph_type := ucast (long_hdr_type b0), ph_pn_len := 0,
        ph_fixed := True, ph_spin_bit := False, ph_key_phase := False\<rparr>)) (\<lambda>hdr.
      if hdr_type hdr = QUIC_PKT_TYPE_RETRY then decode_retry b0 hdr else decode_numbered l partial nodata b0 hdr) r"
  using assms by (simp add: decode_long_hdr_def read_then_simps Let_def QUIC_VERSION_1_def long_hdr_of_def)

lemma decode_long_v0:
  assumes "length dcid \<le> QUIC_MAX_CONN_ID_LEN" "length scid \<le> QUIC_MAX_CONN_ID_LEN"
  shows "decode_long_hdr l partial nodata b0 hdr ([0, 0, 0, 0] @ cid_field dcid @ cid_field scid @ r) =
    decode_version_neg b0 (long_hdr_of hdr 0 dcid scid) r"
  using assms by (simp add: decode_long_hdr_def read_then_simps Let_def QUIC_VERSION_1_def long_hdr_of_def)

lemma vlint_ok_length: "n < 2 ^ 62 \<Longrightarrow> vlint_ok (of_nat n)"
  by (simp add: vlint_ok_def OSSL_QUIC_VLINT_MAX_def u64_nat unat_of_nat_u64)

lemma decode_token_field:
  assumes "hdr_type hdr = kind_type kind" "case kind of KInitial token \<Rightarrow> length token < 2 ^ 62 | _ \<Rightarrow> True"
  shows "\<exists>hdr'. decode_token hdr (token_field kind @ r) = (Some hdr', r) \<and> kind_of hdr' = kind \<and>
    hdr' = hdr\<lparr>ph_token := ph_token hdr', ph_token_len := ph_token_len hdr'\<rparr>"
proof (cases kind)
  case (KInitial token)
  have "(of_nat (length token) :: u64) = 0 \<longleftrightarrow> token = []"
    using assms KInitial by (simp add: word_unat_eq_iff unat_of_nat_u64 del: unat_of_nat)
  then show ?thesis
    using assms KInitial
    by (simp add: decode_token_def read_then_simps vlint_ok_length unat_of_nat_u64 read_return_def kind_of_def hdr_type_def
        del: unat_of_nat)
qed (use assms in \<open>simp_all add: decode_token_def read_return_def kind_of_def hdr_type_def pkt_types\<close>)

lemma decode_numbered_partial:
  assumes len: "4 \<le> n" "n < 2 ^ 62" "n \<le> length tail"
  shows "\<exists>hdr'. decode_numbered l True False b0 hdr (ossl_quic_vlint_encode (of_nat n) @ tail) =
    (Some (hdr', Some (l - length tail)), drop n tail)"
proof -
  have n: "unat (of_nat n :: u64) = n" "\<not> (of_nat n :: u64) < 4" "unat (of_nat n - 4 :: u64) = n - 4"
    using len by (simp_all add: u64_nat unat_of_nat_u64 unat_sub_u64 del: unat_of_nat)
  have "n \<le> 4 + length (drop 4 tail)" using len by simp
  then show ?thesis
    using len n
    by (simp add: decode_numbered_def Let_def read_then_simps vlint_ok_length packet_pos_def PACKET_remaining_def
        decode_pn_partial data_forward_def forward_skip read_return_def del: unat_of_nat)
qed

lemma decode_numbered_full:
  assumes len: "n = length pn + length payload" "4 \<le> n" "n < 2 ^ 62" "length pn \<in> {1..4}"
    and b: "b = long_byte (kind_bits kind) r (length pn)"
  shows "decode_numbered l False False (ucast b) hdr (ossl_quic_vlint_encode (of_nat n) @ pn @ payload @ rest) =
    (Some (hdr\<lparr>ph_pn_len := of_nat (length pn), ph_reserved := r, ph_pn := set_prefix pn (replicate 4 0),
               ph_len := of_nat (length payload), ph_data := Some payload\<rparr>, Some (l - length (pn @ payload @ rest))), rest)"
proof -
  have n: "unat (of_nat n :: u64) = n" "\<not> (of_nat n :: u64) < 4"
    using len(2,3) by (simp_all add: u64_nat unat_of_nat_u64 del: unat_of_nat)
  have bits: "(ucast (((ucast b :: u32) AND 0x03) + 1) :: 4 word) = of_nat (length pn)"
    "(ucast (drop_bit 2 ((ucast b :: u32) AND 0x0C)) :: 2 word) = r"
    using long_byte_fields(2,3) [OF len(4) refl, of kind r, folded b] pn_len_decoded [OF _ len(4), of b] word2_cases [of r]
    unfolding first_byte_u32 drop_bit_ucast_u32 by (auto simp: ucast_u32_small)
  have pl: "of_nat n - ucast (of_nat (length pn) :: 4 word) = (of_nat (length payload) :: u64)"
    using len(1) by (cases rule: pn_len_cases [OF len(4)]) simp_all
  have payload: "unat (of_nat (length payload) :: u64) = length payload" using len by (simp add: unat_of_nat_u64 del: unat_of_nat)
  have "n \<le> length pn + (length payload + length rest)" using len(1) by simp
  then show ?thesis
    using len(2-4) n payload unfolding decode_numbered_def Let_def bits if_False
    by (simp add: read_then_simps vlint_ok_length packet_pos_def PACKET_remaining_def decode_pn_full unat_pn_len pl
        read_return_def del: unat_of_nat)
qed

text \<open>The position of the packet number; only packets that carry their length can be followed by others.\<close>

definition pn_pos :: "wire_pkt \<Rightarrow> nat option" where
  "pn_pos p = (if pkt_pn p = [] then None else Some (1 + length (pkt_mid p)))"

fun may_precede :: "wire_pkt \<Rightarrow> bytes \<Rightarrow> bool" where
  "may_precede (NumberedPkt _ _ _ _ _ _) rest = True"
| "may_precede _ rest \<longleftrightarrow> rest = []"

lemma decode_first:
  assumes "QUIC_MIN_VALID_PKT_LEN \<le> Suc (length r)"
  shows "ossl_quic_wire_decode_pkt_hdr scid partial nodata hdr (b # r) =
    read_then
      (if (ucast b :: u32) AND 0x80 = 0
       then decode_short_hdr (Suc (length r)) scid partial (ucast b) (hdr\<lparr>ph_partial := partial, ph_unused := 0, ph_reserved := 0\<rparr>)
       else decode_long_hdr (Suc (length r)) partial nodata (ucast b) (hdr\<lparr>ph_partial := partial, ph_unused := 0, ph_reserved := 0\<rparr>))
      (\<lambda>(hdr, pn). read_return (hdr, decoded_ptrs (Suc (length r)) pn)) r"
  using assms by (simp add: ossl_quic_wire_decode_pkt_hdr_def PACKET_remaining_def read_then_simps Let_def)

lemma pkt_ok_min: "pkt_ok n p \<Longrightarrow> QUIC_MIN_VALID_PKT_LEN \<le> length (pkt_bytes p)"
  by (cases p) (auto simp: pkt_ok_def pkt_lens)

lemma decode_long_numbered:
  assumes p: "p = NumberedPkt kind r dcid s pn payload" and ok: "pkt_fields_ok n p" "same_form p b"
    and l: "QUIC_MIN_VALID_PKT_LEN_CRYPTO \<le> l"
  shows "\<exists>hdr'. decode_long_hdr l partial False (ucast b) hdr (pkt_mid p @ tail) =
      decode_numbered l partial False (ucast b) hdr'
        (ossl_quic_vlint_encode (of_nat (length pn + length payload)) @ tail) \<and> kind_of hdr' = kind \<and>
    hdr' = (long_hdr_of hdr 1 dcid s)\<lparr>ph_type := ucast (kind_type kind), ph_pn_len := 0, ph_fixed := True,
      ph_spin_bit := False, ph_key_phase := False, ph_token := ph_token hdr', ph_token_len := ph_token_len hdr'\<rparr>"
proof -
  have fields: "length dcid \<le> QUIC_MAX_CONN_ID_LEN" "length s \<le> QUIC_MAX_CONN_ID_LEN" "length pn \<in> {1..4}"
    "case kind of KInitial token \<Rightarrow> length token < 2 ^ 62 | _ \<Rightarrow> True"
    using ok(1) by (simp_all add: p)
  note tests = long_form_tests [OF ok(2) [unfolded p] fields(3)]
  let ?hdr = "(long_hdr_of hdr 1 dcid s)\<lparr>ph_type := ucast (kind_type kind), ph_pn_len := 0, ph_fixed := True,
    ph_spin_bit := False, ph_key_phase := False\<rparr>"
  let ?tail = "ossl_quic_vlint_encode (of_nat (length pn + length payload)) @ tail"
  have type: "hdr_type ?hdr = kind_type kind" by (cases kind) (simp_all add: hdr_type_def pkt_types)
  obtain hdr' where tok: "decode_token ?hdr (token_field kind @ ?tail) = (Some hdr', ?tail)" "kind_of hdr' = kind"
    "hdr' = ?hdr\<lparr>ph_token := ph_token hdr', ph_token_len := ph_token_len hdr'\<rparr>"
    using decode_token_field [OF type fields(4)] by blast
  have "hdr_type hdr' = kind_type kind" by (subst tok(3)) (use type in \<open>simp add: hdr_type_def\<close>)
  then have "hdr_type hdr' \<noteq> QUIC_PKT_TYPE_RETRY" by (cases kind) (simp_all add: pkt_types)
  then have "decode_long_hdr l partial False (ucast b) hdr (pkt_mid p @ tail) =
      decode_numbered l partial False (ucast b) hdr' ?tail"
    using decode_long_v1 [OF fields(1,2) tests(2) l, of partial False hdr "token_field kind @ ?tail", unfolded tests(3)] tok(1)
    by (simp add: p read_then_simps del: of_nat_add)
  then show ?thesis by (rule exI [of _ hdr', OF conjI]) (rule conjI [OF tok(2,3)])
qed

lemma decode_partial:
  assumes ok: "pkt_ok (unat scid) p" "same_form p b" "pkt_pn p \<noteq> []"
    and tail: "length (pkt_pn p @ pkt_payload p) \<le> length tail" "4 \<le> length tail"
  shows "\<exists>hdr' rest. ossl_quic_wire_decode_pkt_hdr scid True False hdr (b # pkt_mid p @ tail) =
    (Some (hdr', decoded_ptrs (length (b # pkt_mid p @ tail)) (pn_pos p)), rest)"
proof (cases p)
  case p: (ShortPkt spin kp r dcid pn payload)
  let ?l = "Suc (length dcid + length tail)"
  have l: "QUIC_MIN_VALID_PKT_LEN \<le> ?l" "QUIC_MIN_VALID_PKT_LEN_CRYPTO \<le> ?l"
    using ok(1) tail by (auto simp: p pkt_ok_def pkt_bytes_def pkt_hdr_bytes_def pkt_lens)
  have fields: "pkt_fields_ok (unat scid) p" "length pn \<in> {1..4}" using ok(1) by (auto simp: p pkt_ok_def)
  obtain hdr' where "decode_short_hdr ?l scid True (ucast b) (hdr\<lparr>ph_partial := True, ph_unused := 0, ph_reserved := 0\<rparr>)
      (dcid @ tail) = (Some (hdr', Some (1 + length dcid)), [])"
    using decode_short_partial [OF p fields(1) ok(2) l(2) _ tail(2)] by auto
  then show ?thesis
    using l short_form_tests(1) [OF ok(2) [unfolded p] fields(2)] ok(3)
    by (simp add: p decode_first read_then_simps read_return_def pn_pos_def)
next
  case p: (NumberedPkt kind r dcid s pn payload)
  let ?l = "length (b # pkt_mid p @ tail)"
  let ?n = "length pn + length payload"
  have l: "QUIC_MIN_VALID_PKT_LEN_CRYPTO \<le> ?l"
    using ok(1) tail by (auto simp: p pkt_ok_def pkt_bytes_def pkt_hdr_bytes_def pkt_lens)
  have fields: "pkt_fields_ok (unat scid) p" "length pn \<in> {1..4}" "4 \<le> ?n" "?n < 2 ^ 62" "?n \<le> length tail"
    using ok(1) tail by (auto simp: p pkt_ok_def)
  obtain hdr1 where "decode_long_hdr ?l True False (ucast b) (hdr\<lparr>ph_partial := True, ph_unused := 0, ph_reserved := 0\<rparr>)
      (pkt_mid p @ tail) = decode_numbered ?l True False (ucast b) hdr1 (ossl_quic_vlint_encode (of_nat ?n) @ tail)"
    using decode_long_numbered [OF p fields(1) ok(2) l] by blast
  moreover obtain hdr2 where "decode_numbered ?l True False (ucast b) hdr1 (ossl_quic_vlint_encode (of_nat ?n) @ tail) =
      (Some (hdr2, Some (?l - length tail)), drop ?n tail)"
    using decode_numbered_partial [OF fields(3-5)] by blast
  ultimately have "decode_long_hdr ?l True False (ucast b) (hdr\<lparr>ph_partial := True, ph_unused := 0, ph_reserved := 0\<rparr>)
      (pkt_mid p @ tail) = (Some (hdr2, pn_pos p), drop ?n tail)"
    using ok(3) by (simp add: pn_pos_def p)
  then show ?thesis
    using l long_form_tests(1) [OF ok(2) [unfolded p] fields(2)]
    by (simp add: decode_first read_then_simps read_return_def pkt_lens)
qed (use ok(3) in simp_all)

lemma describes_numbered:
  assumes "kind_of hdr = kind" "hdr = (long_hdr_of hdr0 1 dcid s)\<lparr>ph_type := ucast (kind_type kind), ph_pn_len := 0,
      ph_fixed := True, ph_spin_bit := False, ph_key_phase := False, ph_token := t, ph_token_len := tlen\<rparr>"
    and "pkt_fields_ok n (NumberedPkt kind r dcid s pn payload)" "\<not> ph_partial hdr0"
  shows "describes (hdr\<lparr>ph_pn_len := of_nat (length pn), ph_reserved := r, ph_pn := set_prefix pn (replicate 4 0),
      ph_len := of_nat (length payload), ph_data := Some payload\<rparr>) (NumberedPkt kind r dcid s pn payload)"
    (is "describes ?hdr _")
proof -
  have type: "hdr_type ?hdr = kind_type kind" unfolding assms(2) by (cases kind) (simp_all add: hdr_type_def pkt_types)
  have "kind_of ?hdr = kind" unfolding assms(1) [symmetric] kind_of_def hdr_type_def by (simp cong: option.case_cong)
  moreover have "hdr_type ?hdr \<notin> {QUIC_PKT_TYPE_1RTT, QUIC_PKT_TYPE_VERSION_NEG, QUIC_PKT_TYPE_RETRY}"
    unfolding type by (cases kind) (simp_all add: pkt_types)
  ultimately show ?thesis
    using assms(3,4) unfolding describes_def pkt_of_hdr_def Let_def
    by (simp add: assms(2) long_hdr_of_def cid_bytes_decoded unat_pn_len)
qed

lemma decode_full_numbered:
  assumes p: "p = NumberedPkt kind r dcid s pn payload" and ok: "pkt_ok (unat scid) p"
  shows "\<exists>hdr'. ossl_quic_wire_decode_pkt_hdr scid False False hdr (pkt_bytes p @ rest) =
    (Some (hdr', decoded_ptrs (length (pkt_bytes p @ rest)) (pn_pos p)), rest) \<and> describes hdr' p"
proof -
  let ?tail = "pn @ payload @ rest"
  let ?l = "length (pkt_bytes p @ rest)"
  let ?n = "length pn + length payload"
  let ?b = "pkt_first p"
  have bytes: "pkt_bytes p @ rest = ?b # pkt_mid p @ ?tail" by (simp add: p pkt_bytes_def pkt_hdr_bytes_def)
  have l: "QUIC_MIN_VALID_PKT_LEN_CRYPTO \<le> ?l" using ok by (simp add: p pkt_ok_def)
  have fields: "pkt_fields_ok (unat scid) p" "length pn \<in> {1..4}" "4 \<le> ?n" "?n < 2 ^ 62"
    using ok by (auto simp: p pkt_ok_def)
  have form: "same_form p ?b" by (simp add: same_form_def p)
  obtain hdr1 where h: "decode_long_hdr ?l False False (ucast ?b) (hdr\<lparr>ph_partial := False, ph_unused := 0, ph_reserved := 0\<rparr>)
      (pkt_mid p @ ?tail) = decode_numbered ?l False False (ucast ?b) hdr1 (ossl_quic_vlint_encode (of_nat ?n) @ ?tail)"
    "kind_of hdr1 = kind" "hdr1 = (long_hdr_of (hdr\<lparr>ph_partial := False, ph_unused := 0, ph_reserved := 0\<rparr>) 1 dcid s)
      \<lparr>ph_type := ucast (kind_type kind), ph_pn_len := 0, ph_fixed := True,
       ph_spin_bit := False, ph_key_phase := False, ph_token := ph_token hdr1, ph_token_len := ph_token_len hdr1\<rparr>"
    using decode_long_numbered [OF p fields(1) form l] by blast
  have num: "decode_long_hdr ?l False False (ucast ?b) (hdr\<lparr>ph_partial := False, ph_unused := 0, ph_reserved := 0\<rparr>)
      (pkt_mid p @ ?tail) =
    (Some (hdr1\<lparr>ph_pn_len := of_nat (length pn), ph_reserved := r, ph_pn := set_prefix pn (replicate 4 0),
       ph_len := of_nat (length payload), ph_data := Some payload\<rparr>, pn_pos p), rest)"
    unfolding h(1) using fields decode_numbered_full [OF refl fields(3,4,2), of ?b kind r] bytes
    by (auto simp add: p pn_pos_def)
  have "describes (hdr1\<lparr>ph_pn_len := of_nat (length pn), ph_reserved := r, ph_pn := set_prefix pn (replicate 4 0),
       ph_len := of_nat (length payload), ph_data := Some payload\<rparr>) p"
    unfolding p by (rule describes_numbered [OF h(2,3) fields(1) [unfolded p]]) simp
  then show ?thesis
    using l num long_form_tests(1) [OF form [unfolded p] fields(2), folded p]
    unfolding bytes by (simp add: decode_first read_then_simps read_return_def pkt_lens)
qed

lemma retry_first: "(ucast (0xF0 OR ucast (u :: 4 word) :: u8) :: u32) AND 0x80 \<noteq> 0"
    "(ucast (0xF0 OR ucast u :: u8) :: u32) AND 0x40 \<noteq> 0"
    "long_hdr_type (ucast (0xF0 OR ucast u :: u8)) = QUIC_PKT_TYPE_RETRY"
    "(ucast ((ucast (0xF0 OR ucast u :: u8) :: u32) AND 0x0F) :: 4 word) = u"
proof -
  let ?b = "0xF0 OR ucast u :: u8"
  have top: "drop_bit 4 ?b = 0xF"
    by (rule bit_word_eqI) (auto simp: bit_simps dest: bit_imp_le_length)
  then show "(ucast ?b :: u32) AND 0x80 \<noteq> 0" "(ucast ?b :: u32) AND 0x40 \<noteq> 0"
    unfolding first_byte_u32 using and_top_bits [of ?b 4 8] and_top_bits [of ?b 4 4] by simp_all
  show "long_hdr_type (ucast ?b) = QUIC_PKT_TYPE_RETRY"
    unfolding long_hdr_type_def Let_def drop_bit_ucast_u32 top by simp
  have "(ucast (?b AND 0xF) :: 4 word) = ucast (take_bit 4 ?b)" by (simp add: take_bit_eq_mask mask_eq_exp_minus_1)
  also have "\<dots> = u" by (rule bit_word_eqI) (auto simp: bit_simps)
  finally show "(ucast ((ucast ?b :: u32) AND 0x0F) :: 4 word) = u" unfolding first_byte_u32 ucast_u32_small .
qed

lemma decode_full_retry:
  assumes p: "p = RetryPkt unused dcid s payload" and ok: "pkt_ok n p"
  shows "\<exists>hdr'. ossl_quic_wire_decode_pkt_hdr scid False False hdr (pkt_bytes p) =
    (Some (hdr', decoded_ptrs (length (pkt_bytes p)) None), []) \<and> describes hdr' p"
proof -
  let ?l = "length (pkt_bytes p)"
  have l: "QUIC_MIN_VALID_PKT_LEN_CRYPTO \<le> ?l" "length dcid \<le> QUIC_MAX_CONN_ID_LEN" "length s \<le> QUIC_MAX_CONN_ID_LEN"
    using ok by (simp_all add: p pkt_ok_def)
  have bytes: "pkt_bytes p = (0xF0 OR ucast unused) # [0, 0, 0, 1] @ cid_field dcid @ cid_field s @ payload"
    by (simp add: p pkt_bytes_def pkt_hdr_bytes_def)
  show ?thesis
    using l decode_long_v1 [OF l(2,3) retry_first(2) [of unused] l(1), of False False
        "hdr\<lparr>ph_partial := False, ph_unused := 0, ph_reserved := 0\<rparr>" payload]
    unfolding bytes retry_first
    by (simp add: decode_first pkt_lens retry_first(1) read_then_simps read_return_def decode_token_def decode_retry_def
        hdr_type_def pkt_types retry_first describes_def pkt_of_hdr_def p long_hdr_of_def cid_bytes_decoded)
qed

lemma version_neg_first: "(ucast (0x80 OR push_bit 6 (of_bool fixed) :: u8) :: u32) AND 0x80 \<noteq> 0"
    "(ucast (0x80 OR push_bit 6 (of_bool fixed) :: u8) :: u32) AND 0x40 \<noteq> 0 \<longleftrightarrow> fixed"
  unfolding first_byte_u32 by (cases fixed; simp)+

lemma decode_full_version_neg:
  assumes p: "p = VersionNegPkt fixed dcid s payload" and ok: "pkt_ok n p"
  shows "\<exists>hdr'. ossl_quic_wire_decode_pkt_hdr scid False False hdr (pkt_bytes p) =
    (Some (hdr', decoded_ptrs (length (pkt_bytes p)) None), []) \<and> describes hdr' p"
proof -
  have l: "length dcid \<le> QUIC_MAX_CONN_ID_LEN" "length s \<le> QUIC_MAX_CONN_ID_LEN" "length payload mod 4 = 0"
    using ok by (simp_all add: p pkt_ok_def)
  have bytes: "pkt_bytes p = (0x80 OR push_bit 6 (of_bool fixed)) # [0, 0, 0, 0] @ cid_field dcid @ cid_field s @ payload"
    by (simp add: p pkt_bytes_def pkt_hdr_bytes_def)
  show ?thesis
    using decode_long_v0 [OF l(1,2), of "length (pkt_bytes p)" False False
        "ucast (0x80 OR push_bit 6 (of_bool fixed) :: u8)" "hdr\<lparr>ph_partial := False, ph_unused := 0, ph_reserved := 0\<rparr>" payload]
      l pkt_ok_min [OF ok] version_neg_first [of fixed]
    unfolding bytes decode_version_neg_def version_neg_first
    by (simp add: decode_first read_then_simps read_return_def PACKET_remaining_def
        hdr_type_def pkt_types describes_def pkt_of_hdr_def p long_hdr_of_def cid_bytes_decoded)
qed

lemma decode_full_short:
  assumes p: "p = ShortPkt spin kp r dcid pn payload" and ok: "pkt_ok (unat scid) p"
  shows "\<exists>hdr'. ossl_quic_wire_decode_pkt_hdr scid False False hdr (pkt_bytes p) =
    (Some (hdr', decoded_ptrs (length (pkt_bytes p)) (pn_pos p)), []) \<and> describes hdr' p"
proof -
  have fields: "pkt_fields_ok (unat scid) p" "length pn \<in> {1..4}" "QUIC_MIN_VALID_PKT_LEN_CRYPTO \<le> length (pkt_bytes p)"
    using ok by (auto simp: p pkt_ok_def)
  have bytes: "pkt_bytes p = pkt_first p # dcid @ pn @ payload" by (simp add: p pkt_bytes_def pkt_hdr_bytes_def)
  have form: "same_form (ShortPkt spin kp r dcid pn payload) (pkt_first p)" by (simp add: same_form_def p)
  obtain hdr' where "decode_short_hdr (length (pkt_bytes p)) scid False (ucast (pkt_first p))
      (hdr\<lparr>ph_partial := False, ph_unused := 0, ph_reserved := 0\<rparr>) (dcid @ pn @ payload) =
    (Some (hdr', Some (1 + length dcid)), [])" "describes hdr' p"
    using decode_short_full [OF p fields(1) refl fields(3) refl,
        of "hdr\<lparr>ph_partial := False, ph_unused := 0, ph_reserved := 0\<rparr>"] by auto
  then show ?thesis
    using fields short_form_tests(1) [OF form fields(2)] pkt_ok_min [OF ok]
    unfolding bytes by (auto simp: decode_first read_then_simps read_return_def pn_pos_def p)
qed

lemma decode_full:
  assumes "pkt_ok (unat scid) p" "may_precede p rest"
  shows "\<exists>hdr'. ossl_quic_wire_decode_pkt_hdr scid False False hdr (pkt_bytes p @ rest) =
    (Some (hdr', decoded_ptrs (length (pkt_bytes p @ rest)) (pn_pos p)), rest) \<and> describes hdr' p"
proof (cases p)
  case (NumberedPkt kind r dcid s pn payload)
  then show ?thesis using decode_full_numbered assms(1) by blast
qed (use assms decode_full_short [of p] decode_full_version_neg [of p] decode_full_retry [of p] in
    \<open>auto simp: pn_pos_def\<close>)

end
