(* ===== verification/PktEncode.thy ===== *)
theory PktEncode
  imports PktCodec
begin

text \<open>
  The encoder of packet headers writes the wire format, and the pointers it returns are those the
  decoder computes; the length computed in advance is the length written.
\<close>

text \<open>The structure invariant of a header the caller fills in for a payload.\<close>

definition hdr_wf :: "pkt_hdr \<Rightarrow> bytes \<Rightarrow> bool" where
  "hdr_wf hdr payload \<longleftrightarrow> \<not> ph_partial hdr \<and>
     length (cid_id (ph_dst_conn_id hdr)) = QUIC_MAX_CONN_ID_LEN \<and>
     length (cid_id (ph_src_conn_id hdr)) = QUIC_MAX_CONN_ID_LEN \<and>
     unat (id_len (ph_dst_conn_id hdr)) \<le> QUIC_MAX_CONN_ID_LEN \<and>
     unat (id_len (ph_src_conn_id hdr)) \<le> QUIC_MAX_CONN_ID_LEN \<and>
     length (ph_pn hdr) = 4 \<and> unat (ph_pn_len hdr) \<le> 4 \<and> ph_len hdr = of_nat (length payload) \<and>
     hdr_type hdr \<in> {QUIC_PKT_TYPE_INITIAL, QUIC_PKT_TYPE_0RTT, QUIC_PKT_TYPE_HANDSHAKE, QUIC_PKT_TYPE_RETRY,
       QUIC_PKT_TYPE_1RTT, QUIC_PKT_TYPE_VERSION_NEG} \<and>
     (hdr_type hdr \<noteq> QUIC_PKT_TYPE_1RTT \<longrightarrow>
       ph_version hdr = (if hdr_type hdr = QUIC_PKT_TYPE_VERSION_NEG then QUIC_VERSION_NONE else QUIC_VERSION_1)) \<and>
     (hdr_type hdr = QUIC_PKT_TYPE_INITIAL \<longrightarrow>
       (case ph_token hdr of None \<Rightarrow> ph_token_len hdr = 0 | Some token \<Rightarrow> unat (ph_token_len hdr) \<le> length token))"

section \<open>Writing\<close>

lemma writes_then:
  assumes "writes f bs" "wp_room cap pkt (length bs + n)"
  obtains pkt' where "f pkt = Some (Some (), pkt')" "wp_ext cap pkt pkt' bs" "wp_room cap pkt' n"
  using assms wp_room_less [OF assms(2), of "length bs"] writesE [OF assms(1)] wp_room_ext by (metis le_add1)

lemma wp_ext_trans: "wp_ext cap pkt pkt1 as \<Longrightarrow> wp_ext cap pkt1 pkt2 bs \<Longrightarrow> wp_ext cap pkt pkt2 (as @ bs)"
  by (auto simp: wp_ext_def)

lemma put_4_bytes: "unat v < 2 ^ 32 \<Longrightarrow> writes (WPACKET_put_bytes_n v 4) (be_bytes 4 v)"
proof -
  assume "unat v < 2 ^ 32"
  then have "drop_bit 32 v = 0" by (simp add: word_unat_eq_iff unat_drop_bit_u64)
  then show ?thesis using writes_put_bytes [of 4 v] by simp
qed

lemma writes_cid:
  assumes "unat (id_len cid) \<le> QUIC_MAX_CONN_ID_LEN" "length (cid_id cid) = QUIC_MAX_CONN_ID_LEN"
  shows "writes (encode_conn_id cid) (cid_field (cid_bytes cid))"
proof -
  have "length (cid_bytes cid) = unat (id_len cid)" using assms by (simp add: cid_bytes_def)
  then have field: "cid_field (cid_bytes cid) = [id_len cid] @ cid_bytes cid @ []" by (simp add: cid_field_def)
  show ?thesis
    unfolding field encode_conn_id_def
    using assms by (intro writes_parts put_1_byte writes_memcpy) (simp_all add: cid_bytes_def QUIC_MAX_CONN_ID_LEN_def)
qed

lemma encode_pn_field_writes:
  assumes "wp_room cap pkt (length pn + n)" "pn = take (unat (ph_pn_len hdr)) (ph_pn hdr)" "length pn \<le> 4"
  obtains pkt' where "encode_pn_field hdr pkt = Some (Some (w_written pkt), pkt')" "wp_ext cap pkt pkt' pn" "wp_room cap pkt' n"
proof -
  have "writes (WPACKET_memcpy pn) pn" using assms(3) by (intro writes_memcpy) simp
  then obtain pkt' where "WPACKET_memcpy pn pkt = Some (Some (), pkt')" "wp_ext cap pkt pkt' pn" "wp_room cap pkt' n"
    using writes_then assms(1) by blast
  then show thesis
    using that assms(2)
    by (simp add: encode_pn_field_def wbind_def total_written_def wret_def WPACKET_get_total_written_def)
qed

lemma wp_ext_written_word:
  assumes "wp_ok cap pkt" "wp_ext cap pkt pkt' bs"
  shows "w_written pkt' = w_written pkt + of_nat (length bs)"
proof -
  have "(of_nat (unat (w_written pkt')) :: size_t) = of_nat (unat (w_written pkt) + length bs)"
    using wp_ext_written [OF assms] by simp
  then show ?thesis by simp
qed

lemma head_pn_writes:
  assumes head: "writes head bs" and room: "wp_room cap pkt (length bs + (length pn + n))"
    and pn: "pn = take (unat (ph_pn_len hdr)) (ph_pn hdr)" "length pn \<le> 4"
  obtains pkt' where "wbind head (\<lambda>_. encode_pn_field hdr) pkt = Some (Some (w_written pkt + of_nat (length bs)), pkt')"
    "wp_ext cap pkt pkt' (bs @ pn)" "wp_room cap pkt' n"
proof -
  obtain pkt1 where 1: "head pkt = Some (Some (), pkt1)" "wp_ext cap pkt pkt1 bs" "wp_room cap pkt1 (length pn + n)"
    using writes_then [OF head room] .
  obtain pkt2 where 2: "encode_pn_field hdr pkt1 = Some (Some (w_written pkt1), pkt2)" "wp_ext cap pkt1 pkt2 pn"
    "wp_room cap pkt2 n"
    using encode_pn_field_writes [OF 1(3) pn] .
  have "wp_ok cap pkt" using room by (simp add: wp_room_def)
  then show thesis using that 1 2 wp_ext_written_word [OF _ 1(2)] wp_ext_trans by (simp add: wbind_def)
qed

lemma static_room: "wp_ok cap pkt \<Longrightarrow> \<not> is_grow pkt \<Longrightarrow> \<exists>d. w_buf pkt = StaticBuf d"
  by (cases "w_buf pkt") (auto simp: is_grow_def wp_ok_def buf_ok_def)

lemma reserve_payload_static:
  assumes "wp_room cap pkt (unat (ph_len hdr))" "\<not> is_grow pkt"
  shows "reserve_payload hdr pkt = Some (Some (), pkt)"
proof -
  obtain d where d: "w_buf pkt = StaticBuf d" using static_room assms by (auto simp: wp_room_def)
  have "w_written pkt \<le> w_maxsize pkt" "unat (w_written pkt) + unat (ph_len hdr) \<le> unat (w_maxsize pkt)"
    using assms by (auto simp: wp_room_def wp_ok_def)
  then have "\<not> w_maxsize pkt - w_written pkt < ph_len hdr" by (simp add: u64_less_nat unat_sub_u64)
  then show ?thesis
    using assms(1) d
    by (auto simp: reserve_payload_def WPACKET_reserve_bytes_def wbind_def wret_def wpacket_grow_def wp_room_def
        WPACKET_get_curr_def GETBUF_def)
qed

section \<open>The first byte\<close>

definition hdr_pn :: "pkt_hdr \<Rightarrow> bytes" where
  "hdr_pn hdr = take (unat (ph_pn_len hdr)) (ph_pn hdr)"

lemma length_hdr_pn: "hdr_wf hdr payload \<Longrightarrow> length (hdr_pn hdr) = unat (ph_pn_len hdr)"
  by (simp add: hdr_wf_def hdr_pn_def)

lemma pn_len_byte:
  assumes "unat (ph_pn_len hdr) \<in> {1..4}"
  shows "ucast (ph_pn_len hdr) - 1 = (of_nat (unat (ph_pn_len hdr) - 1) :: u8)" "\<not> bad_pn_len hdr"
proof -
  have "ph_pn_len hdr = of_nat (unat (ph_pn_len hdr))" by simp
  then have "ph_pn_len hdr = 1 \<or> ph_pn_len hdr = 2 \<or> ph_pn_len hdr = 3 \<or> ph_pn_len hdr = 4"
    using pn_len_cases [OF assms] by (metis of_nat_1 of_nat_numeral)
  then show "ucast (ph_pn_len hdr) - 1 = (of_nat (unat (ph_pn_len hdr) - 1) :: u8)" "\<not> bad_pn_len hdr"
    by (auto simp: bad_pn_len_def)
qed

lemma short_first_byte_eq:
  "unat (ph_pn_len hdr) \<in> {1..4} \<Longrightarrow>
    short_first_byte hdr = short_byte (ph_spin_bit hdr) (ph_key_phase hdr) (ph_reserved hdr) (unat (ph_pn_len hdr))"
  unfolding short_first_byte_def short_byte_def pn_len_byte by (simp only: ac_simps)

lemma short_scid:
  assumes p: "pkt_of_hdr hdr payload = p" and wf: "hdr_wf hdr payload" and type: "hdr_type hdr = QUIC_PKT_TYPE_1RTT"
    and ok: "pkt_fields_ok (unat scid) p"
  shows "ucast (id_len (ph_dst_conn_id hdr)) = scid"
proof -
  have "unat (id_len (ph_dst_conn_id hdr)) = unat scid"
    using ok wf type unfolding p [symmetric] pkt_of_hdr_def by (simp add: hdr_wf_def cid_bytes_def)
  then show ?thesis
    using unsigned_less [of "id_len (ph_dst_conn_id hdr)", where 'a = nat]
    by (simp add: word_unat_eq_iff unsigned_ucast_eq take_bit_nat_eq_self)
qed

lemma encode_short_writes:
  assumes p: "pkt_of_hdr hdr payload = p" and wf: "hdr_wf hdr payload" and type: "hdr_type hdr = QUIC_PKT_TYPE_1RTT"
    and ok: "pkt_fields_ok (unat scid) p" and room: "wp_room cap pkt (length (pkt_hdr_bytes p) + n)"
  obtains pkt' where "encode_short_hdr scid hdr pkt = Some (Some (w_written pkt + of_nat (1 + length (pkt_mid p))), pkt')"
    "wp_ext cap pkt pkt' (pkt_hdr_bytes p)" "wp_room cap pkt' n"
proof -
  let ?dcid = "cid_bytes (ph_dst_conn_id hdr)"
  have pe: "p = ShortPkt (ph_spin_bit hdr) (ph_key_phase hdr) (ph_reserved hdr) ?dcid (hdr_pn hdr) payload"
    using type unfolding p [symmetric] pkt_of_hdr_def by (simp add: hdr_pn_def)
  have dl: "length ?dcid = unat (id_len (ph_dst_conn_id hdr))" using wf by (simp add: hdr_wf_def cid_bytes_def)
  then have id: "unat (id_len (ph_dst_conn_id hdr)) = unat scid" "unat scid \<le> QUIC_MAX_CONN_ID_LEN"
    and n: "unat (ph_pn_len hdr) \<in> {1..4}"
    using ok length_hdr_pn [OF wf] by (simp_all add: pe)
  have "writes (all_ok [WPACKET_put_bytes_n (ucast (short_first_byte hdr)) 1,
      WPACKET_memcpy (take (unat scid) (cid_id (ph_dst_conn_id hdr)))]) ([short_first_byte hdr] @ ?dcid @ [])"
    using id wf by (intro writes_parts put_1_byte) (simp_all add: writes_memcpy cid_bytes_def QUIC_MAX_CONN_ID_LEN_def)
  then have head: "writes (all_ok [WPACKET_put_bytes_n (ucast (short_first_byte hdr)) 1,
      WPACKET_memcpy (take (unat scid) (cid_id (ph_dst_conn_id hdr)))]) (pkt_first p # pkt_mid p)"
    using n short_first_byte_eq [OF n] length_hdr_pn [OF wf] by (simp add: pe)
  have "wp_room cap pkt (length (pkt_first p # pkt_mid p) + (length (hdr_pn hdr) + n))" "length (hdr_pn hdr) \<le> 4"
    using room n length_hdr_pn [OF wf] by (simp_all add: pkt_hdr_bytes_def pe add.assoc)
  from head_pn_writes [OF head this(1) hdr_pn_def this(2)] obtain pkt' where
    "wbind (all_ok [WPACKET_put_bytes_n (ucast (short_first_byte hdr)) 1,
      WPACKET_memcpy (take (unat scid) (cid_id (ph_dst_conn_id hdr)))]) (\<lambda>_. encode_pn_field hdr) pkt =
      Some (Some (w_written pkt + of_nat (length (pkt_first p # pkt_mid p))), pkt')"
    "wp_ext cap pkt pkt' ((pkt_first p # pkt_mid p) @ hdr_pn hdr)" "wp_room cap pkt' n" .
  then show thesis
    using that id short_scid [OF p wf type ok] pn_len_byte(2) [OF n] by (simp add: encode_short_hdr_def pkt_hdr_bytes_def pe)
qed

text \<open>The fields that all long headers share.\<close>

definition long_head :: "pkt_hdr \<Rightarrow> u8 \<Rightarrow> unit wop" where
  "long_head hdr raw_type =
     all_ok [WPACKET_put_bytes_n (ucast (long_first_byte hdr raw_type)) 1,
       WPACKET_put_bytes_n (ucast (ph_version hdr)) 4, encode_conn_id (ph_dst_conn_id hdr),
       encode_conn_id (ph_src_conn_id hdr)]"

lemma version_bytes: "be_bytes 4 (ucast QUIC_VERSION_NONE) = [0, 0, 0, 0]" "be_bytes 4 (ucast QUIC_VERSION_1) = [0, 0, 0, 1]"
  by code_simp+

lemma long_head_writes:
  assumes "hdr_wf hdr payload" "hdr_type hdr \<noteq> QUIC_PKT_TYPE_1RTT"
  shows "writes (long_head hdr raw_type) ([long_first_byte hdr raw_type] @
    (if hdr_type hdr = QUIC_PKT_TYPE_VERSION_NEG then [0, 0, 0, 0] else [0, 0, 0, 1]) @
    cid_field (cid_bytes (ph_dst_conn_id hdr)) @ cid_field (cid_bytes (ph_src_conn_id hdr)) @ [])"
proof -
  have "writes (WPACKET_put_bytes_n (ucast (ph_version hdr)) 4)
      (if hdr_type hdr = QUIC_PKT_TYPE_VERSION_NEG then [0, 0, 0, 0] else [0, 0, 0, 1])"
    using put_4_bytes [of "ucast QUIC_VERSION_NONE"] put_4_bytes [of "ucast QUIC_VERSION_1"] assms
    unfolding version_bytes by (auto simp: hdr_wf_def QUIC_VERSION_NONE_def QUIC_VERSION_1_def)
  then show ?thesis
    unfolding long_head_def using assms(1) by (intro writes_parts put_1_byte writes_cid) (auto simp: hdr_wf_def)
qed

lemma token_writes:
  assumes "hdr_wf hdr payload" "case kind_of hdr of KInitial token \<Rightarrow> length token < 2 ^ 62 | _ \<Rightarrow> True"
  shows "writes (if hdr_type hdr = QUIC_PKT_TYPE_INITIAL
      then all_ok [WPACKET_quic_write_vlint (ph_token_len hdr), memcpy_from (ph_token hdr) (ph_token_len hdr)]
      else wret ()) (token_field (kind_of hdr))"
proof (cases "hdr_type hdr = QUIC_PKT_TYPE_INITIAL")
  case True
  define token where "token = (case ph_token hdr of None \<Rightarrow> [] | Some t \<Rightarrow> take (unat (ph_token_len hdr)) t)"
  have k: "kind_of hdr = KInitial token" using True by (simp add: kind_of_def token_def)
  have tl: "length token = unat (ph_token_len hdr)"
    using assms(1) True by (auto simp: hdr_wf_def token_def split: option.splits)
  have "writes (memcpy_from (ph_token hdr) (ph_token_len hdr)) token"
    using assms True tl unat_u64_bound [of "ph_token_len hdr"]
    by (auto simp: memcpy_from_def hdr_wf_def token_def split: option.splits intro!: writes_memcpy)
  moreover have "vlint_ok (ph_token_len hdr)" using assms(2) tl vlint_ok_length [of "length token"] by (simp add: k)
  ultimately have "writes (all_ok [WPACKET_quic_write_vlint (ph_token_len hdr),
      memcpy_from (ph_token hdr) (ph_token_len hdr)]) (vl (ph_token_len hdr) @ token @ [])"
    by (intro writes_parts)
  then show ?thesis using True tl by (simp add: k)
qed (simp add: kind_of_def)

lemma raw_hdr_type_eq:
  assumes "hdr_wf hdr payload" "hdr_type hdr \<noteq> QUIC_PKT_TYPE_1RTT"
  shows "raw_hdr_type hdr =
    Some (if hdr_type hdr = QUIC_PKT_TYPE_VERSION_NEG then 0
          else if hdr_type hdr = QUIC_PKT_TYPE_RETRY then 3 else kind_bits (kind_of hdr))"
  using assms by (auto simp: raw_hdr_type_def hdr_wf_def kind_of_def pkt_types QUIC_VERSION_NONE_def)

lemma encode_long_numbered:
  assumes p: "pkt_of_hdr hdr payload = p" and wf: "hdr_wf hdr payload"
    and type: "hdr_type hdr \<notin> {QUIC_PKT_TYPE_1RTT, QUIC_PKT_TYPE_VERSION_NEG, QUIC_PKT_TYPE_RETRY}"
    and ok: "pkt_fields_ok k p" and room: "wp_room cap pkt (length (pkt_hdr_bytes p) + n)"
  obtains pkt' where "encode_long_hdr hdr pkt = Some (Some (Some (w_written pkt + of_nat (1 + length (pkt_mid p)))), pkt')"
    "wp_ext cap pkt pkt' (pkt_hdr_bytes p)" "wp_room cap pkt' n"
proof -
  let ?dcid = "cid_bytes (ph_dst_conn_id hdr)" and ?scid = "cid_bytes (ph_src_conn_id hdr)"
  let ?raw = "kind_bits (kind_of hdr)"
  let ?token = "if hdr_type hdr = QUIC_PKT_TYPE_INITIAL
    then all_ok [WPACKET_quic_write_vlint (ph_token_len hdr), memcpy_from (ph_token hdr) (ph_token_len hdr)] else wret ()"
  let ?len = "WPACKET_quic_write_vlint (ph_len hdr + ucast (ph_pn_len hdr))"
  let ?head = "wbind (long_head hdr ?raw) (\<lambda>_. wbind ?token (\<lambda>_. ?len))"
  have pe: "p = NumberedPkt (kind_of hdr) (ph_reserved hdr) ?dcid ?scid (hdr_pn hdr) payload"
    using type unfolding p [symmetric] pkt_of_hdr_def by (simp add: hdr_pn_def)
  have n: "unat (ph_pn_len hdr) \<in> {1..4}" "length (hdr_pn hdr) \<le> 4" "length (hdr_pn hdr) + length payload < 2 ^ 62"
    and tok: "case kind_of hdr of KInitial token \<Rightarrow> length token < 2 ^ 62 | _ \<Rightarrow> True"
    using ok length_hdr_pn [OF wf] by (simp_all add: pe)
  have haspn: "ossl_quic_pkt_type_has_pn (hdr_type hdr)" using type by (simp add: pkt_type_tests)
  have first: "long_first_byte hdr ?raw = pkt_first p"
    using type haspn length_hdr_pn [OF wf] unfolding long_first_byte_def pn_len_byte(1) [OF n(1)]
    by (simp add: pe long_byte_def ac_simps)
  have len: "ph_len hdr + ucast (ph_pn_len hdr) = of_nat (length (hdr_pn hdr) + length payload)"
    using wf length_hdr_pn [OF wf] by (simp add: hdr_wf_def)
  have "writes ?head (([long_first_byte hdr ?raw] @ (if hdr_type hdr = QUIC_PKT_TYPE_VERSION_NEG then [0, 0, 0, 0] else [0, 0, 0, 1]) @
      cid_field ?dcid @ cid_field ?scid @ []) @ token_field (kind_of hdr) @ vl (of_nat (length (hdr_pn hdr) + length payload)))"
    unfolding len using type
    by (intro writes_bind long_head_writes [OF wf] token_writes [OF wf tok] writes_vlint_ok vlint_ok_length n(3)) simp
  then have head: "writes ?head (pkt_first p # pkt_mid p)" using type by (simp add: first pe)
  have "wp_room cap pkt (length (pkt_first p # pkt_mid p) + (length (hdr_pn hdr) + n))"
    using room by (simp add: pkt_hdr_bytes_def pe add.assoc)
  from head_pn_writes [OF head this hdr_pn_def n(2)] obtain pkt' where
    "wbind ?head (\<lambda>_. encode_pn_field hdr) pkt = Some (Some (w_written pkt + of_nat (length (pkt_first p # pkt_mid p))), pkt')"
    "wp_ext cap pkt pkt' ((pkt_first p # pkt_mid p) @ hdr_pn hdr)" "wp_room cap pkt' n" .
  moreover have "encode_long_hdr hdr = wbind (wbind ?head (\<lambda>_. encode_pn_field hdr)) (\<lambda>off_pn. wret (Some off_pn))"
    using wf type pn_len_byte(2) [OF n(1)] raw_hdr_type_eq [OF wf] unfolding encode_long_hdr_def
    by (simp add: hdr_wf_def long_head_def wbind_assoc)
  ultimately show thesis
    using that by (simp add: wbind_def wret_def pkt_hdr_bytes_def pe)
qed

lemma encode_long_plain:
  assumes p: "pkt_of_hdr hdr payload = p" and wf: "hdr_wf hdr payload"
    and type: "hdr_type hdr \<in> {QUIC_PKT_TYPE_VERSION_NEG, QUIC_PKT_TYPE_RETRY}"
    and room: "wp_room cap pkt (length (pkt_hdr_bytes p) + n)"
  obtains pkt' where "encode_long_hdr hdr pkt = Some (Some None, pkt')"
    "wp_ext cap pkt pkt' (pkt_hdr_bytes p)" "wp_room cap pkt' n"
proof -
  let ?raw = "if hdr_type hdr = QUIC_PKT_TYPE_VERSION_NEG then 0 else 3"
  have t: "hdr_type hdr \<noteq> QUIC_PKT_TYPE_1RTT" using type by (auto simp: pkt_types)
  have nopn: "\<not> ossl_quic_pkt_type_has_pn (hdr_type hdr)" using type by (auto simp: pkt_type_tests)
  have bits: "48 OR 128 OR 64 OR u = 240 OR (u :: u8)" for u by (simp flip: or.assoc)
  have "pkt_hdr_bytes p = [long_first_byte hdr ?raw] @
      (if hdr_type hdr = QUIC_PKT_TYPE_VERSION_NEG then [0, 0, 0, 0] else [0, 0, 0, 1]) @
      cid_field (cid_bytes (ph_dst_conn_id hdr)) @ cid_field (cid_bytes (ph_src_conn_id hdr)) @ []"
    using type nopn unfolding p [symmetric] pkt_of_hdr_def long_first_byte_def pkt_hdr_bytes_def
    by (auto simp: pkt_types bits)
  then have head: "writes (long_head hdr ?raw) (pkt_hdr_bytes p)" using long_head_writes [OF wf t] by simp
  obtain pkt' where "long_head hdr ?raw pkt = Some (Some (), pkt')" "wp_ext cap pkt pkt' (pkt_hdr_bytes p)" "wp_room cap pkt' n"
    using writes_then [OF head room] .
  moreover have "encode_long_hdr hdr = wbind (long_head hdr ?raw) (\<lambda>_. wret None)"
    using wf type nopn raw_hdr_type_eq [OF wf t] unfolding encode_long_hdr_def
    by (auto simp: hdr_wf_def long_head_def)
  ultimately show thesis using that by (simp add: wbind_def wret_def)
qed

text \<open>The pointers into the buffer that holds the packet at offset \<open>w\<close>.\<close>

definition packet_ptrs :: "nat \<Rightarrow> nat \<Rightarrow> nat option \<Rightarrow> pkt_hdr_ptrs" where
  "packet_ptrs w l pn =
     (case pn of None \<Rightarrow> no_ptrs
      | Some i \<Rightarrow> \<lparr>raw_start = Some w, raw_sample = Some (w + i + 4), raw_sample_len = of_nat l - of_nat (i + 4),
                   raw_pn = Some (w + i)\<rparr>)"

lemma encode_fields_writes:
  assumes p: "pkt_of_hdr hdr payload = p" and wf: "hdr_wf hdr payload" and ok: "pkt_fields_ok (unat scid) p"
    and room: "wp_room cap pkt (length (pkt_hdr_bytes p) + n)"
  obtains pkt' where "(if hdr_type hdr = QUIC_PKT_TYPE_1RTT
      then wbind (encode_short_hdr scid hdr) (\<lambda>off_pn. wret (Some off_pn)) else encode_long_hdr hdr) pkt =
      Some (Some (map_option (\<lambda>i. w_written pkt + of_nat i) (pn_pos p)), pkt')"
    "wp_ext cap pkt pkt' (pkt_hdr_bytes p)" "wp_room cap pkt' n"
proof -
  consider "hdr_type hdr = QUIC_PKT_TYPE_1RTT" | "hdr_type hdr \<in> {QUIC_PKT_TYPE_VERSION_NEG, QUIC_PKT_TYPE_RETRY}"
    | "hdr_type hdr \<notin> {QUIC_PKT_TYPE_1RTT, QUIC_PKT_TYPE_VERSION_NEG, QUIC_PKT_TYPE_RETRY}"
    by auto
  then show thesis
  proof cases
    case 1
    then have "pkt_pn p \<noteq> []" using ok unfolding p [symmetric] by (auto simp: pkt_of_hdr_def Let_def)
    moreover obtain pkt' where "encode_short_hdr scid hdr pkt = Some (Some (w_written pkt + of_nat (1 + length (pkt_mid p))), pkt')"
      "wp_ext cap pkt pkt' (pkt_hdr_bytes p)" "wp_room cap pkt' n"
      using encode_short_writes [OF p wf 1 ok room] .
    ultimately show thesis using 1 by (intro that [of pkt']) (simp_all add: wbind_def wret_def pn_pos_def)
  next
    case 2
    then have "pkt_pn p = []" unfolding p [symmetric] by (auto simp: pkt_of_hdr_def Let_def pkt_types)
    moreover obtain pkt' where "encode_long_hdr hdr pkt = Some (Some None, pkt')"
      "wp_ext cap pkt pkt' (pkt_hdr_bytes p)" "wp_room cap pkt' n"
      using encode_long_plain [OF p wf 2 room] .
    moreover have "hdr_type hdr \<noteq> QUIC_PKT_TYPE_1RTT" using 2 by (auto simp: pkt_types)
    ultimately show thesis by (intro that [of pkt']) (simp_all add: pn_pos_def)
  next
    case 3
    then have "pkt_pn p \<noteq> []" using ok unfolding p [symmetric] by (auto simp: pkt_of_hdr_def Let_def)
    moreover obtain pkt' where "encode_long_hdr hdr pkt = Some (Some (Some (w_written pkt + of_nat (1 + length (pkt_mid p)))), pkt')"
      "wp_ext cap pkt pkt' (pkt_hdr_bytes p)" "wp_room cap pkt' n"
      using encode_long_numbered [OF p wf 3 ok room] .
    ultimately show thesis using 3 by (intro that [of pkt']) (simp_all add: pn_pos_def)
  qed
qed

lemma encoded_ptrs_eq:
  assumes "i < 2 ^ 62" "unat w' = unat w + h" "l = h + n"
  shows "encoded_ptrs (unat w) w (w + of_nat i) (of_nat n) (unat w') = packet_ptrs (unat w) l (Some i)"
proof -
  have "unat (w + of_nat i + 4 - w) = unat (of_nat (i + 4) :: size_t)" "unat (w + of_nat i - w) = unat (of_nat i :: size_t)"
    by simp_all
  then have "unat (w + of_nat i + 4 - w) = i + 4" "unat (w + of_nat i - w) = i"
    using assms(1) unat_of_nat_u64 [of "i + 4"] unat_of_nat_u64 [of i] by (simp_all only:) simp_all
  moreover have "(of_nat (unat w') :: size_t) = of_nat (unat w + h)" using assms(2) by simp
  ultimately show ?thesis using assms(3) by (simp add: encoded_ptrs_def packet_ptrs_def Let_def)
qed

lemma get_curr_static: "wp_room cap pkt n \<Longrightarrow> \<not> is_grow pkt \<Longrightarrow> WPACKET_get_curr pkt = Some (unat (w_written pkt))"
  using static_room [of cap pkt] by (auto simp: wp_room_def wp_ok_def WPACKET_get_curr_def GETBUF_def)

lemma encode_pkt_hdr_writes:
  assumes p: "pkt_of_hdr hdr payload = p" and wf: "hdr_wf hdr payload" and ok: "pkt_fields_ok (unat scid) p"
    and room: "wp_room cap pkt (length (pkt_bytes p))" "length (pkt_bytes p) < 2 ^ 62" and static: "\<not> is_grow pkt"
  obtains pkt' where "ossl_quic_wire_encode_pkt_hdr scid hdr True pkt =
      Some (Some (packet_ptrs (unat (w_written pkt)) (length (pkt_bytes p)) (pn_pos p)), pkt')"
    "wp_ext cap pkt pkt' (pkt_hdr_bytes p)"
proof -
  have pl: "pkt_payload p = payload" unfolding p [symmetric] by (simp add: pkt_of_hdr_def Let_def)
  then have room': "wp_room cap pkt (length (pkt_hdr_bytes p) + length payload)" using room by (simp add: pkt_bytes_def)
  obtain pkt' where 1: "(if hdr_type hdr = QUIC_PKT_TYPE_1RTT
      then wbind (encode_short_hdr scid hdr) (\<lambda>off_pn. wret (Some off_pn)) else encode_long_hdr hdr) pkt =
      Some (Some (map_option (\<lambda>i. w_written pkt + of_nat i) (pn_pos p)), pkt')"
    "wp_ext cap pkt pkt' (pkt_hdr_bytes p)" "wp_room cap pkt' (length payload)"
    using encode_fields_writes [OF p wf ok room'] .
  have st: "\<not> is_grow pkt'" using 1(2) static by (simp add: wp_ext_def)
  have "length payload < 2 ^ 62" using room(2) pl by (simp add: pkt_bytes_def)
  then have "unat (ph_len hdr) = length payload" using wf by (simp add: hdr_wf_def unat_of_nat_u64 del: unat_of_nat)
  then have 2: "reserve_payload hdr pkt' = Some (Some (), pkt')" using reserve_payload_static 1(3) st by simp
  have curr: "WPACKET_get_curr pkt = Some (unat (w_written pkt))" "WPACKET_get_curr pkt' = Some (unat (w_written pkt'))"
    using get_curr_static room(1) static 1(3) st by blast+
  have ok0: "wp_ok cap pkt" using room by (simp add: wp_room_def)
  have len: "ph_len hdr = of_nat (length payload)" using wf by (simp add: hdr_wf_def)
  have ptrs: "encoded_ptrs (unat (w_written pkt)) (w_written pkt) (w_written pkt + of_nat i) (ph_len hdr) (unat (w_written pkt')) =
      packet_ptrs (unat (w_written pkt)) (length (pkt_bytes p)) (Some i)" if "pn_pos p = Some i" for i
    unfolding len
  proof (rule encoded_ptrs_eq [OF _ wp_ext_written [OF ok0 1(2)]])
    show "i < 2 ^ 62" using that room(2) by (auto simp: pn_pos_def pkt_bytes_def pkt_hdr_bytes_def split: if_splits)
  qed (simp add: pkt_bytes_def pl)
  have enc: "\<not> (ph_partial hdr \<or> hdr_type hdr = QUIC_PKT_TYPE_1RTT \<and> ucast (id_len (ph_dst_conn_id hdr)) \<noteq> scid)"
    using wf short_scid [OF p wf _ ok] by (auto simp: hdr_wf_def)
  obtain d where "w_buf pkt = StaticBuf d" using static_room [OF ok0 static] by blast
  then show thesis
    using 1(1,2) 2 curr enc ptrs that
    by (cases "pn_pos p") (auto simp: ossl_quic_wire_encode_pkt_hdr_def wbind_def WPACKET_get_total_written_def Let_def
        packet_ptrs_def wret_def)
qed

section \<open>The length of the encoded header\<close>

lemma vl_length: "vlint_ok v \<Longrightarrow> of_nat (length (vl v)) = ossl_quic_vlint_encode_len v \<and> ossl_quic_vlint_encode_len v \<noteq> 0"
  by (simp add: vlint_ok_def length_vlint_encode vlint_encode_len_pos)

lemma token_field_length:
  assumes "hdr_wf hdr payload" "case kind_of hdr of KInitial token \<Rightarrow> length token < 2 ^ 62 | _ \<Rightarrow> True"
  shows "of_nat (length (token_field (kind_of hdr))) =
    (if hdr_type hdr = QUIC_PKT_TYPE_INITIAL then ossl_quic_vlint_encode_len (ph_token_len hdr) + ph_token_len hdr else 0 :: size_t)"
    "hdr_type hdr = QUIC_PKT_TYPE_INITIAL \<Longrightarrow> ossl_quic_vlint_encode_len (ph_token_len hdr) \<noteq> 0"
proof -
  have "of_nat (length (token_field (kind_of hdr))) = ossl_quic_vlint_encode_len (ph_token_len hdr) + ph_token_len hdr \<and>
    ossl_quic_vlint_encode_len (ph_token_len hdr) \<noteq> 0" if t: "hdr_type hdr = QUIC_PKT_TYPE_INITIAL"
  proof -
    define token where "token = (case ph_token hdr of None \<Rightarrow> [] | Some t \<Rightarrow> take (unat (ph_token_len hdr)) t)"
    have k: "kind_of hdr = KInitial token" using t by (simp add: kind_of_def token_def)
    have "length token = unat (ph_token_len hdr)"
      using assms(1) t by (auto simp: hdr_wf_def token_def split: option.splits)
    then have "of_nat (length token) = ph_token_len hdr" by simp
    then show ?thesis using assms(2) vl_length [OF vlint_ok_length [of "length token"]] by (simp add: k)
  qed
  moreover have "token_field (kind_of hdr) = []" if "hdr_type hdr \<noteq> QUIC_PKT_TYPE_INITIAL"
    using that by (simp add: kind_of_def)
  ultimately show "of_nat (length (token_field (kind_of hdr))) =
    (if hdr_type hdr = QUIC_PKT_TYPE_INITIAL then ossl_quic_vlint_encode_len (ph_token_len hdr) + ph_token_len hdr else 0 :: size_t)"
    "hdr_type hdr = QUIC_PKT_TYPE_INITIAL \<Longrightarrow> ossl_quic_vlint_encode_len (ph_token_len hdr) \<noteq> 0"
    by auto
qed

lemma encoded_hdr_len_eq:
  assumes p: "pkt_of_hdr hdr payload = p" and wf: "hdr_wf hdr payload" and ok: "pkt_fields_ok (unat scid) p"
  shows "encoded_hdr_len scid hdr = of_nat (length (pkt_hdr_bytes p))"
proof -
  let ?dcid = "cid_bytes (ph_dst_conn_id hdr)" and ?scid = "cid_bytes (ph_src_conn_id hdr)"
  have lens: "length ?dcid = unat (id_len (ph_dst_conn_id hdr))" "length ?scid = unat (id_len (ph_src_conn_id hdr))"
    using wf by (simp_all add: hdr_wf_def cid_bytes_def)
  consider "hdr_type hdr = QUIC_PKT_TYPE_1RTT" | "hdr_type hdr \<in> {QUIC_PKT_TYPE_VERSION_NEG, QUIC_PKT_TYPE_RETRY}"
    | "hdr_type hdr \<notin> {QUIC_PKT_TYPE_1RTT, QUIC_PKT_TYPE_VERSION_NEG, QUIC_PKT_TYPE_RETRY}"
    by auto
  then show ?thesis
  proof cases
    case 1
    have pe: "p = ShortPkt (ph_spin_bit hdr) (ph_key_phase hdr) (ph_reserved hdr) ?dcid (hdr_pn hdr) payload"
      using 1 unfolding p [symmetric] pkt_of_hdr_def by (simp add: hdr_pn_def)
    have n: "unat (ph_pn_len hdr) \<in> {1..4}" using ok length_hdr_pn [OF wf] by (simp add: pe)
    show ?thesis
      using 1 ok wf lens short_scid [OF p wf 1 ok] pn_len_byte(2) [OF n] length_hdr_pn [OF wf]
      by (simp add: encoded_hdr_len_def pe pkt_hdr_bytes_def hdr_wf_def)
  next
    case 2
    then have t: "hdr_type hdr \<noteq> QUIC_PKT_TYPE_1RTT" "hdr_type hdr \<noteq> QUIC_PKT_TYPE_INITIAL"
      "\<not> ossl_quic_pkt_type_has_pn (hdr_type hdr)" "ossl_quic_pkt_type_must_be_last (hdr_type hdr)"
      by (auto simp: pkt_types pkt_type_tests)
    have "length (pkt_hdr_bytes p) = 7 + length ?dcid + length ?scid"
      using 2 t(1) unfolding p [symmetric] pkt_of_hdr_def
      by (auto simp: pkt_hdr_bytes_def cid_field_def Let_def pkt_types)
    then show ?thesis using wf t lens by (simp add: encoded_hdr_len_def hdr_wf_def)
  next
    case 3
    then have t: "hdr_type hdr \<noteq> QUIC_PKT_TYPE_1RTT" "ossl_quic_pkt_type_has_pn (hdr_type hdr)"
      "\<not> ossl_quic_pkt_type_must_be_last (hdr_type hdr)"
      by (simp_all add: pkt_type_tests)
    have pe: "p = NumberedPkt (kind_of hdr) (ph_reserved hdr) ?dcid ?scid (hdr_pn hdr) payload"
      using 3 unfolding p [symmetric] pkt_of_hdr_def by (simp add: hdr_pn_def)
    have n: "unat (ph_pn_len hdr) \<in> {1..4}" "length (hdr_pn hdr) + length payload < 2 ^ 62"
      and tok: "case kind_of hdr of KInitial token \<Rightarrow> length token < 2 ^ 62 | _ \<Rightarrow> True"
      using ok length_hdr_pn [OF wf] by (simp_all add: pe)
    have len: "ph_len hdr + ucast (ph_pn_len hdr) = of_nat (length (hdr_pn hdr) + length payload)"
      using wf length_hdr_pn [OF wf] by (simp add: hdr_wf_def)
    note field = vl_length [OF vlint_ok_length [OF n(2)], folded len]
    note token = token_field_length [OF wf tok]
    have "of_nat (length (pkt_hdr_bytes p)) = (7 + ucast (id_len (ph_dst_conn_id hdr)) + ucast (id_len (ph_src_conn_id hdr)) +
      ucast (ph_pn_len hdr) + of_nat (length (token_field (kind_of hdr))) +
      ossl_quic_vlint_encode_len (ph_len hdr + ucast (ph_pn_len hdr)) :: size_t)"
      using field lens length_hdr_pn [OF wf] unfolding pe pkt_hdr_bytes_def pkt_mid.simps pkt_pn.simps len [symmetric]
      by (simp add: cid_field_def algebra_simps)
    then show ?thesis
      using wf t token field pn_len_byte(2) [OF n(1)] by (auto simp: encoded_hdr_len_def hdr_wf_def Let_def)
  qed
qed

end
