(* ===== verification/PktProtect.thy ===== *)
theory PktProtect
  imports PktEncode
begin

text \<open>
  Header protection: what protecting a packet changes, that removing the protection undoes it, and when both
  succeed, given a sound cipher.
\<close>

section \<open>Masking\<close>

text \<open>The mask depends on the first 16 bytes of the sample only, and has five bytes.\<close>

lemma mask_sample:
  assumes "hdr_generate_mask hpr sample n = Some (Some m)" "take 16 sample' = take 16 sample" "16 \<le> n'"
  shows "hdr_generate_mask hpr sample' n' = Some (Some m)"
proof -
  have len: "16 \<le> length sample" "\<not> n < 16"
    using assms(1) by (auto simp: hdr_generate_mask_def split: if_splits option.splits)
  then have "(length sample' < 16) = False" "(n' < 16) = False" "(length sample < 16) = False" "(n < 16) = False"
    using arg_cong [OF assms(2), of length] assms(3) by auto
  then have "hdr_generate_mask hpr sample' n' = hdr_generate_mask hpr sample n"
    unfolding hdr_generate_mask_def assms(2) by (simp only: if_False)
  then show ?thesis using assms(1) by simp
qed

lemma mask_length: "hdr_generate_mask hpr sample n = Some (Some m) \<Longrightarrow> length m = 5 \<and> 16 \<le> length sample"
  by (auto simp: hdr_generate_mask_def split: if_splits option.splits)

lemma xor_pn_twice:
  assumes "xor_pn n m bs = Some bs'"
  shows "xor_pn n m bs' = Some bs" "length bs' = length bs" "drop n bs' = drop n bs"
proof -
  have len: "n \<le> length bs" "n + 1 \<le> length m"
    and bs': "bs' = map2 (XOR) (take n bs) (take n (tl m)) @ drop n bs"
    using assms by (auto simp: xor_pn_def split: if_splits)
  let ?x = "map2 (XOR) (take n bs) (take n (tl m))"
  have x: "length ?x = n" using len by simp
  then have parts: "take n bs' = ?x" "drop n bs' = drop n bs" by (simp_all add: bs')
  have "map2 (XOR) ?x (take n (tl m)) = take n bs"
    using len by (intro nth_equalityI) (auto simp: nth_tl xor.assoc)
  then show "xor_pn n m bs' = Some bs" "length bs' = length bs" "drop n bs' = drop n bs"
    using len x parts by (auto simp: xor_pn_def bs')
qed

lemma and_mask_top: "(k :: u8) AND j = 0 \<Longrightarrow> (b XOR (m AND k)) AND j = b AND j"
  by (simp add: bit.conj_xor_distrib2 and.assoc)

lemma first_byte_mask_top: "(b XOR first_byte_mask b m) AND 0x80 = b AND 0x80"
  unfolding first_byte_mask_def by (rule and_mask_top) simp

lemma first_byte_twice: "(b XOR first_byte_mask b m) XOR first_byte_mask (b XOR first_byte_mask b m) m = b"
proof -
  have "first_byte_mask (b XOR first_byte_mask b m) m = first_byte_mask b m"
    using first_byte_mask_top [of b m] unfolding first_byte_mask_def [of "b XOR first_byte_mask b m"]
    by (simp add: first_byte_mask_def)
  then show ?thesis by (simp add: xor.assoc)
qed

lemma fields_roundtrip:
  assumes "ossl_quic_hdr_protector_encrypt_fields hpr sample n b pn = Some (Some (b', pn'))"
    and "take 16 sample' = take 16 sample" "16 \<le> n'"
  shows "ossl_quic_hdr_protector_decrypt_fields hpr sample' n' b' pn' = Some (Some (b, pn))"
    "length pn' = length pn" "drop (unat (b AND 3) + 1) pn' = drop (unat (b AND 3) + 1) pn"
    "\<exists>m. b' = b XOR first_byte_mask b m"
proof -
  obtain m where m: "hdr_generate_mask hpr sample n = Some (Some m)"
    using assms(1) by (auto simp: ossl_quic_hdr_protector_encrypt_fields_def split: option.splits)
  have x: "xor_pn (unat (b AND 3) + 1) m pn = Some pn'" and b: "b' = b XOR first_byte_mask b m"
    using assms(1) m by (auto simp: ossl_quic_hdr_protector_encrypt_fields_def Let_def split: option.splits)
  show "ossl_quic_hdr_protector_decrypt_fields hpr sample' n' b' pn' = Some (Some (b, pn))"
    using mask_sample [OF m assms(2,3)] xor_pn_twice(1) [OF x] first_byte_twice [of b m]
    by (simp add: ossl_quic_hdr_protector_decrypt_fields_def Let_def b)
  show "length pn' = length pn" "drop (unat (b AND 3) + 1) pn' = drop (unat (b AND 3) + 1) pn"
    using xor_pn_twice(2,3) [OF x] by simp_all
  show "\<exists>m. b' = b XOR first_byte_mask b m" using b by blast
qed

lemma encrypt_fields_sample:
  assumes "ossl_quic_hdr_protector_encrypt_fields hpr sample n b pn = Some (Some (b', pn'))"
  shows "16 \<le> length sample" "unat (b AND 3) + 1 \<le> 4"
proof -
  obtain m where "hdr_generate_mask hpr sample n = Some (Some m)" "xor_pn (unat (b AND 3) + 1) m pn \<noteq> None"
    using assms by (auto simp: ossl_quic_hdr_protector_encrypt_fields_def Let_def split: option.splits)
  then show "16 \<le> length sample" "unat (b AND 3) + 1 \<le> 4"
    using mask_length [of hpr sample n m] by (auto simp: xor_pn_def split: if_splits)
qed

lemma same_form_masked:
  assumes "pkt_pn p \<noteq> []" "pkt_fields_ok n p"
  shows "same_form p (pkt_first p XOR first_byte_mask (pkt_first p) m)"
proof (cases p)
  case (ShortPkt spin kp r dcid pn payload)
  have "drop_bit 5 (b XOR (x AND mask 5)) = drop_bit 5 b" for b x :: u8
    by (rule bit_word_eqI) (auto simp: bit_simps)
  moreover have "(mask 5 :: u8) = 0x1f" by (simp add: mask_eq_exp_minus_1)
  moreover have "pkt_first p AND 0x80 = 0"
    using short_byte_fields(1) [of "length pn" spin kp r] and_top_bits [of "pkt_first p" 5 4] assms(2) ShortPkt
    by (cases spin) simp_all
  ultimately show ?thesis using ShortPkt by (simp add: same_form_def first_byte_mask_def)
next
  case (NumberedPkt kind r dcid s pn payload)
  have "drop_bit 4 (b XOR (x AND mask 4)) = drop_bit 4 b" for b x :: u8
    by (rule bit_word_eqI) (auto simp: bit_simps)
  moreover have "(mask 4 :: u8) = 0xf" by (simp add: mask_eq_exp_minus_1)
  moreover have "pkt_first p AND 0x80 \<noteq> 0"
    using long_byte_fields(1) [of "length pn" "kind_bits kind" kind r] and_top_bits [of "pkt_first p" 4 8] assms(2) NumberedPkt
    by (cases kind) simp_all
  ultimately show ?thesis using NumberedPkt by (simp add: same_form_def first_byte_mask_def)
qed (use assms in simp_all)

lemma xor_pn_append: "xor_pn n m bs = Some bs' \<Longrightarrow> xor_pn n m (bs @ r) = Some (bs' @ r)"
  by (auto simp: xor_pn_def split: if_splits)

lemma decrypt_fields_append:
  "ossl_quic_hdr_protector_decrypt_fields hpr sample n b pn = Some (Some (b', pn')) \<Longrightarrow>
    ossl_quic_hdr_protector_decrypt_fields hpr sample n b (pn @ r) = Some (Some (b', pn' @ r))"
  by (auto simp: ossl_quic_hdr_protector_decrypt_fields_def Let_def xor_pn_append split: option.splits)

section \<open>From sender to receiver\<close>

text \<open>What protecting a packet changes, and that the receiver's pointers undo it, whatever follows the packet
  in the datagram.\<close>

lemma encrypt_packet:
  assumes enc: "ossl_quic_hdr_protector_encrypt hpr (packet_ptrs 0 (length (pkt_bytes p)) (pn_pos p)) (pkt_bytes p) = Some (Some wire)"
    and ok: "pkt_fields_ok n p" and len: "length (pkt_bytes p @ rest) < 2 ^ 64"
  obtains b pn' where "wire = b # pkt_mid p @ pn'" "same_form p b" "length pn' = length (pkt_pn p @ pkt_payload p)"
    "pkt_pn p \<noteq> []" "4 \<le> length pn'" "ossl_quic_hdr_protector_decrypt hpr (decoded_ptrs (length (wire @ rest)) (pn_pos p)) (wire @ rest) =
      Some (Some (pkt_bytes p @ rest))"
proof -
  define i where "i = 1 + length (pkt_mid p)"
  define body where "body = pkt_pn p @ pkt_payload p"
  have pn: "pkt_pn p \<noteq> []"
    using enc by (auto simp: ossl_quic_hdr_protector_encrypt_def protect_at_def packet_ptrs_def pn_pos_def no_ptrs_def split: if_splits)
  then have pos: "pn_pos p = Some i" by (simp add: pn_pos_def i_def)
  have bytes: "pkt_bytes p = pkt_first p # pkt_mid p @ body" by (simp add: pkt_bytes_def pkt_hdr_bytes_def body_def)
  then have at: "drop i (pkt_bytes p) = body" "take i (pkt_bytes p) = pkt_first p # pkt_mid p" by (simp_all add: i_def)
  then have at4: "drop (i + 4) (pkt_bytes p) = drop 4 body" by (metis add.commute drop_drop)
  obtain b pn' where f: "ossl_quic_hdr_protector_encrypt_fields hpr (drop 4 body) (of_nat (length (pkt_bytes p)) - of_nat (i + 4))
      (pkt_first p) body = Some (Some (b, pn'))" and w: "wire = b # pkt_mid p @ pn'"
    using enc at at4 bytes
    by (auto simp: ossl_quic_hdr_protector_encrypt_def protect_at_def packet_ptrs_def pos split: option.splits if_splits)
  note kept = fields_roundtrip(2-4) [OF f refl order_refl]
  have big: "16 \<le> length (drop 4 body)" "unat (pkt_first p AND 3) + 1 \<le> 4"
    using encrypt_fields_sample [OF f] by auto
  then have "drop 4 xs = drop (4 - (unat (pkt_first p AND 3) + 1)) (drop (unat (pkt_first p AND 3) + 1) xs)" for xs :: bytes
    by simp
  then have tail: "drop 4 pn' = drop 4 body" using kept(2) by metis
  define n' where "n' = (of_nat (length (wire @ rest)) - of_nat (i + 4) :: size_t)"
  have wl: "length (wire @ rest) = length (pkt_bytes p @ rest)" using kept(1) by (simp add: w bytes)
  have "i + 20 \<le> length (wire @ rest)" using big(1) unfolding wl bytes by (simp add: i_def)
  then have "unat n' = length (wire @ rest) - (i + 4)"
    unfolding n'_def using len wl by (subst unat_sub_u64) (simp_all add: u64_le_nat unat_of_nat_u64 del: unat_of_nat of_nat_add)
  then have n': "16 \<le> n'" using \<open>i + 20 \<le> length (wire @ rest)\<close> by (simp add: u64_le_nat)
  have "take 16 (drop 4 (pn' @ rest)) = take 16 (drop 4 body)" using big(1) tail kept(1) by simp
  note undo = decrypt_fields_append [OF fields_roundtrip(1) [OF f this n'], of rest]
  have wi: "drop i (wire @ rest) = pn' @ rest" "take i (wire @ rest) = b # pkt_mid p" by (simp_all add: w i_def)
  then have w4: "drop (i + 4) (wire @ rest) = drop 4 (pn' @ rest)" by (metis add.commute drop_drop)
  have w0: "(wire @ rest) ! 0 = b" "(0 < length (wire @ rest)) = True" by (simp_all add: w)
  have "ossl_quic_hdr_protector_decrypt hpr (decoded_ptrs (length (wire @ rest)) (pn_pos p)) (wire @ rest) =
      Some (Some (((b # pkt_mid p) @ body @ rest)[0 := pkt_first p]))"
    unfolding ossl_quic_hdr_protector_decrypt_def protect_at_def decoded_ptrs_def pos option.case
      pkt_hdr_ptrs.select_convs prod.case w0 if_True wi w4 n'_def [symmetric] undo ..
  then have "ossl_quic_hdr_protector_decrypt hpr (decoded_ptrs (length (wire @ rest)) (pn_pos p)) (wire @ rest) =
      Some (Some (pkt_bytes p @ rest))"
    by (simp add: bytes)
  moreover have "same_form p b" using kept(3) same_form_masked [OF pn ok] by auto
  ultimately show thesis using that w pn kept(1) big(1) by (simp add: body_def)
qed

section \<open>The ciphers\<close>

text \<open>What is used of the crypto library: \<open>EVP_CipherUpdate\<close> on a context with its key set turns a block
  into a block in ECB mode, and for the stream cipher with a 16-byte counter and nonce any input into as many bytes.\<close>

definition evp_sound :: "evp_lib \<Rightarrow> bool" where
  "evp_sound evp \<longleftrightarrow> (\<forall>name key ctx. evp_init evp name key = Some ctx \<longrightarrow>
     (name \<in> {''AES-128-ECB'', ''AES-256-ECB''} \<longrightarrow>
       (\<forall>block. length block = 16 \<longrightarrow> (\<exists>output. ctx None block = Some output \<and> length output = 16))) \<and>
     (name = ''ChaCha20'' \<longrightarrow>
       (\<forall>iv input. length iv = 16 \<longrightarrow> (\<exists>output. ctx (Some iv) input = Some output \<and> length output = length input))))"

lemma protector_init_Some:
  assumes "ossl_quic_hdr_protector_init evp cipher_id key h0 = (True, hpr)"
  obtains name ctx where "evp_init evp name key = Some ctx" "hp_cipher_ctx hpr = Some ctx" "hp_cipher_id hpr = cipher_id"
    "cipher_id = QUIC_HDR_PROT_CIPHER_AES_128 \<and> name = ''AES-128-ECB'' \<or> cipher_id = QUIC_HDR_PROT_CIPHER_AES_256 \<and> name = ''AES-256-ECB'' \<or>
     cipher_id = QUIC_HDR_PROT_CIPHER_CHACHA \<and> name = ''ChaCha20''"
  using assms by (auto simp: ossl_quic_hdr_protector_init_def Let_def split: if_splits option.splits)

lemmas hdr_ciphers = QUIC_HDR_PROT_CIPHER_AES_128_def QUIC_HDR_PROT_CIPHER_AES_256_def QUIC_HDR_PROT_CIPHER_CHACHA_def

lemma protector_mask:
  assumes init: "ossl_quic_hdr_protector_init evp cipher_id key h0 = (True, hpr)" and evp: "evp_sound evp"
    and s: "16 \<le> length sample" "16 \<le> n"
  shows "\<exists>m. hdr_generate_mask hpr sample n = Some (Some m)"
proof -
  obtain name ctx where c: "evp_init evp name key = Some ctx" "hp_cipher_ctx hpr = Some ctx" "hp_cipher_id hpr = cipher_id"
    "cipher_id = QUIC_HDR_PROT_CIPHER_AES_128 \<and> name = ''AES-128-ECB'' \<or> cipher_id = QUIC_HDR_PROT_CIPHER_AES_256 \<and> name = ''AES-256-ECB'' \<or>
     cipher_id = QUIC_HDR_PROT_CIPHER_CHACHA \<and> name = ''ChaCha20''"
    using protector_init_Some [OF init] .
  have sample: "length (take 16 sample) = 16" "(n < 16) = False" "(length sample < 16) = False" using s by auto
  consider "cipher_id \<in> {QUIC_HDR_PROT_CIPHER_AES_128, QUIC_HDR_PROT_CIPHER_AES_256}" "name \<in> {''AES-128-ECB'', ''AES-256-ECB''}"
    | "cipher_id = QUIC_HDR_PROT_CIPHER_CHACHA" "name = ''ChaCha20''"
    using c(4) by auto
  then show ?thesis
  proof cases
    case 1
    then obtain b where "ctx None (take 16 sample) = Some b" "length b = 16"
      using evp c(1) sample(1) unfolding evp_sound_def by blast
    then show ?thesis using 1 sample(2,3) unfolding hdr_generate_mask_def c(2,3) option.case by (auto simp: hdr_ciphers)
  next
    case 2
    then have "\<exists>d. ctx (Some (take 16 sample)) (replicate 5 0) = Some d \<and> length d = length (replicate 5 (0 :: u8))"
      using evp c(1) sample(1) unfolding evp_sound_def by blast
    then show ?thesis using 2 sample(2,3) unfolding hdr_generate_mask_def c(2,3) option.case by (auto simp: hdr_ciphers)
  qed
qed

lemma protector_same_mask:
  assumes "ossl_quic_hdr_protector_init evp cipher_id key h0 = (True, hs)" "ossl_quic_hdr_protector_init evp cipher_id key h1 = (True, hr)"
  shows "hdr_generate_mask hs = hdr_generate_mask hr"
proof -
  have "hp_cipher_ctx hs = hp_cipher_ctx hr" "hp_cipher_id hs = hp_cipher_id hr"
    using assms by (auto elim!: protector_init_Some simp: hdr_ciphers)
  then show ?thesis by (intro ext) (simp add: hdr_generate_mask_def)
qed

lemma decrypt_same:
  assumes "hdr_generate_mask hs = hdr_generate_mask hr"
  shows "ossl_quic_hdr_protector_decrypt hs = ossl_quic_hdr_protector_decrypt hr"
proof -
  have "ossl_quic_hdr_protector_decrypt_fields hs = ossl_quic_hdr_protector_decrypt_fields hr"
    by (intro ext) (simp only: ossl_quic_hdr_protector_decrypt_fields_def assms)
  then show ?thesis
    unfolding ossl_quic_hdr_protector_decrypt_def by (intro ext) (simp only: protect_at_def)
qed

text \<open>A packet with 20 bytes from its packet number on has a sample.\<close>

lemma encrypt_succeeds:
  assumes init: "ossl_quic_hdr_protector_init evp cipher_id key h0 = (True, hpr)" "evp_sound evp"
    and p: "pkt_pn p \<noteq> []" "20 \<le> length (pkt_pn p @ pkt_payload p)" "length (pkt_bytes p) < 2 ^ 64"
  shows "\<exists>wire. ossl_quic_hdr_protector_encrypt hpr (packet_ptrs 0 (length (pkt_bytes p)) (pn_pos p)) (pkt_bytes p) = Some (Some wire)"
proof -
  define i where "i = 1 + length (pkt_mid p)"
  define body where "body = pkt_pn p @ pkt_payload p"
  define n where "n = (of_nat (length (pkt_bytes p)) - of_nat (i + 4) :: size_t)"
  have bytes: "pkt_bytes p = pkt_first p # pkt_mid p @ body" by (simp add: pkt_bytes_def pkt_hdr_bytes_def body_def)
  have at: "drop i (pkt_bytes p) = body" by (simp add: bytes i_def)
  then have at4: "drop (i + 4) (pkt_bytes p) = drop 4 body" by (metis add.commute drop_drop)
  have big: "20 \<le> length body" "length (pkt_bytes p) = i + length body" using p(2) by (simp_all add: body_def bytes i_def)
  have "unat n = length (pkt_bytes p) - (i + 4)"
    unfolding n_def using p(3) big by (subst unat_sub_u64) (simp_all add: u64_le_nat unat_of_nat_u64 del: unat_of_nat of_nat_add)
  then have "16 \<le> length (drop 4 body)" "16 \<le> n" using big by (simp_all add: u64_le_nat)
  then obtain m where m: "hdr_generate_mask hpr (drop 4 body) n = Some (Some m)"
    using protector_mask [OF init] by blast
  have four: "unat (pkt_first p AND 3) + 1 \<le> 4" using word_and_le1 [of "pkt_first p" 3] by (simp add: word_le_nat_alt)
  have "xor_pn (unat (pkt_first p AND 3) + 1) m body \<noteq> None"
    using four big(1) mask_length [OF m] by (simp add: xor_pn_def)
  then obtain x where x: "ossl_quic_hdr_protector_encrypt_fields hpr (drop 4 body) n (pkt_first p) body = Some (Some x)"
    by (auto simp: ossl_quic_hdr_protector_encrypt_fields_def m Let_def)
  have "pn_pos p = Some i" "pkt_bytes p ! 0 = pkt_first p" "(0 < length (pkt_bytes p)) = True"
    using p(1) by (simp_all add: pn_pos_def i_def bytes)
  then show ?thesis
    unfolding ossl_quic_hdr_protector_encrypt_def protect_at_def packet_ptrs_def
    by (cases x) (simp add: at at4 n_def [symmetric] x del: of_nat_add)
qed

section \<open>Starting a packet\<close>

text \<open>Starting a datagram in a static buffer and writing a packet header into it.\<close>

definition start_packet :: "bytes \<Rightarrow> size_t \<Rightarrow> pkt_hdr \<Rightarrow> pkt_hdr_ptrs wop" where
  "start_packet buf short_conn_id_len hdr =
     wbind (WPACKET_init_static_len buf 0) (\<lambda>_. ossl_quic_wire_encode_pkt_hdr short_conn_id_len hdr True)"

lemma init_static_buf: "WPACKET_init_static_len buf lenb pkt = Some (Some (), pkt') \<Longrightarrow> \<not> is_grow pkt'"
  by (auto simp: WPACKET_init_static_len_def wpacket_intern_init_len_def wbind_def zalloc_def wret_def wfail_def
      WPACKET_allocate_bytes_def WPACKET_reserve_bytes_def wpacket_grow_def is_grow_def Let_def
      split: if_splits option.splits prod.splits list.splits)

lemma start_packet_writes:
  assumes wf: "hdr_wf hdr payload" and ok: "pkt_ok (unat scid) (pkt_of_hdr hdr payload)"
    and buf: "length (pkt_bytes (pkt_of_hdr hdr payload)) \<le> length buf" "length buf < 2 ^ 64" "w_allocs pkt = []"
  obtains pkt' where "start_packet buf scid hdr pkt =
      Some (Some (packet_ptrs 0 (length (pkt_bytes (pkt_of_hdr hdr payload))) (pn_pos (pkt_of_hdr hdr payload))), pkt')"
    "wp_out pkt' = pkt_hdr_bytes (pkt_of_hdr hdr payload)"
proof -
  let ?p = "pkt_of_hdr hdr payload"
  have "buf \<noteq> []" using buf(1) by (auto simp: pkt_bytes_def pkt_hdr_bytes_def)
  then obtain pkt1 where 1: "WPACKET_init_static_len buf 0 pkt = Some (Some (), pkt1)"
    "wp_room (length buf) pkt1 (length buf)" "wp_out pkt1 = []" "\<not> is_grow pkt1"
    using init_static_room [OF _ buf(2,3)] init_static_buf by metis
  have w: "w_written pkt1 = 0"
    using length_wp_out [of "length buf" pkt1] 1(2,3) by (simp add: wp_room_def unat_eq_0)
  have "wp_room (length buf) pkt1 (length (pkt_bytes ?p))" using wp_room_less [OF 1(2) buf(1)] .
  then obtain pkt2 where "ossl_quic_wire_encode_pkt_hdr scid hdr True pkt1 =
      Some (Some (packet_ptrs (unat (w_written pkt1)) (length (pkt_bytes ?p)) (pn_pos ?p)), pkt2)"
    "wp_ext (length buf) pkt1 pkt2 (pkt_hdr_bytes ?p)"
    using encode_pkt_hdr_writes [OF refl wf, of scid "length buf" pkt1] ok 1(4) by (auto simp: pkt_ok_def)
  then show thesis using that [of pkt2] 1(1,3) by (simp add: start_packet_def wbind_def w wp_ext_def)
qed

lemma describes_same:
  assumes "describes hdr' (pkt_of_hdr hdr payload)"
  shows "pkt_of_hdr hdr' payload = pkt_of_hdr hdr payload" "ph_data hdr' = Some payload" "ph_len hdr' = of_nat (length payload)"
proof -
  have "pkt_payload (pkt_of_hdr hdr payload) = payload" by (simp add: pkt_of_hdr_def Let_def)
  then show "pkt_of_hdr hdr' payload = pkt_of_hdr hdr payload" "ph_data hdr' = Some payload" "ph_len hdr' = of_nat (length payload)"
    using assms by (simp_all add: describes_def)
qed

end
