(* ===== verification/PktExchange.thy ===== *)
theory PktExchange
  imports PktProtect WireAck
begin

text \<open>
  The way of a packet from the sender's header structure to the receiver's: encode, protect, find the connection,
  decode partially, remove the protection, decode fully; the length of the header predicted before it is
  encoded, and the check of the tag of a Retry packet.
\<close>

section \<open>Samples\<close>

text \<open>An Initial packet with a token, and a toy cipher.\<close>

definition sample_hdr :: pkt_hdr where
  "sample_hdr = \<lparr>ph_type = ucast QUIC_PKT_TYPE_INITIAL, ph_spin_bit = False, ph_key_phase = False, ph_pn_len = 2,
     ph_partial = False, ph_fixed = True, ph_unused = 0, ph_reserved = 0, ph_version = QUIC_VERSION_1,
     ph_dst_conn_id = \<lparr>id_len = 3, cid_id = [1, 2, 3] @ replicate 17 0\<rparr>,
     ph_src_conn_id = \<lparr>id_len = 1, cid_id = 9 # replicate 19 0\<rparr>, ph_pn = [0x12, 0x34, 0, 0],
     ph_token = Some [7, 7], ph_token_len = 2, ph_len = 20, ph_data = None\<rparr>"

definition sample_evp :: evp_lib where
  "sample_evp = \<lparr>evp_ctx_new = True, evp_fetch = (\<lambda>_. Some 16),
     evp_init = (\<lambda>name key. Some (\<lambda>iv input. Some (map (\<lambda>b. b + hd key) input)))\<rparr>"

lemma sample_pkt: "pkt_of_hdr sample_hdr (replicate 20 5) =
    NumberedPkt (KInitial [7, 7]) 0 [1, 2, 3] [9] [0x12, 0x34] (replicate 20 5)"
  by code_simp

lemma sample_bytes: "pkt_bytes (pkt_of_hdr sample_hdr (replicate 20 5)) =
    [0xC1, 0, 0, 0, 1, 3, 1, 2, 3, 1, 9, 2, 7, 7, 22, 0x12, 0x34] @ replicate 20 5"
  unfolding sample_pkt by code_simp

lemma sample_wf: "hdr_wf sample_hdr (replicate 20 5)"
  by (simp add: hdr_wf_def sample_hdr_def hdr_type_def pkt_types QUIC_MAX_CONN_ID_LEN_def)

lemma sample_pkt_ok: "pkt_ok (unat (0 :: size_t)) (pkt_of_hdr sample_hdr (replicate 20 5))"
  unfolding pkt_ok_def sample_bytes unfolding sample_pkt by (simp add: QUIC_MAX_CONN_ID_LEN_def pkt_lens)

lemma sample_fits:
  "may_precede (pkt_of_hdr sample_hdr (replicate 20 5)) [1, 2, 3]"
  "length (pkt_bytes (pkt_of_hdr sample_hdr (replicate 20 5))) \<le> length (replicate 40 (0 :: u8))"
  "length (replicate 40 (0 :: u8)) < 2 ^ 64" "length (replicate 40 (0 :: u8)) < 2 ^ 31" "w_allocs blank_wpacket = []"
  "ossl_quic_pkt_type_has_pn (hdr_type sample_hdr)" "20 \<le> unat (ph_pn_len sample_hdr) + length (replicate 20 (5 :: u8))"
  "length (pkt_bytes (pkt_of_hdr sample_hdr (replicate 20 5)) @ [1, 2, 3]) < 2 ^ 64"
  unfolding sample_bytes unfolding sample_pkt by (simp_all add: sample_hdr_def hdr_type_def pkt_types pkt_type_tests)

section \<open>From sender to receiver\<close>

text \<open>C35. Packet headers survive the wire. For every type of packet, the header the encoder writes into a
  static buffer, followed by the payload and, if the packet carries its length, by further packets, is
  decoded into a header that describes the same packet: type, connection IDs, payload length and, where the type has
  them, flags, token and packet number are those that were encoded, the payload is found in place, and what
  follows the packet is left for the next one. Encoder and decoder agree on where the packet number and the sample
  for header protection are. The header must be consistent (\<open>hdr_wf\<close>: a full header of version 1, or 0 for version
  negotiation, whose length is that of the payload), and the packet not shorter than the decoder's
  minimum and within the limits of the format (\<open>pkt_ok\<close>).\<close>

theorem pkt_hdr_roundtrip:
  assumes "hdr_wf hdr payload" "pkt_ok (unat scid) (pkt_of_hdr hdr payload)" "may_precede (pkt_of_hdr hdr payload) rest"
    and "length (pkt_bytes (pkt_of_hdr hdr payload)) \<le> length buf" "length buf < 2 ^ 64" "w_allocs pkt = []"
  shows "\<exists>ptrs pkt' hdr' ptrs'. start_packet buf scid hdr pkt = Some (Some ptrs, pkt') \<and>
    ossl_quic_wire_decode_pkt_hdr scid False False hdr0 (wp_out pkt' @ payload @ rest) = (Some (hdr', ptrs'), rest) \<and>
    pkt_of_hdr hdr' payload = pkt_of_hdr hdr payload \<and> ph_data hdr' = Some payload \<and> ph_len hdr' = ph_len hdr \<and>
    raw_pn ptrs' = raw_pn ptrs \<and> raw_sample ptrs' = raw_sample ptrs"
proof -
  let ?p = "pkt_of_hdr hdr payload"
  obtain pkt' where enc: "start_packet buf scid hdr pkt = Some (Some (packet_ptrs 0 (length (pkt_bytes ?p)) (pn_pos ?p)), pkt')"
    "wp_out pkt' = pkt_hdr_bytes ?p"
    using start_packet_writes [OF assms(1,2,4-6)] .
  have out: "wp_out pkt' @ payload @ rest = pkt_bytes ?p @ rest"
    by (simp add: enc(2) pkt_bytes_def) (simp add: pkt_of_hdr_def Let_def)
  obtain hdr' where dec: "ossl_quic_wire_decode_pkt_hdr scid False False hdr0 (pkt_bytes ?p @ rest) =
      (Some (hdr', decoded_ptrs (length (pkt_bytes ?p @ rest)) (pn_pos ?p)), rest)" "describes hdr' ?p"
    using decode_full [OF assms(2,3)] by blast
  have "ph_len hdr = of_nat (length payload)" using assms(1) by (simp add: hdr_wf_def)
  then show ?thesis
    using enc(1) dec(1) [folded out] describes_same [OF dec(2)]
    by (cases "pn_pos ?p") (auto simp: packet_ptrs_def no_ptrs_def decoded_ptrs_def)
qed

theorem pkt_hdr_roundtrip_witness:
  "\<exists>ptrs pkt' hdr' ptrs'. start_packet (replicate 40 0) 0 sample_hdr blank_wpacket = Some (Some ptrs, pkt') \<and>
    ossl_quic_wire_decode_pkt_hdr 0 False False (sample_hdr\<lparr>ph_token := None\<rparr>) (wp_out pkt' @ replicate 20 5 @ [1, 2, 3]) =
      (Some (hdr', ptrs'), [1, 2, 3]) \<and>
    pkt_of_hdr hdr' (replicate 20 5) = NumberedPkt (KInitial [7, 7]) 0 [1, 2, 3] [9] [0x12, 0x34] (replicate 20 5)"
  using pkt_hdr_roundtrip [OF sample_wf sample_pkt_ok sample_fits(1-3,5), of "sample_hdr\<lparr>ph_token := None\<rparr>"]
  unfolding sample_pkt by blast

text \<open>C34. Header protection is removed by the receiver. A packet with a packet number and at least 20 bytes
  from there on can be protected at the pointers the encoder returned; the receiver, with a protector
  set up from the same key, decodes the protected packet without knowing its flags and the length of
  its packet number, removes the protection at the pointers this gives, and decodes the result to a header
  that describes the packet that was sent, with its payload and with the following packets left over. The
  crypto library is assumed to return as many bytes as documented (\<open>evp_sound\<close>).\<close>

theorem header_protection_roundtrip:
  assumes "hdr_wf hdr payload" "pkt_ok (unat scid) (pkt_of_hdr hdr payload)" "may_precede (pkt_of_hdr hdr payload) rest"
    and "length (pkt_bytes (pkt_of_hdr hdr payload)) \<le> length buf" "length buf < 2 ^ 64" "w_allocs pkt = []"
    and "ossl_quic_pkt_type_has_pn (hdr_type hdr)" "20 \<le> unat (ph_pn_len hdr) + length payload"
    and "length (pkt_bytes (pkt_of_hdr hdr payload) @ rest) < 2 ^ 64"
    and "evp_sound evp" "ossl_quic_hdr_protector_init evp cipher_id key h0 = (True, hs)"
    and "ossl_quic_hdr_protector_init evp cipher_id key h1 = (True, hr)"
  shows "\<exists>ptrs pkt' wire hdr1 ptrs1 q1 plain hdr2 ptrs2. start_packet buf scid hdr pkt = Some (Some ptrs, pkt') \<and>
    ossl_quic_hdr_protector_encrypt hs ptrs (wp_out pkt' @ payload) = Some (Some wire) \<and>
    ossl_quic_wire_decode_pkt_hdr scid True False hdr0 (wire @ rest) = (Some (hdr1, ptrs1), q1) \<and>
    ossl_quic_hdr_protector_decrypt hr ptrs1 (wire @ rest) = Some (Some plain) \<and>
    ossl_quic_wire_decode_pkt_hdr scid False False hdr1 plain = (Some (hdr2, ptrs2), rest) \<and>
    pkt_of_hdr hdr2 payload = pkt_of_hdr hdr payload \<and> ph_data hdr2 = Some payload"
proof -
  let ?p = "pkt_of_hdr hdr payload"
  have pl: "pkt_payload ?p = payload" by (simp add: pkt_of_hdr_def Let_def)
  have "pkt_pn ?p = take (unat (ph_pn_len hdr)) (ph_pn hdr)"
    using assms(7) by (simp add: pkt_of_hdr_def Let_def pkt_type_tests pkt_types)
  then have pn: "length (pkt_pn ?p) = unat (ph_pn_len hdr)" "length (pkt_pn ?p @ pkt_payload ?p) \<ge> 20"
    using assms(1,8) by (simp_all add: hdr_wf_def pl)
  have ok: "pkt_fields_ok (unat scid) ?p" using assms(2) by (simp add: pkt_ok_def)
  then have ne: "pkt_pn ?p \<noteq> []" using assms(7) by (cases ?p) (auto simp: pkt_of_hdr_def Let_def pkt_type_tests split: if_splits)
  obtain pkt' where enc: "start_packet buf scid hdr pkt = Some (Some (packet_ptrs 0 (length (pkt_bytes ?p)) (pn_pos ?p)), pkt')"
    "wp_out pkt' = pkt_hdr_bytes ?p"
    using start_packet_writes [OF assms(1,2,4-6)] .
  have out: "wp_out pkt' @ payload = pkt_bytes ?p" by (simp add: enc(2) pkt_bytes_def pl)
  obtain wire where w: "ossl_quic_hdr_protector_encrypt hs (packet_ptrs 0 (length (pkt_bytes ?p)) (pn_pos ?p)) (pkt_bytes ?p) = Some (Some wire)"
    using encrypt_succeeds [OF assms(11,10) ne pn(2)] assms(9) by auto
  obtain b pn' where prot: "wire = b # pkt_mid ?p @ pn'" "same_form ?p b" "length pn' = length (pkt_pn ?p @ pkt_payload ?p)"
    "4 \<le> length pn'" "ossl_quic_hdr_protector_decrypt hs (decoded_ptrs (length (wire @ rest)) (pn_pos ?p)) (wire @ rest) =
      Some (Some (pkt_bytes ?p @ rest))"
    using encrypt_packet [OF w ok assms(9)] by blast
  obtain hdr1 q1 where part: "ossl_quic_wire_decode_pkt_hdr scid True False hdr0 (wire @ rest) =
      (Some (hdr1, decoded_ptrs (length (wire @ rest)) (pn_pos ?p)), q1)"
    using decode_partial [OF assms(2) prot(2) ne, of "pn' @ rest" hdr0] prot(1,3,4) by auto
  obtain hdr2 where full: "ossl_quic_wire_decode_pkt_hdr scid False False hdr1 (pkt_bytes ?p @ rest) =
      (Some (hdr2, decoded_ptrs (length (pkt_bytes ?p @ rest)) (pn_pos ?p)), rest)" "describes hdr2 ?p"
    using decode_full [OF assms(2,3)] by blast
  have "ossl_quic_hdr_protector_encrypt hs (packet_ptrs 0 (length (pkt_bytes ?p)) (pn_pos ?p)) (wp_out pkt' @ payload) = Some (Some wire)"
    unfolding out by (rule w)
  then show ?thesis
    using enc(1) part prot(5) [unfolded decrypt_same [OF protector_same_mask [OF assms(11,12)]]] full(1)
      describes_same(1,2) [OF full(2)]
    by blast
qed

theorem header_protection_roundtrip_witness:
  "\<exists>hs hr ptrs pkt' wire hdr1 ptrs1 q1 plain hdr2 ptrs2. evp_sound sample_evp \<and>
    ossl_quic_hdr_protector_init sample_evp QUIC_HDR_PROT_CIPHER_AES_128 (replicate 16 0x2A)
      \<lparr>hp_cipher_ctx = None, hp_cipher = None, hp_cipher_id = 0\<rparr> = (True, hs) \<and>
    ossl_quic_hdr_protector_init sample_evp QUIC_HDR_PROT_CIPHER_AES_128 (replicate 16 0x2A)
      \<lparr>hp_cipher_ctx = None, hp_cipher = None, hp_cipher_id = 7\<rparr> = (True, hr) \<and>
    start_packet (replicate 40 0) 0 sample_hdr blank_wpacket = Some (Some ptrs, pkt') \<and>
    ossl_quic_hdr_protector_encrypt hs ptrs (wp_out pkt' @ replicate 20 5) = Some (Some wire) \<and>
    ossl_quic_wire_decode_pkt_hdr 0 True False sample_hdr (wire @ [1, 2, 3]) = (Some (hdr1, ptrs1), q1) \<and>
    ossl_quic_hdr_protector_decrypt hr ptrs1 (wire @ [1, 2, 3]) = Some (Some plain) \<and>
    ossl_quic_wire_decode_pkt_hdr 0 False False hdr1 plain = (Some (hdr2, ptrs2), [1, 2, 3]) \<and>
    ph_data hdr2 = Some (replicate 20 5)"
proof -
  have evp: "evp_sound sample_evp" by (auto simp: evp_sound_def sample_evp_def)
  have init: "\<exists>h'. ossl_quic_hdr_protector_init sample_evp QUIC_HDR_PROT_CIPHER_AES_128 (replicate 16 0x2A) h = (True, h')" for h
    by (simp add: ossl_quic_hdr_protector_init_def sample_evp_def)
  obtain hs hr where h:
    "ossl_quic_hdr_protector_init sample_evp QUIC_HDR_PROT_CIPHER_AES_128 (replicate 16 0x2A)
      \<lparr>hp_cipher_ctx = None, hp_cipher = None, hp_cipher_id = 0\<rparr> = (True, hs)"
    "ossl_quic_hdr_protector_init sample_evp QUIC_HDR_PROT_CIPHER_AES_128 (replicate 16 0x2A)
      \<lparr>hp_cipher_ctx = None, hp_cipher = None, hp_cipher_id = 7\<rparr> = (True, hr)"
    using init by blast
  from header_protection_roundtrip [OF sample_wf sample_pkt_ok sample_fits(1-3,5-8) evp h, of sample_hdr] show ?thesis
    using evp h by blast
qed

section \<open>The length of an encoded header\<close>

text \<open>C39. The length predicted for a header is the number of bytes the encoder writes for it, for every type of
  packet, up to the range of \<open>int\<close>.\<close>

theorem encoded_len_predicted:
  assumes "hdr_wf hdr payload" "pkt_ok (unat scid) (pkt_of_hdr hdr payload)"
    and "length (pkt_bytes (pkt_of_hdr hdr payload)) \<le> length buf" "length buf < 2 ^ 31" "w_allocs pkt = []"
  shows "\<exists>ptrs pkt'. start_packet buf scid hdr pkt = Some (Some ptrs, pkt') \<and>
    ossl_quic_wire_get_encoded_pkt_hdr_len scid hdr = int (length (wp_out pkt'))"
proof -
  let ?p = "pkt_of_hdr hdr payload"
  have "length buf < 2 ^ 64" using assms(4) by simp
  from start_packet_writes [OF assms(1-3) this assms(5)] obtain pkt' where
    1: "start_packet buf scid hdr pkt = Some (Some (packet_ptrs 0 (length (pkt_bytes ?p)) (pn_pos ?p)), pkt')"
    "wp_out pkt' = pkt_hdr_bytes ?p" .
  have "length (pkt_hdr_bytes ?p) < 2 ^ 31" using assms(3,4) by (simp add: pkt_bytes_def)
  then have "take_bit 64 (length (pkt_hdr_bytes ?p)) = length (pkt_hdr_bytes ?p)" "sint (of_nat (length (pkt_hdr_bytes ?p)) :: u32) = int (length (pkt_hdr_bytes ?p))"
    by (simp_all add: take_bit_nat_eq_self signed_of_nat signed_take_bit_int_eq_self)
  then have "ossl_quic_wire_get_encoded_pkt_hdr_len scid hdr = int (length (pkt_hdr_bytes ?p))"
    using encoded_hdr_len_eq [OF refl assms(1)] assms(2)
    by (simp add: ossl_quic_wire_get_encoded_pkt_hdr_len_def pkt_ok_def unsigned_of_nat)
  then show ?thesis using 1 by simp
qed

theorem encoded_len_predicted_witness:
  "\<exists>ptrs pkt'. start_packet (replicate 40 0) 0 sample_hdr blank_wpacket = Some (Some ptrs, pkt') \<and>
    ossl_quic_wire_get_encoded_pkt_hdr_len 0 sample_hdr = int (length (wp_out pkt'))"
  using encoded_len_predicted [OF sample_wf sample_pkt_ok sample_fits(2,4,5)] .

section \<open>Finding the connection of a packet\<close>

lemma get_1_SomeE:
  assumes "PACKET_get_1 p = (Some x, q)"
  obtains b where "p = b # q" "x = ucast b"
  using assms by (cases p) (auto simp: PACKET_get_1_def get_of_peek_def PACKET_peek_1_def PACKET_remaining_def packet_forward_def)

lemma copy_bytes_SomeE:
  assumes "PACKET_copy_bytes n p = (Some bs, q)"
  shows "p = bs @ q \<and> length bs = n"
  using assms
  by (auto simp: PACKET_copy_bytes_def get_of_peek_def PACKET_peek_copy_bytes_def PACKET_remaining_def packet_forward_def
      split: if_splits)

lemma push_byte_eq_0:
  assumes "push_bit n (ucast (b :: u8) :: u64) = 0" "n \<le> 56"
  shows "b = 0"
proof (rule bit_word_eqI)
  fix m assume m: "m < LENGTH(8)"
  have "bit (push_bit n (ucast b :: u64)) (n + m) = bit b m" using m assms(2) by (simp add: bit_simps)
  then show "bit b m = bit 0 m" using assms(1) by simp
qed

lemma get_net_4_SomeE:
  assumes "PACKET_get_net_4 p = (Some v, q)"
  obtains b1 b2 b3 b4 where "p = b1 # b2 # b3 # b4 # q" "v = 0 \<Longrightarrow> b1 = 0 \<and> b2 = 0 \<and> b3 = 0 \<and> b4 = 0"
proof -
  have "4 \<le> length p" and q: "q = drop 4 p"
    and v: "v = push_bit 24 (ucast (p ! 0)) OR push_bit 16 (ucast (p ! 1)) OR push_bit 8 (ucast (p ! 2)) OR ucast (p ! 3)"
    using assms
    by (auto simp: PACKET_get_net_4_def get_of_peek_def PACKET_peek_net_4_def PACKET_remaining_def packet_forward_def
        split: if_splits)
  then obtain b1 b2 b3 b4 r where p: "p = b1 # b2 # b3 # b4 # r"
    by (auto simp: numeral_eq_Suc Suc_le_length_iff)
  show thesis
  proof (rule that)
    show "p = b1 # b2 # b3 # b4 # q" by (simp add: p q)
    show "b1 = 0 \<and> b2 = 0 \<and> b3 = 0 \<and> b4 = 0" if "v = 0"
      using that v push_byte_eq_0 [of 0 b4] by (auto simp: p or_eq_0_iff intro: push_byte_eq_0)
  qed
qed

lemma decode_conn_id_SomeE:
  assumes "decode_conn_id c p = (Some c', q)"
  obtains len bs where "p = len # bs @ q" "length bs = unat len" "unat len \<le> QUIC_MAX_CONN_ID_LEN"
    "c' = \<lparr>id_len = len, cid_id = set_prefix bs (cid_id c)\<rparr>"
  using assms unfolding decode_conn_id_def
  by (auto elim!: read_then_SomeE get_1_SomeE dest!: copy_bytes_SomeE simp: read_fail_def read_return_def byte_u32 split: if_splits)

text \<open>The rest of the header leaves the connection ID alone.\<close>

lemma decode_pn_field_dst: "decode_pn_field partial hdr p = (Some hdr', q) \<Longrightarrow> ph_dst_conn_id hdr' = ph_dst_conn_id hdr"
  by (auto simp: decode_pn_field_def read_return_def elim!: read_then_SomeE split: if_splits)

lemma decode_token_dst: "decode_token hdr p = (Some hdr', q) \<Longrightarrow> ph_dst_conn_id hdr' = ph_dst_conn_id hdr"
  by (auto simp: decode_token_def read_return_def read_fail_def elim!: read_then_SomeE split: if_splits)

lemma decode_numbered_dst:
  "decode_numbered l partial nodata b0 hdr p = (Some (hdr', pn), q) \<Longrightarrow> ph_dst_conn_id hdr' = ph_dst_conn_id hdr"
  by (auto simp: decode_numbered_def read_return_def read_fail_def Let_def elim!: read_then_SomeE split: if_splits
      dest!: decode_pn_field_dst)

lemma decode_rest_dst:
  "decode_retry b0 hdr p = (Some (hdr', pn), q) \<Longrightarrow> ph_dst_conn_id hdr' = ph_dst_conn_id hdr"
  "decode_version_neg b0 hdr p = (Some (hdr', pn), q) \<Longrightarrow> ph_dst_conn_id hdr' = ph_dst_conn_id hdr"
  by (auto simp: decode_retry_def decode_version_neg_def read_return_def elim!: read_then_SomeE split: if_splits)

lemma decode_long_dst:
  assumes "decode_long_hdr l partial nodata b0 hdr p = (Some (hdr', pn), q)"
  obtains b1 b2 b3 b4 len bs r where "p = b1 # b2 # b3 # b4 # len # bs @ r" "r \<noteq> []"
    "b0 AND 0x40 \<noteq> 0 \<or> b1 = 0 \<and> b2 = 0 \<and> b3 = 0 \<and> b4 = 0" "length bs = unat len" "unat len \<le> QUIC_MAX_CONN_ID_LEN"
    "ph_dst_conn_id hdr' = \<lparr>id_len = len, cid_id = set_prefix bs (cid_id (ph_dst_conn_id hdr))\<rparr>"
proof -
  obtain v p1 where v: "PACKET_get_net_4 p = (Some v, p1)" "\<not> (v \<noteq> 0 \<and> b0 AND 0x40 = 0)" 
    and "read_then (decode_conn_id (ph_dst_conn_id hdr)) (\<lambda>dst. read_then (decode_conn_id (ph_src_conn_id hdr)) (\<lambda>src.
      (let hdr = hdr\<lparr>ph_version := ucast v, ph_dst_conn_id := dst, ph_src_conn_id := src\<rparr> in
          if v = 0 then decode_version_neg b0 hdr
          else if v \<noteq> ucast QUIC_VERSION_1 then read_fail
          else if l < QUIC_MIN_VALID_PKT_LEN_CRYPTO then read_fail
          else
            read_then
              (decode_token (hdr\<lparr>ph_type := ucast (long_hdr_type b0), ph_pn_len := 0, ph_fixed := True,
                                 ph_spin_bit := False, ph_key_phase := False\<rparr>)) (\<lambda>hdr.
              if hdr_type hdr = QUIC_PKT_TYPE_RETRY then decode_retry b0 hdr
              else decode_numbered l partial nodata b0 hdr)))) p1 = (Some (hdr', pn), q)"
    using assms unfolding decode_long_hdr_def by (elim read_then_SomeE) (auto simp: read_fail_def split: if_splits)
  then obtain dst src p2 p3 where c: "decode_conn_id (ph_dst_conn_id hdr) p1 = (Some dst, p2)"
      "decode_conn_id (ph_src_conn_id hdr) p2 = (Some src, p3)" and "ph_dst_conn_id hdr' = dst"
    by (auto elim!: read_then_SomeE simp: Let_def read_fail_def split: if_splits
        dest!: decode_token_dst decode_numbered_dst decode_rest_dst)
  have "p2 \<noteq> []" using c(2) by (auto elim: decode_conn_id_SomeE)
  moreover obtain b1 b2 b3 b4 where b: "p = b1 # b2 # b3 # b4 # p1" "v = 0 \<Longrightarrow> b1 = 0 \<and> b2 = 0 \<and> b3 = 0 \<and> b4 = 0"
    by (rule get_net_4_SomeE [OF v(1)]) simp
  moreover obtain len bs where "p1 = len # bs @ p2" "length bs = unat len" "unat len \<le> QUIC_MAX_CONN_ID_LEN"
    "dst = \<lparr>id_len = len, cid_id = set_prefix bs (cid_id (ph_dst_conn_id hdr))\<rparr>"
    using decode_conn_id_SomeE [OF c(1)] .
  moreover have "b0 AND 0x40 \<noteq> 0 \<or> b1 = 0 \<and> b2 = 0 \<and> b3 = 0 \<and> b4 = 0" using v(2) b(2) by blast
  ultimately show thesis using that \<open>ph_dst_conn_id hdr' = dst\<close> by simp
qed

lemma decode_short_dst:
  assumes "decode_short_hdr l scid partial b0 hdr p = (Some (hdr', pn), q)"
  obtains bs r where "p = bs @ r" "length bs = unat scid" "unat scid \<le> QUIC_MAX_CONN_ID_LEN" "b0 AND 0x40 \<noteq> 0"
    "ph_dst_conn_id hdr' = \<lparr>id_len = ucast scid, cid_id = set_prefix bs (cid_id (ph_dst_conn_id hdr))\<rparr>"
  using assms unfolding decode_short_hdr_def
  by (auto simp: Let_def read_fail_def read_return_def elim!: read_then_SomeE dest!: decode_pn_field_dst copy_bytes_SomeE
      split: if_splits)

lemma cid_bytes_prefix: "length bs = unat n \<Longrightarrow> cid_bytes \<lparr>id_len = n, cid_id = set_prefix bs old\<rparr> = bs"
  by (simp add: cid_bytes_def set_prefix_def)

text \<open>C36. A datagram is handed to the connection its packet is for. Whatever bytes arrive, if they decode as a packet
  header, then the routine that only looks for the destination connection ID finds the same one, and so the
  packet is routed by the ID the connection later sees. For packets with a short header this needs the length
  the routine asks for, 21 bytes and the ID.\<close>

theorem dst_conn_id_agrees:
  assumes "ossl_quic_wire_decode_pkt_hdr scid partial nodata hdr p = (Some (hdr', ptrs), q)"
    and "unat scid \<le> QUIC_MAX_CONN_ID_LEN"
    and "p ! 0 AND 0x80 = 0 \<Longrightarrow> QUIC_MIN_VALID_PKT_LEN_CRYPTO + unat scid \<le> length p"
  shows "\<exists>c. ossl_quic_wire_get_pkt_hdr_dst_conn_id p scid cid = Some c \<and>
    id_len c = id_len (ph_dst_conn_id hdr') \<and> cid_bytes c = cid_bytes (ph_dst_conn_id hdr')"
proof -
  define hdr1 where "hdr1 = hdr\<lparr>ph_partial := partial, ph_unused := 0, ph_reserved := 0\<rparr>"
  obtain b p1 pn where p: "p = b # p1" and l: "QUIC_MIN_VALID_PKT_LEN \<le> length p"
    and dec: "(if (ucast b :: u32) AND 0x80 = 0 then decode_short_hdr (length p) scid partial (ucast b) hdr1
      else decode_long_hdr (length p) partial nodata (ucast b) hdr1) p1 = (Some (hdr', pn), q)"
    using assms(1) unfolding ossl_quic_wire_decode_pkt_hdr_def Let_def hdr1_def PACKET_remaining_def
    by (auto simp: read_return_def elim!: read_then_SomeE get_1_SomeE split: if_splits prod.splits)
  show ?thesis
  proof (cases "b AND 0x80 = 0")
    case True
    then have "decode_short_hdr (length p) scid partial (ucast b) hdr1 p1 = (Some (hdr', pn), q)"
      using dec by (simp add: first_byte_u32)
    from decode_short_dst [OF this] obtain bs r where "p1 = bs @ r" "length bs = unat scid"
      "unat scid \<le> QUIC_MAX_CONN_ID_LEN" "(ucast b :: u32) AND 0x40 \<noteq> 0"
      "ph_dst_conn_id hdr' = \<lparr>id_len = ucast scid, cid_id = set_prefix bs (cid_id (ph_dst_conn_id hdr1))\<rparr>"
      .
    moreover have "unat (ucast scid :: u8) = unat scid"
      using assms(2) by (simp add: QUIC_MAX_CONN_ID_LEN_def unsigned_ucast_eq take_bit_nat_eq_self)
    ultimately show ?thesis
      using assms(2,3) True l
      by (auto simp: ossl_quic_wire_get_pkt_hdr_dst_conn_id_def p first_byte_u32 cid_bytes_prefix)
  next
    case False
    then have "decode_long_hdr (length p) partial nodata (ucast b) hdr1 p1 = (Some (hdr', pn), q)"
      using dec by (simp add: first_byte_u32)
    from decode_long_dst [OF this] obtain b1 b2 b3 b4 len bs r where "p1 = b1 # b2 # b3 # b4 # len # bs @ r" "r \<noteq> []"
      "(ucast b :: u32) AND 0x40 \<noteq> 0 \<or> b1 = 0 \<and> b2 = 0 \<and> b3 = 0 \<and> b4 = 0" "length bs = unat len" "unat len \<le> QUIC_MAX_CONN_ID_LEN"
      "ph_dst_conn_id hdr' = \<lparr>id_len = len, cid_id = set_prefix bs (cid_id (ph_dst_conn_id hdr1))\<rparr>"
      .
    moreover have "0 < length r" using \<open>r \<noteq> []\<close> by simp
    ultimately show ?thesis
      using assms(2) False l
      by (auto simp: ossl_quic_wire_get_pkt_hdr_dst_conn_id_def p first_byte_u32 cid_bytes_prefix pkt_lens)
  qed
qed

theorem dst_conn_id_agrees_witness:
  "\<exists>hdr' ptrs c. ossl_quic_wire_decode_pkt_hdr 0 False False (sample_hdr\<lparr>ph_token := None\<rparr>)
      ([0xC1, 0, 0, 0, 1, 3, 1, 2, 3, 1, 9, 2, 7, 7, 22, 0x12, 0x34] @ replicate 20 5 @ [8, 8]) = (Some (hdr', ptrs), [8, 8]) \<and>
    ossl_quic_wire_get_pkt_hdr_dst_conn_id
      ([0xC1, 0, 0, 0, 1, 3, 1, 2, 3, 1, 9, 2, 7, 7, 22, 0x12, 0x34] @ replicate 20 5 @ [8, 8]) 0 (ph_src_conn_id sample_hdr) = Some c \<and>
    id_len c = id_len (ph_dst_conn_id hdr') \<and> cid_bytes c = cid_bytes (ph_dst_conn_id hdr')"
proof -
  let ?p = "[0xC1, 0, 0, 0, 1, 3, 1, 2, 3, 1, 9, 2, 7, 7, 22, 0x12, 0x34] @ replicate 20 5 @ [8, 8]"
  have "may_precede (pkt_of_hdr sample_hdr (replicate 20 5)) [8, 8]" by (simp add: sample_pkt)
  from decode_full [OF sample_pkt_ok this, unfolded sample_bytes] obtain hdr' ptrs where
    dec: "ossl_quic_wire_decode_pkt_hdr 0 False False (sample_hdr\<lparr>ph_token := None\<rparr>) ?p = (Some (hdr', ptrs), [8, 8])"
    by fastforce
  have "unat (0 :: size_t) \<le> QUIC_MAX_CONN_ID_LEN" "?p ! 0 AND 0x80 = 0 \<Longrightarrow> QUIC_MIN_VALID_PKT_LEN_CRYPTO + unat (0 :: size_t) \<le> length ?p"
    by (simp_all add: pkt_lens)
  from dst_conn_id_agrees [OF dec this, of "ph_src_conn_id sample_hdr"] dec show ?thesis by blast
qed

section \<open>Retry packets\<close>

lemma retry_pseudo_hdr_writes:
  assumes wf: "hdr_wf hdr data" and retry: "hdr_type hdr = QUIC_PKT_TYPE_RETRY" and as: "w_allocs pkt = []"
    and cid: "unat (id_len odcid) \<le> QUIC_MAX_CONN_ID_LEN" "length (cid_id odcid) = QUIC_MAX_CONN_ID_LEN"
  shows "\<exists>ptrs pkt'. retry_pseudo_hdr hdr odcid pkt = Some (Some ptrs, pkt') \<and> (\<exists>d. w_buf pkt' = StaticBuf d) \<and>
    wp_out pkt' = cid_field (cid_bytes odcid) @ pkt_hdr_bytes (pkt_of_hdr hdr data)"
proof -
  let ?hdr = "hdr\<lparr>ph_len := 0\<rparr>" and ?buf = "replicate 128 (0 :: u8)"
  have type: "hdr_type ?hdr = QUIC_PKT_TYPE_RETRY" using retry by (simp add: hdr_type_def)
  have wf': "hdr_wf ?hdr []" using wf by (cases "ph_token hdr") (simp_all add: hdr_wf_def hdr_type_def)
  have bytes: "pkt_hdr_bytes (pkt_of_hdr ?hdr []) = pkt_hdr_bytes (pkt_of_hdr hdr data)"
    using retry type by (simp add: pkt_of_hdr_def pkt_types pkt_hdr_bytes_def)
  have len: "length (pkt_hdr_bytes (pkt_of_hdr hdr data)) \<le> 47" "length (cid_field (cid_bytes odcid)) \<le> 21"
    using wf retry cid by (auto simp: pkt_of_hdr_def pkt_types pkt_hdr_bytes_def cid_field_def cid_bytes_def hdr_wf_def QUIC_MAX_CONN_ID_LEN_def)
  obtain pkt1 where 1: "WPACKET_init_static_len ?buf 0 pkt = Some (Some (), pkt1)" "wp_room (length ?buf) pkt1 (length ?buf)"
    "wp_out pkt1 = []" "\<not> is_grow pkt1"
    using init_static_room [OF _ _ as, of ?buf] init_static_buf by force
  have "wp_room 128 pkt1 (length (cid_field (cid_bytes odcid)) + 47)" using 1(2) len wp_room_less by fastforce
  then obtain pkt2 where 2: "encode_conn_id odcid pkt1 = Some (Some (), pkt2)" "wp_ext 128 pkt1 pkt2 (cid_field (cid_bytes odcid))"
    "wp_room 128 pkt2 47"
    using writes_then [OF writes_cid [OF cid]] by blast
  then have "wp_room 128 pkt2 (length (pkt_hdr_bytes (pkt_of_hdr ?hdr [])) + 0)" using len bytes wp_room_less by fastforce
  then obtain pkt3 where 3: "encode_long_hdr ?hdr pkt2 = Some (Some None, pkt3)"
    "wp_ext 128 pkt2 pkt3 (pkt_hdr_bytes (pkt_of_hdr ?hdr []))" "wp_room 128 pkt3 0"
    using encode_long_plain [OF refl wf'] type by blast
  have "reserve_payload ?hdr pkt3 = Some (Some (), pkt3)" by (simp add: reserve_payload_def wret_def)
  moreover have "\<not> ph_partial ?hdr" "hdr_type ?hdr \<noteq> QUIC_PKT_TYPE_1RTT" using wf' type by (simp_all add: hdr_wf_def pkt_types)
  ultimately have "\<exists>ptrs. ossl_quic_wire_encode_pkt_hdr (ucast (id_len (ph_dst_conn_id hdr))) ?hdr False pkt2 = Some (Some ptrs, pkt3)"
    using 3(1) by (simp add: ossl_quic_wire_encode_pkt_hdr_def Let_def wbind_def wret_def)
  moreover have "\<exists>d. w_buf pkt3 = StaticBuf d" using static_room 1(4) 2(2) 3(2) by (auto simp: wp_ext_def)
  ultimately show ?thesis
    using 1 2 3 unfolding bytes by (auto simp: retry_pseudo_hdr_def wbind_def wret_def wp_ext_def)
qed

text \<open>C38. Retry packets are authenticated as RFC 9001 asks. The tag of a Retry packet is accepted exactly if it
  is the AEAD tag, under the fixed key and nonce, of the client's original destination connection ID with
  its length followed by the bytes of the packet on the wire up to the tag. The packet is re-encoded from its decoded
  header for this, into a buffer on the stack that is always large enough.\<close>

theorem retry_tag_checked:
  assumes "hdr_wf hdr data" "hdr_type hdr = QUIC_PKT_TYPE_RETRY" "ph_data hdr = Some data"
    and "16 \<le> length data" "length data < 2 ^ 64" "w_allocs pkt = []"
    and "unat (id_len odcid) \<le> QUIC_MAX_CONN_ID_LEN" "length (cid_id odcid) = QUIC_MAX_CONN_ID_LEN"
  shows "ossl_quic_validate_retry_integrity_tag aead pkt hdr odcid =
    Some (aead retry_integrity_key retry_integrity_nonce
        (cid_field (cid_bytes odcid) @ take (length (pkt_bytes (pkt_of_hdr hdr data)) - 16) (pkt_bytes (pkt_of_hdr hdr data))) =
      Some (drop (length data - 16) data))"
proof -
  let ?p = "pkt_of_hdr hdr data"
  have len: "unat (ph_len hdr) = length data" using assms(1,5) by (simp add: hdr_wf_def unat_of_nat_u64)
  have v: "ph_version hdr \<noteq> 0" using assms(1,2) by (simp add: hdr_wf_def pkt_types QUIC_VERSION_1_def)
  have "pkt_payload ?p = data" by (simp add: pkt_of_hdr_def Let_def)
  then have body: "take (length (pkt_bytes ?p) - 16) (pkt_bytes ?p) = pkt_hdr_bytes ?p @ take (length data - 16) data"
    using assms(4) by (simp add: pkt_bytes_def)
  obtain ptrs pkt' d where w: "retry_pseudo_hdr hdr odcid pkt = Some (Some ptrs, pkt')" "w_buf pkt' = StaticBuf d"
    "wp_out pkt' = cid_field (cid_bytes odcid) @ pkt_hdr_bytes ?p"
    using retry_pseudo_hdr_writes [OF assms(1,2,6-8)] by blast
  have "take (unat (WPACKET_get_total_written pkt')) d = cid_field (cid_bytes odcid) @ pkt_hdr_bytes ?p"
    using w(2,3) by (simp add: wp_out_def wp_data_def WPACKET_get_total_written_def)
  then have "ossl_quic_calculate_retry_integrity_tag aead pkt hdr odcid =
      Some (aead retry_integrity_key retry_integrity_nonce ((cid_field (cid_bytes odcid) @ pkt_hdr_bytes ?p) @ take (length data - 16) data))"
    using assms(2-4,7) len v w(1,2)
    by (simp add: ossl_quic_calculate_retry_integrity_tag_def QUIC_RETRY_INTEGRITY_TAG_LEN_def Let_def)
  then show ?thesis
    using assms(3,4) unfolding ossl_quic_validate_retry_integrity_tag_def body
    by (auto simp: len QUIC_RETRY_INTEGRITY_TAG_LEN_def split: option.split)
qed

text \<open>A Retry packet with the token \<open>[7, 7]\<close>, and a toy tag: the first 16 bytes of what is authenticated.\<close>

definition sample_retry_data :: bytes where
  "sample_retry_data = [7, 7] @ [2, 4, 4, 0xF0, 0, 0, 0, 1, 3, 1, 2, 3, 1, 9, 7, 7]"

definition sample_retry :: pkt_hdr where
  "sample_retry = sample_hdr\<lparr>ph_type := ucast QUIC_PKT_TYPE_RETRY, ph_len := 18, ph_data := Some sample_retry_data\<rparr>"

theorem retry_tag_checked_witness:
  "ossl_quic_validate_retry_integrity_tag (\<lambda>key nonce aad. Some (take 16 aad)) blank_wpacket sample_retry
    \<lparr>id_len = 2, cid_id = [4, 4] @ replicate 18 0\<rparr> = Some True"
proof -
  let ?odcid = "\<lparr>id_len = 2, cid_id = [4, 4] @ replicate 18 0\<rparr> :: conn_id"
  have wf: "hdr_wf sample_retry sample_retry_data"
    by (simp add: hdr_wf_def sample_retry_def sample_hdr_def sample_retry_data_def hdr_type_def pkt_types QUIC_MAX_CONN_ID_LEN_def)
  have pre: "hdr_type sample_retry = QUIC_PKT_TYPE_RETRY" "ph_data sample_retry = Some sample_retry_data"
    "16 \<le> length sample_retry_data" "length sample_retry_data < 2 ^ 64" "w_allocs blank_wpacket = []"
    "unat (id_len ?odcid) \<le> QUIC_MAX_CONN_ID_LEN" "length (cid_id ?odcid) = QUIC_MAX_CONN_ID_LEN"
    by (simp_all add: sample_retry_def sample_retry_data_def hdr_type_def pkt_types QUIC_MAX_CONN_ID_LEN_def)
  have bytes: "pkt_bytes (pkt_of_hdr sample_retry sample_retry_data) = [0xF0, 0, 0, 0, 1, 3, 1, 2, 3, 1, 9] @ sample_retry_data"
    "cid_field (cid_bytes ?odcid) = [2, 4, 4]"
    by code_simp+
  show ?thesis
    unfolding retry_tag_checked [OF wf pre] bytes by (simp add: sample_retry_data_def)
qed

end
