(* ===== verification/Spec2Isabelle.thy ===== *)
theory Spec2Isabelle
  imports WireAck WireParams FlowNetwork StreamTransfer PktExchange
begin

text \<open>
  \<^bold>\<open>The QUIC transport core of OpenSSL.\<close> This development models and verifies the part of the vendored OpenSSL
  (\<open>src/openssl-master\<close>) that turns application data into QUIC frames and packets and back: the codecs for
  integers, frames, transport parameters and packet headers, header protection, the buffers and bookkeeping of a
  stream's two ends, flow control, round trip time statistics and congestion control. All definitions are
  translated from the C sources; file names below are relative to \<open>src/openssl-master\<close>.

  \<^bold>\<open>How the parts interact.\<close> A sending application appends to a send stream (\<open>quic_sstream\<close>), which keeps the
  bytes in a ring buffer (\<open>ring_buf.h\<close>) and two integer sets (\<open>uint_set\<close>): the bytes to be sent and the
  bytes acknowledged. Frames taken from it are limited by the flow controller (\<open>quic_fc\<close>) and the congestion
  controller (\<open>cc_newreno\<close>), written by \<open>quic_wire\<close> through the packet writer (\<open>crypto/packet.c\<close>) as sequences of
  variable-length integers (\<open>quic_vlint\<close>) and put behind a packet header, which is then protected
  (\<open>quic_wire_pkt\<close>). The receiver finds the connection, removes the protection, decodes header and frames
  with the packet reader (\<open>internal/packet.h\<close>) and queues stream data in a receive stream (\<open>quic_rstream\<close>), which
  keeps frames in a sorted list (\<open>quic_sf_list\<close>), may move their data to a ring buffer, and tells the flow
  controller what the application has read. Acknowledgements carry round trip time samples (\<open>quic_statm\<close>).

  \<^bold>\<open>Conventions.\<close> Machine integers are words of the width they have on an LP64 platform, \<open>size_t\<close> and
  \<open>uint64_t\<close> being 64-bit words. A structure is a record, a linked list the list of its elements in order, a pointer to
  memory that is read the list of bytes from there on, a pointer into a packet an offset. A function that can fail an
  assertion, dereference NULL or access memory outside an object returns an option, and \<open>None\<close> is that
  outcome; a return value of 0 is an ordinary result. Memory allocation is a truth value or a list of outcomes
  that the caller of a definition supplies, the clock a function on a state of the world. Loops are structural
  recursions, or functions with a termination proof; there is no fuel anywhere in the model.

  \<^bold>\<open>Theories.\<close> Each holds the definitions for its part in the order of the source, the invariant and the lemmas.

  \<^item> \<open>Prelude\<close>: arithmetic of 64-bit words through \<open>unat\<close>, and lemmas on lists that several parts use.
  \<^item> \<open>OsslTime\<close>: \<open>internal/safe_math.h\<close> (the unsigned 64-bit functions) and \<open>internal/time.h\<close>. The checked
    operations give the exact result or report an error; times saturate; conversion to \<open>timeval\<close> rounds up.
  \<^item> \<open>UintSet\<close>: \<open>ssl/quic/uint_set.c\<close> on lists of ranges. The operations implement union, difference and
    membership (locale \<open>int_set\<close>, interpreted on the list operations); what happens without memory; when
    bordering ranges stay unmerged.
  \<^item> \<open>Vlint\<close>: \<open>internal/quic_vlint.h\<close>, \<open>crypto/quic_vlint.c\<close>. Encoding is the shortest form and decoding inverts it.
  \<^item> \<open>Packet\<close>: \<open>internal/packet.h\<close>, \<open>internal/packet_quic.h\<close>. A reader consumes a prefix and depends on nothing
    else (locale \<open>packet_reader\<close>); a \<open>codec\<close> is a reader with an encoder it inverts.
  \<^item> \<open>WPacket\<close>, \<open>WPacketSafe\<close>, \<open>WPacketOut\<close>: \<open>crypto/packet.c\<close> and \<open>BUF_MEM_grow\<close>. The invariant \<open>wp_ok\<close> of a writer,
    that legal calls keep it and stay inside the buffer, and what nested sub-packets leave in the buffer.
  \<^item> \<open>WireFrames\<close>, \<open>WireCodec\<close>, \<open>WireRoundtrip\<close>, \<open>WireAck\<close>, \<open>WireParams\<close>: \<open>ssl/quic/quic_wire.c\<close>. \<open>frame_bytes\<close>
    is the format of every frame; the encoders write it, the decoders read it, a sequence of frames survives
    the wire up to \<open>frame_received\<close>; acknowledgements decoded from arbitrary bytes are well formed; announced header
    lengths are exact; transport parameters survive the wire.
  \<^item> \<open>WirePkt\<close>, \<open>PktNumber\<close>, \<open>PktCodec\<close>, \<open>PktEncode\<close>, \<open>PktProtect\<close>, \<open>PktExchange\<close>: \<open>ssl/quic/quic_wire_pkt.c\<close>.
    \<open>wire_pkt\<close> and \<open>pkt_bytes\<close> are packets and their format; the encoder writes it, the decoder reads it, also partially
    under header protection; protection is undone; truncated packet numbers are reconstructed; the connection
    ID used for routing is the decoded one; the tag of a Retry packet covers what RFC 9001 says. The ciphers
    are parameters; \<open>evp_sound\<close> says that they return as many bytes as documented.
  \<^item> \<open>RingBuf\<close>, \<open>RingWindow\<close>: \<open>internal/ring_buf.h\<close>. The buffer holds a window of the stream pushed into it
    (locale \<open>byte_window\<close>, interpreted on the buffer).
  \<^item> \<open>SStream\<close>, \<open>SendStream\<close>: \<open>ssl/quic/quic_sstream.c\<close> over \<open>RingBuf\<close> and \<open>UintSet\<close>. The relation \<open>sstream_reach\<close> of
    states and appended streams; frames carry the right bytes; everything is sent in finitely many frames.
  \<^item> \<open>FlowControl\<close>, \<open>FlowNetwork\<close>: \<open>ssl/quic/quic_fc.c\<close>, and a network of controllers of two connected
    endpoints as a step relation. Credit is never exceeded (locale \<open>credit_account\<close>, interpreted on both kinds
    of controllers); no flow control error arises between endpoints that follow the rules; the sums at the
    connection are those of its streams.
  \<^item> \<open>Congestion\<close>: \<open>ssl/quic/quic_statm.c\<close> and \<open>ssl/quic/cc_newreno.c\<close>. Estimates stay within the samples; \<open>cc_reach\<close>
    relates the controller to the packets in flight; the window is bounded on both sides; what losses do to it.
  \<^item> \<open>SFrameList\<close>, \<open>RStream\<close>, \<open>RecvStream\<close>: \<open>ssl/quic/quic_sf_list.c\<close> and \<open>ssl/quic/quic_rstream.c\<close>. The list keeps the
    bytes of the received frames (locale \<open>side_storage\<close> for the buffer data is moved to, interpreted on the ring
    buffer); reads return the stream up to the first gap.
  \<^item> \<open>StreamTransfer\<close>: a send and a receive stream connected by a network that may lose, repeat and reorder frames.
    The application has a prefix of what was appended, and all of it once everything was delivered.

  \<^bold>\<open>Reading the properties.\<close> The numbered theorems are the properties of the code; each is followed by an instance at
  concrete values when it has hypotheses. Bounds in hypotheses are those of the code or of the protocol: integers on
  the wire are below \<open>2 ^ 62\<close>, buffers and packets below \<open>2 ^ 64\<close> bytes, growing buffers below \<open>2 ^ 31\<close> (the
  limit of \<open>BUF_MEM_grow\<close>), lengths that are returned as \<open>int\<close> below \<open>2 ^ 31\<close>, round trip times below \<open>2 ^ 61\<close> ticks,
  so that the sums in the estimator do not saturate, and datagrams of the congestion controller below \<open>2 ^ 60\<close> bytes, so that
  its products do not wrap around. Lemmas whose names say what goes wrong (for example
  \<open>set_max_size_overflow\<close>, \<open>cpop_moves_tail_back\<close>, \<open>insert_frees_locked_head\<close>,
  \<open>release_record_retires_offset\<close>, \<open>raised_size_below_minimum\<close>) evaluate the model where the code departs from its
  comments or from its purpose.

  \<^bold>\<open>Not modelled.\<close> Functions that only free memory; the reference counts of received packets and how long pointers
  handed to the application stay valid (a record of a receive stream is the value of its bytes); what a
  decoder has stored before it fails; the tables of names for error codes; the ciphers behind the EVP
  interface. Of the QUIC stack, the connection machinery (\<open>quic_channel\<close>, \<open>quic_txp\<close>, \<open>quic_ackm\<close>,
  \<open>quic_rx_depack\<close>, \<open>quic_stream_map\<close> and what they use), the record layer, the managers of connection IDs and the
  API are left out: they are state machines over sockets, timers, callbacks and the TLS handshake that call the parts
  above. The rest of OpenSSL, the Python package \<open>cryptography-main\<close> and the scripts at the top of \<open>src\<close> are
  independent of this core.
\<close>

end
